(* ===== verification/Prelude.thy ===== *)
theory Prelude
  imports Main "HOL-Library.Word" "HOL-Library.Monad_Syntax"
begin

text \<open>
  The shared vocabulary of the development.

  C code that may read a NULL pointer, index outside an array or divide by zero is
  modelled in the option monad: \<open>None\<close> is undefined behaviour, \<open>Some (r, w)\<close> is a
  normal return with result \<open>r\<close> and state \<open>w\<close>. \<open>ok m Q\<close> says that \<open>m\<close>
  is free of undefined behaviour and that its result satisfies \<open>Q\<close>; its equations
  (collection \<open>wp\<close>) compute weakest preconditions through \<open>bind\<close>, \<open>if\<close> and
  \<open>case\<close>. Arrays are lists read and written through \<open>nth_opt\<close> and
  \<open>upd_opt\<close>, and a C \<open>for\<close> loop is \<open>foldM\<close> over its index list.
\<close>

named_theorems wp "weakest preconditions of the option monad"

type_synonym u8 = "8 word"
type_synonym u16 = "16 word"
type_synonym u32 = "32 word"

text \<open>Total correctness of one run.\<close>

definition ok :: "'a option \<Rightarrow> ('a \<Rightarrow> bool) \<Rightarrow> bool" where
  "ok m Q = (case m of None \<Rightarrow> False | Some x \<Rightarrow> Q x)"

text \<open>Checked array accesses.\<close>

definition nth_opt :: "'a list \<Rightarrow> nat \<Rightarrow> 'a option" where
  "nth_opt xs i = (if i < length xs then Some (xs ! i) else None)"

definition upd_opt :: "'a list \<Rightarrow> nat \<Rightarrow> 'a \<Rightarrow> 'a list option" where
  "upd_opt xs i x = (if i < length xs then Some (xs[i := x]) else None)"

text \<open>\<open>memcpy\<close> of \<open>n\<close> bytes from a pointer of which \<open>xs\<close> are readable.\<close>

definition take_opt :: "nat \<Rightarrow> 'a list \<Rightarrow> 'a list option" where
  "take_opt n xs = (if n \<le> length xs then Some (take n xs) else None)"

text \<open>A loop whose body may have undefined behaviour.\<close>

primrec foldM :: "('a \<Rightarrow> 's \<Rightarrow> 's option) \<Rightarrow> 'a list \<Rightarrow> 's \<Rightarrow> 's option" where
  "foldM f [] s = Some s"
| "foldM f (x # xs) s = Option.bind (f x s) (foldM f xs)"

text \<open>The search loop: the first position of \<open>is\<close> whose element satisfies \<open>p\<close>.\<close>

primrec find_idx :: "('a \<Rightarrow> bool) \<Rightarrow> 'a list \<Rightarrow> nat list \<Rightarrow> nat option option" where
  "find_idx p xs [] = Some None"
| "find_idx p xs (i # is) =
     Option.bind (nth_opt xs i) (\<lambda>x. if p x then Some (Some i) else find_idx p xs is)"

text \<open>C's truncating division and remainder on \<open>int\<close>.\<close>

definition c_div :: "int \<Rightarrow> int \<Rightarrow> int" where
  "c_div a b = sgn a * sgn b * (\<bar>a\<bar> div \<bar>b\<bar>)"

definition c_mod :: "int \<Rightarrow> int \<Rightarrow> int" where
  "c_mod a b = a - c_div a b * b"

subsection \<open>Weakest preconditions\<close>

lemma ok_Some [simp, wp]: "ok (Some x) Q = Q x"
  by (simp add: ok_def)

lemma ok_None [simp, wp]: "ok None Q = False"
  by (simp add: ok_def)

lemma ok_bind [simp, wp]: "ok (Option.bind m f) Q = ok m (\<lambda>x. ok (f x) Q)"
  by (cases m) simp_all

lemma ok_if [wp]: "ok (if b then m else n) Q = (if b then ok m Q else ok n Q)"
  by simp

lemma ok_prod [wp]: "ok (case p of (a, b) \<Rightarrow> f a b) Q = (case p of (a, b) \<Rightarrow> ok (f a b) Q)"
  by (cases p) simp

lemma ok_option [wp]:
  "ok (case x of None \<Rightarrow> m | Some y \<Rightarrow> f y) Q = (case x of None \<Rightarrow> ok m Q | Some y \<Rightarrow> ok (f y) Q)"
  by (cases x) simp_all

lemma ok_iff: "ok m Q \<longleftrightarrow> (\<exists>x. m = Some x \<and> Q x)"
  by (cases m) simp_all

lemma okI: "m = Some x \<Longrightarrow> Q x \<Longrightarrow> ok m Q"
  by simp

lemma okD: "ok m Q \<Longrightarrow> m = Some x \<Longrightarrow> Q x"
  by simp

lemma ok_mono: "ok m P \<Longrightarrow> (\<And>x. P x \<Longrightarrow> Q x) \<Longrightarrow> ok m Q"
  by (cases m) simp_all

lemma ok_conj: "ok m P \<Longrightarrow> ok m Q \<Longrightarrow> ok m (\<lambda>x. P x \<and> Q x)"
  by (cases m) simp_all

lemma ok_not_None: "ok m Q \<Longrightarrow> m \<noteq> None"
  by (cases m) simp_all

subsection \<open>Arrays\<close>

lemma nth_opt_Some [simp]: "i < length xs \<Longrightarrow> nth_opt xs i = Some (xs ! i)"
  by (simp add: nth_opt_def)

lemma nth_opt_eq_Some: "nth_opt xs i = Some x \<longleftrightarrow> i < length xs \<and> xs ! i = x"
  by (simp add: nth_opt_def)

lemma nth_opt_None [simp]: "length xs \<le> i \<Longrightarrow> nth_opt xs i = None"
  by (simp add: nth_opt_def)

lemma nth_opt_append [simp]: "i < length xs \<Longrightarrow> nth_opt (xs @ ys) i = Some (xs ! i)"
  by (simp add: nth_opt_def nth_append)

lemma upd_opt_Some [simp]: "i < length xs \<Longrightarrow> upd_opt xs i x = Some (xs[i := x])"
  by (simp add: upd_opt_def)

lemma upd_opt_eq_Some: "upd_opt xs i x = Some ys \<longleftrightarrow> i < length xs \<and> ys = xs[i := x]"
  by (auto simp: upd_opt_def)

lemma take_opt_Some [simp]: "n \<le> length xs \<Longrightarrow> take_opt n xs = Some (take n xs)"
  by (simp add: take_opt_def)

lemma take_opt_append [simp]: "length xs = n \<Longrightarrow> take_opt n (xs @ ys) = Some xs"
  by (simp add: take_opt_def)

subsection \<open>Loops\<close>

lemma foldM_append: "foldM f (xs @ ys) s = Option.bind (foldM f xs s) (foldM f ys)"
proof (induction xs arbitrary: s)
  case Nil
  show ?case by simp
next
  case (Cons x xs)
  then show ?case by (cases "f x s") simp_all
qed

text \<open>The loop rule: an invariant that every iteration keeps.\<close>

lemma foldM_ok:
  assumes "I s" and "\<And>x s. x \<in> set xs \<Longrightarrow> I s \<Longrightarrow> ok (f x s) I"
  shows "ok (foldM f xs s) I"
  using assms
proof (induction xs arbitrary: s)
  case Nil
  then show ?case by simp
next
  case (Cons x xs)
  have "ok (f x s) I" by (rule Cons.prems) (use Cons.prems in simp_all)
  then show ?case
    by (simp, elim ok_mono) (rule Cons.IH, use Cons.prems in auto)
qed

text \<open>The same with an invariant over the part of the list already visited.\<close>

lemma foldM_prefix_ok:
  assumes "I [] s" and "\<And>ys x zs s. xs = ys @ x # zs \<Longrightarrow> I ys s \<Longrightarrow> ok (f x s) (I (ys @ [x]))"
  shows "ok (foldM f xs s) (I xs)"
  using assms
proof (induction xs rule: rev_induct)
  case Nil
  then show ?case by simp
next
  case (snoc x xs)
  have "ok (foldM f xs s) (I xs)" using snoc.prems by (intro snoc.IH) auto
  then show ?case by (simp add: foldM_append) (elim ok_mono, use snoc.prems in simp)
qed

text \<open>The same for a counting loop, with an invariant over the counter.\<close>

lemma foldM_upt_ok:
  assumes "I 0 s" and "\<And>i s. i < n \<Longrightarrow> I i s \<Longrightarrow> ok (f i s) (I (Suc i))"
  shows "ok (foldM f [0..<n] s) (I n)"
  using assms
proof (induction n)
  case 0
  then show ?case by simp
next
  case (Suc n)
  have "ok (foldM f [0..<n] s) (I n)"
    using Suc.prems by (intro Suc.IH) auto
  then show ?case
    by (simp add: foldM_append) (elim ok_mono, use Suc.prems in simp)
qed

text \<open>A loop that only reads an array and accumulates is a \<open>fold\<close> over it.\<close>

lemma foldM_read:
  assumes "n \<le> length xs"
  shows "foldM (\<lambda>i a. Option.bind (nth_opt xs i) (\<lambda>x. Some (f x a))) [0..<n] a
    = Some (fold f (take n xs) a)"
  using assms
proof (induction n)
  case 0
  then show ?case by simp
next
  case (Suc n)
  then show ?case by (simp add: foldM_append take_Suc_conv_app_nth)
qed

lemma bindE: "Option.bind m f = Some y \<Longrightarrow> (\<And>x. m = Some x \<Longrightarrow> f x = Some y \<Longrightarrow> P) \<Longrightarrow> P"
  by (cases m) simp_all

lemma foldM_frame:
  assumes "foldM f xs s = Some s'" "\<And>x u v. f x u = Some v \<Longrightarrow> g v = g u"
  shows "g s' = g s"
  using assms(1) by (induction xs arbitrary: s) (auto simp: bind_eq_Some_conv dest!: assms(2))

lemma foldM_cong:
  assumes "\<And>x s. x \<in> set xs \<Longrightarrow> f x s = g x s"
  shows "foldM f xs s = foldM g xs s"
  using assms by (induction xs arbitrary: s) (auto intro!: Option.bind_cong)

lemma foldM_total: "(\<And>x s. x \<in> set xs \<Longrightarrow> f x s = Some (g x s)) \<Longrightarrow> foldM f xs s = Some (fold g xs s)"
  by (induction xs arbitrary: s) simp_all

text \<open>A search that stays inside its array is the library's \<open>find\<close>.\<close>

lemma find_idx_find:
  "\<forall>i \<in> set is. i < length xs \<Longrightarrow> find_idx p xs is = Some (find (\<lambda>i. p (xs ! i)) is)"
  by (induction "is") auto

lemma find_app: "find P (xs @ ys) = (case find P xs of None \<Rightarrow> find P ys | Some x \<Rightarrow> Some x)"
  by (induction xs) simp_all

lemma find_idx_take:
  "n \<le> length xs \<Longrightarrow> map_option (\<lambda>i. xs ! i) (find (\<lambda>i. P (xs ! i)) [0..<n]) = find P (take n xs)"
proof (induction n)
  case 0
  then show ?case by simp
next
  case (Suc n)
  then show ?case
    by (cases "find (\<lambda>i. P (xs ! i)) [0..<n]") (simp_all add: find_app take_Suc_conv_app_nth, metis option.simps(5))
qed

lemma find_upt_eq_Some:
  "find P [0..<n] = Some i \<longleftrightarrow> i < n \<and> P i \<and> (\<forall>j < i. \<not> P j)"
  by (auto simp: find_Some_iff)

lemma find_upt_eq_None: "find P [0..<n] = None \<longleftrightarrow> (\<forall>i < n. \<not> P i)"
  by (auto simp: find_None_iff)

subsection \<open>Truncating division\<close>

lemma c_div_nonneg: "0 \<le> a \<Longrightarrow> 0 < b \<Longrightarrow> c_div a b = a div b"
  by (cases "a = 0") (simp_all add: c_div_def sgn_if)

lemma c_mod_nonneg: "0 \<le> a \<Longrightarrow> 0 < b \<Longrightarrow> c_mod a b = a mod b"
  by (simp add: c_mod_def c_div_nonneg minus_div_mult_eq_mod)

lemma c_div_neg: "a < 0 \<Longrightarrow> 0 < b \<Longrightarrow> c_div a b = - ((- a) div b)"
  by (simp add: c_div_def sgn_if)

lemma c_mod_neg: "a < 0 \<Longrightarrow> 0 < b \<Longrightarrow> c_mod a b = - ((- a) mod b)"
  by (simp add: c_mod_def c_div_neg) (metis add.inverse_inverse minus_div_mult_eq_mod minus_diff_eq uminus_add_conv_diff)

subsection \<open>Ranges of the machine integers\<close>

lemma unat_u8_less: "unat (x :: u8) < 256"
  using unsigned_less [where 'a = nat, of x] by simp

lemma unat_u16_less: "unat (x :: u16) < 65536"
  using unsigned_less [where 'a = nat, of x] by simp

lemma unat_u32_less: "unat (x :: u32) < 4294967296"
  using unsigned_less [where 'a = nat, of x] by simp

lemma uint_u8_less: "uint (x :: u8) < 256"
  using unsigned_less [where 'a = int, of x] by simp

lemma uint_u16_less: "uint (x :: u16) < 65536"
  using unsigned_less [where 'a = int, of x] by simp

subsection \<open>Lists\<close>

lemma list_update_forall:
  "(\<forall>i < length xs. P i (xs ! i)) \<Longrightarrow> P j x \<Longrightarrow>
    (\<forall>i < length (xs[j := x]). P i (xs[j := x] ! i))"
  by (metis length_list_update nth_list_update_eq nth_list_update_neq)

end
