(* ===== verification/Bytes.thy ===== *)
theory Bytes
  imports Prelude
begin

text \<open>
  Bytes in memory and on the wire. An IPv4 address, a node identifier and a hardware
  address are the byte lists the C structs hold; a number in a packet is written
  big-endian. A reader takes the bytes under the cursor and returns the value and the
  advanced cursor, as the macro \<open>copy_buf_to_var_inc\<close> of packet.c does; \<open>None\<close> is
  a read past the end. The locale \<open>codec\<close> is the interface of one field of a packet;
  the lemmas about sequences of fields are proved in it once.
\<close>

subsection \<open>Writers and readers\<close>

definition put8 :: "u8 \<Rightarrow> u8 list" where
  "put8 x = [x]"

definition put16 :: "u16 \<Rightarrow> u8 list" where
  "put16 x = [ucast (drop_bit 8 x), ucast x]"

definition put32 :: "u32 \<Rightarrow> u8 list" where
  "put32 x = [ucast (drop_bit 24 x), ucast (drop_bit 16 x), ucast (drop_bit 8 x), ucast x]"

fun be16 :: "u8 list \<Rightarrow> u16" where
  "be16 [a, b] = push_bit 8 (ucast a) + ucast b"
| "be16 _ = 0"

fun be32 :: "u8 list \<Rightarrow> u32" where
  "be32 [a, b, c, d] = push_bit 24 (ucast a) + push_bit 16 (ucast b) + push_bit 8 (ucast c) + ucast d"
| "be32 _ = 0"

definition get_bytes :: "nat \<Rightarrow> u8 list \<Rightarrow> (u8 list \<times> u8 list) option" where
  "get_bytes n bs = (if n \<le> length bs then Some (take n bs, drop n bs) else None)"

definition get8 :: "u8 list \<Rightarrow> (u8 \<times> u8 list) option" where
  "get8 bs = (case bs of [] \<Rightarrow> None | b # r \<Rightarrow> Some (b, r))"

definition get16 :: "u8 list \<Rightarrow> (u16 \<times> u8 list) option" where
  "get16 bs = do { (v, r) \<leftarrow> get_bytes 2 bs; Some (be16 v, r) }"

definition get32 :: "u8 list \<Rightarrow> (u32 \<times> u8 list) option" where
  "get32 bs = do { (v, r) \<leftarrow> get_bytes 4 bs; Some (be32 v, r) }"

text \<open>\<open>memcpy\<close> between four bytes and a \<open>uint32_t\<close>, which depends on the host.\<close>

definition load32 :: "bool \<Rightarrow> u8 list \<Rightarrow> u32" where
  "load32 little bs = be32 (if little then rev bs else bs)"

definition store32 :: "bool \<Rightarrow> u32 \<Rightarrow> u8 list" where
  "store32 little x = (if little then rev (put32 x) else put32 x)"

text \<open>The sign of \<open>memcmp\<close> on two arrays of one length.\<close>

fun memcmp :: "u8 list \<Rightarrow> u8 list \<Rightarrow> int" where
  "memcmp (x # xs) (y # ys) = (if x < y then -1 else if y < x then 1 else memcmp xs ys)"
| "memcmp _ _ = 0"

text \<open>A run of \<open>n\<close> fields of one kind.\<close>

fun get_many :: "(u8 list \<Rightarrow> ('a \<times> u8 list) option) \<Rightarrow> nat \<Rightarrow> u8 list \<Rightarrow> ('a list \<times> u8 list) option" where
  "get_many g 0 bs = Some ([], bs)"
| "get_many g (Suc n) bs = do { (x, r) \<leftarrow> g bs; (xs, r') \<leftarrow> get_many g n r; Some (x # xs, r') }"

subsection \<open>The interface of a packet field\<close>

locale codec =
  fixes put :: "'a \<Rightarrow> u8 list"
    and get :: "u8 list \<Rightarrow> ('a \<times> u8 list) option"
    and width :: nat
    and valid :: "'a \<Rightarrow> bool"
  assumes get_put: "valid x \<Longrightarrow> get (put x @ r) = Some (x, r)"
    and put_length: "valid x \<Longrightarrow> length (put x) = width"
    and get_valid: "get bs = Some (x, r) \<Longrightarrow> valid x \<and> bs = put x @ r"
    and get_enough: "width \<le> length bs \<Longrightarrow> get bs \<noteq> None"
begin

text \<open>A read with enough bytes under the cursor, as a step of a compound reader.\<close>

lemma get_bind:
  assumes "width \<le> length bs" and "\<And>x r. length bs = width + length r \<Longrightarrow> ok (f x r) Q"
  shows "ok (Option.bind (get bs) (case_prod f)) Q"
proof -
  obtain x r where x: "get bs = Some (x, r)" using get_enough [OF assms(1)] by fastforce
  then have "length bs = width + length r" using get_valid [OF x] put_length by fastforce
  with x assms(2) show ?thesis by simp
qed

lemma get_many_put:
  "\<forall>x \<in> set xs. valid x \<Longrightarrow> get_many get (length xs) (concat (map put xs) @ r) = Some (xs, r)"
  by (induction xs) (simp_all add: get_put)

lemma concat_put_length: "\<forall>x \<in> set xs. valid x \<Longrightarrow> length (concat (map put xs)) = width * length xs"
  by (induction xs) (simp_all add: put_length)

lemma get_many_inv:
  "get_many get n bs = Some (xs, r) \<Longrightarrow>
    length xs = n \<and> (\<forall>x \<in> set xs. valid x) \<and> bs = concat (map put xs) @ r"
proof (induction n arbitrary: bs xs)
  case 0
  then show ?case by simp
next
  case (Suc n)
  then obtain x r1 xs' where x: "get bs = Some (x, r1)" and xs': "get_many get n r1 = Some (xs', r)"
    and "xs = x # xs'"
    by (auto simp: bind_eq_Some_conv)
  with Suc.IH [OF xs'] get_valid [OF x] show ?case by simp
qed

lemma get_many_enough: "width * n \<le> length bs \<Longrightarrow> get_many get n bs \<noteq> None"
proof (induction n arbitrary: bs)
  case 0
  then show ?case by simp
next
  case (Suc n)
  have "ok (get_many get (Suc n) bs) (\<lambda>_. True)"
    unfolding get_many.simps
  proof (rule get_bind)
    show "width \<le> length bs" using Suc.prems by simp
    fix x and r :: "u8 list"
    assume "length bs = width + length r"
    then have "get_many get n r \<noteq> None" using Suc.prems by (intro Suc.IH) simp
    then show "ok (do { (xs, r') \<leftarrow> get_many get n r; Some (x # xs, r') }) (\<lambda>_. True)"
      by auto
  qed
  then show ?case by (rule ok_not_None)
qed

lemma get_many_length: "get_many get n bs = Some (xs, r) \<Longrightarrow> length bs = width * n + length r"
  using get_many_inv [of n bs xs r] concat_put_length [of xs] by auto

end

subsection \<open>Numbers\<close>

lemma length_put [simp]: "length (put8 x) = 1" "length (put16 y) = 2" "length (put32 z) = 4"
  by (simp_all add: put8_def put16_def put32_def)

lemma bit_u8_bound [simp]: "8 \<le> n \<Longrightarrow> \<not> bit (a :: u8) n"
  using bit_imp_le_length [of a n] by auto

text \<open>The bytes of a number do not overlap, so their sum is their bitwise or.\<close>

lemma be16_or: "be16 [a, b] = or (push_bit 8 (ucast a)) (ucast b)"
  unfolding be16.simps
  by (rule disjunctive_add) (auto simp: bit_simps)

lemma be32_or:
  "be32 [a, b, c, d] =
    or (or (or (push_bit 24 (ucast a)) (push_bit 16 (ucast b))) (push_bit 8 (ucast c))) (ucast d)"
proof -
  let ?a = "push_bit 24 (ucast a) :: u32" and ?b = "push_bit 16 (ucast b) :: u32"
    and ?c = "push_bit 8 (ucast c) :: u32" and ?d = "ucast d :: u32"
  have "?a + ?b = or ?a ?b"
    by (rule disjunctive_add) (auto simp: bit_simps)
  moreover have "or ?a ?b + ?c = or (or ?a ?b) ?c"
    by (rule disjunctive_add) (auto simp: bit_simps)
  moreover have "or (or ?a ?b) ?c + ?d = or (or (or ?a ?b) ?c) ?d"
    by (rule disjunctive_add) (auto simp: bit_simps)
  ultimately show ?thesis by simp
qed

lemma be16_put16 [simp]: "be16 (put16 x) = x"
  unfolding put16_def be16_or by (rule bit_word_eqI) (auto simp: bit_simps)

lemma be32_put32 [simp]: "be32 (put32 x) = x"
proof (rule bit_word_eqI)
  fix n
  assume "n < LENGTH(32)"
  then show "bit (be32 (put32 x)) n = bit x n"
    unfolding put32_def be32_or
    by (cases "n < 8"; cases "n < 16"; cases "n < 24") (auto simp: bit_simps)
qed

lemma put16_be16:
  assumes "length bs = 2"
  shows "put16 (be16 bs) = bs"
proof -
  obtain a b where bs: "bs = [a, b]"
    using assms by (auto simp: numeral_2_eq_2 length_Suc_conv)
  show ?thesis
    unfolding bs be16_or put16_def
    by (auto simp: bit_simps intro!: bit_word_eqI)
qed

lemma put32_be32:
  assumes "length bs = 4"
  shows "put32 (be32 bs) = bs"
proof -
  obtain a b c d where bs: "bs = [a, b, c, d]"
    using assms by (auto simp: eval_nat_numeral length_Suc_conv)
  show ?thesis
    unfolding bs be32_or put32_def
    by (auto simp: bit_simps intro!: bit_word_eqI)
qed

lemma load32_store32 [simp]: "load32 e (store32 e x) = x"
  by (simp add: load32_def store32_def)

lemma store32_load32: "length bs = 4 \<Longrightarrow> store32 e (load32 e bs) = bs"
  by (simp add: load32_def store32_def put32_be32)

lemma length_store32 [simp]: "length (store32 e x) = 4"
  by (simp add: store32_def)

text \<open>A number read as bytes of the other host comes back with its bytes reversed.\<close>

lemma store32_other: "store32 (\<not> e) x = rev (store32 e x)"
  by (simp add: store32_def)

subsection \<open>Readers of the basic fields\<close>

lemma get_bytes_append [simp]: "length xs = n \<Longrightarrow> get_bytes n (xs @ r) = Some (xs, r)"
  by (simp add: get_bytes_def)

lemma get_bytes_eq_Some: "get_bytes n bs = Some (v, r) \<longleftrightarrow> bs = v @ r \<and> length v = n"
  by (auto simp: get_bytes_def)

lemma get_enough:
  shows "n \<le> length bs \<Longrightarrow> get_bytes n bs \<noteq> None"
    and "2 \<le> length bs \<Longrightarrow> get16 bs \<noteq> None"
    and "4 \<le> length bs \<Longrightarrow> get32 bs \<noteq> None"
  by (simp_all add: get_bytes_def get16_def get32_def)

lemma get16_put16: "get16 bs = Some (x, r) \<longleftrightarrow> bs = put16 x @ r"
  by (auto simp: get16_def bind_eq_Some_conv get_bytes_eq_Some put16_be16)

lemma get32_put32: "get32 bs = Some (x, r) \<longleftrightarrow> bs = put32 x @ r"
  by (auto simp: get32_def bind_eq_Some_conv get_bytes_eq_Some put32_be32)

interpretation c8: codec put8 get8 1 "\<lambda>_. True"
  by unfold_locales (auto simp: put8_def get8_def split: list.splits)

interpretation c16: codec put16 get16 2 "\<lambda>_. True"
  by unfold_locales (simp_all add: get16_put16 get_enough del: not_None_eq)

interpretation c32: codec put32 get32 4 "\<lambda>_. True"
  by unfold_locales (simp_all add: get32_put32 get_enough del: not_None_eq)

interpretation craw: codec "\<lambda>x. x" "get_bytes n" n "\<lambda>x. length x = n" for n
  by unfold_locales (simp_all add: get_bytes_eq_Some get_enough del: not_None_eq)

subsection \<open>Comparison of byte arrays\<close>

lemma memcmp_refl [simp]: "memcmp xs xs = 0"
  by (induction xs) simp_all

lemma memcmp_eq_0: "length xs = length ys \<Longrightarrow> memcmp xs ys = 0 \<longleftrightarrow> xs = ys"
  by (induction xs ys rule: list_induct2) auto

lemma memcmp_antisym: "length xs = length ys \<Longrightarrow> memcmp ys xs = - memcmp xs ys"
  by (induction xs ys rule: list_induct2) auto

lemma memcmp_trans:
  "length xs = length ys \<Longrightarrow> length ys = length zs \<Longrightarrow>
    memcmp xs ys < 0 \<Longrightarrow> memcmp ys zs < 0 \<Longrightarrow> memcmp xs zs < 0"
  by (induction xs ys zs rule: list_induct3) (auto split: if_splits)

end
