(* ===== verification/Types.thy ===== *)
theory Types
  imports Bytes "HOL-Library.Stream"
begin

text \<open>
  The data of types.h, packet.h and dhcp_packet.h, and the state every operation works on.

  \<open>world\<close> extends the program's \<open>ddhcp_config\<close> by what it does not own: the successive
  results of \<open>time(NULL)\<close>, \<open>rand()\<close>, the allocator and \<open>sendto\<close>, each a stream of
  which a call takes the head, the byte order of the host, and the trace \<open>w_out\<close> of what
  was handed to the kernel (datagrams, hook commands, text for the control socket and the
  terminal). The global \<open>log_level\<close> is kept there too. No assumption is made about the
  streams: the clock may jump, any allocation may fail, any datagram may be refused.
  \<open>time_t\<close> is unbounded; every other integer has its C width.

  A pointer to a block is its position in the array \<open>blocks\<close>; a block's \<open>addresses\<close> is
  \<open>None\<close> for NULL. A payload pointer of an option is the list of bytes that may be read
  through it, which for an option parsed in place reaches to the end of the receive buffer
  and not only over its \<open>len\<close> bytes. A NULL array is the empty list.
\<close>

subsection \<open>Enumerations\<close>

datatype stat =
    STAT_MCAST_RECV_PKG | STAT_MCAST_SEND_PKG | STAT_MCAST_RECV_BYTE | STAT_MCAST_SEND_BYTE
  | STAT_MCAST_SEND_UPDATECLAIM | STAT_MCAST_RECV_UPDATECLAIM
  | STAT_MCAST_SEND_INQUIRE | STAT_MCAST_RECV_INQUIRE
  | STAT_DIRECT_RECV_PKG | STAT_DIRECT_SEND_PKG | STAT_DIRECT_RECV_BYTE | STAT_DIRECT_SEND_BYTE
  | STAT_DIRECT_RECV_RENEWLEASE | STAT_DIRECT_SEND_RENEWLEASE
  | STAT_DIRECT_RECV_LEASEACK | STAT_DIRECT_SEND_LEASEACK
  | STAT_DIRECT_RECV_LEASENAK | STAT_DIRECT_SEND_LEASENAK
  | STAT_DIRECT_RECV_RELEASE | STAT_DIRECT_SEND_RELEASE
  | STAT_DHCP_RECV_PKG | STAT_DHCP_SEND_PKG | STAT_DHCP_RECV_BYTE | STAT_DHCP_SEND_BYTE
  | STAT_DHCP_RECV_DISCOVER | STAT_DHCP_SEND_OFFER | STAT_DHCP_RECV_REQUEST
  | STAT_DHCP_SEND_ACK | STAT_DHCP_SEND_NAK | STAT_DHCP_RECV_RELEASE | STAT_DHCP_RECV_INFORM

datatype block_state =
    DDHCP_FREE | DDHCP_TENTATIVE | DDHCP_CLAIMED | DDHCP_CLAIMING | DDHCP_OURS | DDHCP_BLOCKED

datatype lease_state = FREE | OFFERED | LEASED

subsection \<open>Structures\<close>

type_synonym in_addr = "u8 list"
type_synonym in6_addr = "u8 list"
type_synonym node_id = "u8 list"

record dhcp_lease =
  l_chaddr :: "u8 list"
  l_state :: lease_state
  l_xid :: u32
  l_lease_end :: int

record ddhcp_block =
  b_index :: u32
  b_state :: block_state
  b_subnet :: in_addr
  b_subnet_len :: u8
  b_claiming_counts :: u8
  b_node_id :: node_id
  b_owner_address :: in6_addr
  b_first_claimed :: int
  b_needless_since :: int
  b_timeout :: int
  b_addresses :: "dhcp_lease list option"

record dhcp_option =
  o_code :: u8
  o_len :: u8
  o_payload :: "u8 list"

record dhcp_packet =
  d_op :: u8
  d_htype :: u8
  d_hlen :: u8
  d_hops :: u8
  d_xid :: u32
  d_secs :: u16
  d_flags :: u16
  d_chaddr :: "u8 list"
  d_sname :: "u8 list"
  d_file :: "u8 list"
  d_options_len :: u8
  d_timeout :: int
  d_ciaddr :: in_addr
  d_yiaddr :: in_addr
  d_siaddr :: in_addr
  d_giaddr :: in_addr
  d_options :: "dhcp_option list"

record ddhcp_payload =
  y_block_index :: u32
  y_timeout :: u16
  y_reserved :: u16

record ddhcp_renew_payload =
  r_chaddr :: "u8 list"
  r_address :: u32
  r_xid :: u32
  r_lease_seconds :: u32

text \<open>The union of \<open>ddhcp_mcast_packet\<close>; \<open>No_body\<close> is the zeroed pointer.\<close>

datatype mcast_body =
    No_body
  | Payload "ddhcp_payload list"
  | Renew ddhcp_renew_payload

record ddhcp_mcast_packet =
  m_node_id :: node_id
  m_prefix :: in_addr
  m_prefix_len :: u8
  m_blocksize :: u8
  m_command :: u8
  m_count :: u8
  m_sender :: "in6_addr option"
  m_body :: mcast_body

record ddhcp_config =
  c_node_id :: node_id
  c_number_of_blocks :: u32
  c_block_timeout :: u16
  c_block_refresh_factor :: u16
  c_block_needless_timeout :: u16
  c_tentative_timeout :: u16
  c_block_size :: u8
  c_spare_leases_needed :: u8
  c_prefix :: in_addr
  c_prefix_len :: u8
  c_disable_dhcp :: u8
  c_claiming_blocks_amount :: u8
  c_needless_marks :: u8
  c_blocks :: "ddhcp_block list"
  c_claiming_blocks :: "nat list"
  c_dhcp_packet_cache :: "dhcp_packet list"
  c_options :: "dhcp_option list"
  c_hook_command :: "string option"
  c_statistics :: "stat \<Rightarrow> int"

text \<open>What leaves the process.\<close>

datatype io =
    Mcast_send "u8 list"
  | Direct_send in6_addr "u8 list"
  | Dhcp_send "in_addr option" "u8 list"
  | Hook_address string in_addr "u8 list"
  | Hook_event string
  | Ctrl_text string
  | Std_text string
  | Err_text string

record world = ddhcp_config +
  w_times :: "int stream"
  w_rands :: "u32 stream"
  w_allocs :: "bool stream"
  w_sends :: "int stream"
  w_out :: "io list"
  w_little_endian :: bool
  w_log_level :: int

subsection \<open>The environment\<close>

definition time_null :: "world \<Rightarrow> int \<times> world" where
  "time_null w = (shd (w_times w), w\<lparr>w_times := stl (w_times w)\<rparr>)"

definition rand_u32 :: "world \<Rightarrow> u32 \<times> world" where
  "rand_u32 w = (shd (w_rands w), w\<lparr>w_rands := stl (w_rands w)\<rparr>)"

text \<open>Whether an allocation returns memory.\<close>

definition calloc :: "world \<Rightarrow> bool \<times> world" where
  "calloc w = (shd (w_allocs w), w\<lparr>w_allocs := stl (w_allocs w)\<rparr>)"

text \<open>\<open>sendto\<close>: the datagram is recorded, the kernel's answer is the next of the stream.\<close>

definition sendto :: "io \<Rightarrow> world \<Rightarrow> int \<times> world" where
  "sendto e w = (shd (w_sends w), w\<lparr>w_sends := stl (w_sends w), w_out := w_out w @ [e]\<rparr>)"

text \<open>The macro of statistics.h, in the build with \<open>DDHCPD_STATISTICS\<close>.\<close>

definition statistics_record :: "stat \<Rightarrow> int \<Rightarrow> world \<Rightarrow> world" where
  "statistics_record t n w = w\<lparr>c_statistics := (c_statistics w)(t := c_statistics w t + n)\<rparr>"

definition ENOMEM :: int where
  "ENOMEM = 12"

subsection \<open>Blocks by position\<close>

definition get_block :: "nat \<Rightarrow> world \<Rightarrow> ddhcp_block option" where
  "get_block i w = nth_opt (c_blocks w) i"

definition put_block :: "nat \<Rightarrow> ddhcp_block \<Rightarrow> world \<Rightarrow> world" where
  "put_block i b w = w\<lparr>c_blocks := (c_blocks w)[i := b]\<rparr>"

abbreviation num_blocks :: "world \<Rightarrow> nat" where
  "num_blocks w \<equiv> unat (c_number_of_blocks w)"

subsection \<open>Frames\<close>

text \<open>
  \<open>same_blocks\<close> relates two states that differ only in the environment, the trace, the
  statistics and the packet cache; \<open>same_params\<close> relates two states with the same
  configuration parameters.
\<close>

definition same_params :: "world \<Rightarrow> world \<Rightarrow> bool" where
  "same_params w w' \<longleftrightarrow>
     c_node_id w' = c_node_id w \<and> c_number_of_blocks w' = c_number_of_blocks w \<and>
     c_block_timeout w' = c_block_timeout w \<and> c_block_refresh_factor w' = c_block_refresh_factor w \<and>
     c_block_needless_timeout w' = c_block_needless_timeout w \<and>
     c_tentative_timeout w' = c_tentative_timeout w \<and> c_block_size w' = c_block_size w \<and>
     c_spare_leases_needed w' = c_spare_leases_needed w \<and> c_prefix w' = c_prefix w \<and>
     c_prefix_len w' = c_prefix_len w \<and> c_disable_dhcp w' = c_disable_dhcp w \<and>
     c_hook_command w' = c_hook_command w \<and> w_little_endian w' = w_little_endian w"

lemma same_params_refl [simp, intro]: "same_params w w"
  by (simp add: same_params_def)

lemma same_params_trans: "same_params u v \<Longrightarrow> same_params v w \<Longrightarrow> same_params u w"
  by (simp add: same_params_def)

lemma get_block_Some [simp]: "i < length (c_blocks w) \<Longrightarrow> get_block i w = Some (c_blocks w ! i)"
  by (simp add: get_block_def)

lemma get_block_eq_Some: "get_block i w = Some b \<longleftrightarrow> i < length (c_blocks w) \<and> c_blocks w ! i = b"
  by (simp add: get_block_def nth_opt_eq_Some)

lemma c_blocks_put_block [simp]: "c_blocks (put_block i b w) = (c_blocks w)[i := b]"
  by (simp add: put_block_def)

subsection \<open>A reliable environment\<close>

text \<open>Memory and network do not fail from here on.\<close>

definition reliable :: "world \<Rightarrow> bool" where
  "reliable w \<longleftrightarrow> sset (w_allocs w) \<subseteq> {True} \<and> (\<forall>n \<in> sset (w_sends w). 0 < n)"

lemma reliable_now: "reliable w \<Longrightarrow> shd (w_allocs w)" "reliable w \<Longrightarrow> 0 < shd (w_sends w)"
  using shd_sset [of "w_allocs w"] shd_sset [of "w_sends w"] by (auto simp: reliable_def)

lemma reliable_later [simp]:
  "reliable w \<Longrightarrow> reliable (w\<lparr>w_allocs := stl (w_allocs w)\<rparr>)"
  "reliable w \<Longrightarrow> reliable (w\<lparr>w_sends := stl (w_sends w)\<rparr>)"
  "reliable (w\<lparr>w_times := ts\<rparr>) = reliable w" "reliable (w\<lparr>w_out := out\<rparr>) = reliable w"
  "reliable (statistics_record s n w) = reliable w" "reliable (put_block i b w) = reliable w"
  using stl_sset [of _ "w_allocs w"] stl_sset [of _ "w_sends w"]
  by (auto simp: reliable_def statistics_record_def put_block_def)

text \<open>A step that sends nothing and leaves a reliable environment reliable.\<close>

definition calm :: "world \<Rightarrow> world \<Rightarrow> bool" where
  "calm w w' \<longleftrightarrow> w_out w' = w_out w \<and> (reliable w \<longrightarrow> reliable w')"

lemma calm_refl [simp]: "calm w w"
  by (simp add: calm_def)

lemma calm_trans: "calm u v \<Longrightarrow> calm v w \<Longrightarrow> calm u w"
  by (simp add: calm_def)

lemma calm_update [simp]:
  "calm w (v\<lparr>w_times := ts\<rparr>) = calm w v" "calm w (v\<lparr>w_rands := rs\<rparr>) = calm w v"
  "calm w (put_block i b v) = calm w v" "calm w (v\<lparr>c_blocks := bs\<rparr>) = calm w v" "calm w (v\<lparr>c_claiming_blocks := cl\<rparr>) = calm w v"
  "calm w (v\<lparr>c_claiming_blocks_amount := n\<rparr>) = calm w v"
  "calm w (v\<lparr>c_needless_marks := m\<rparr>) = calm w v"
  by (simp_all add: calm_def reliable_def put_block_def)

lemma calm_alloc [simp]: "calm w (w\<lparr>w_allocs := stl (w_allocs w)\<rparr>)"
  by (simp add: calm_def)

lemma reliable_allocs: "reliable w \<Longrightarrow> shd (w_allocs w) \<and> shd (stl (w_allocs w)) \<and> shd (stl (stl (w_allocs w)))"
  by (metis (no_types, lifting) reliable_def singletonD shd_sset stl_sset subsetD)

end
