(* ===== verification/Tools.thy ===== *)
theory Tools
  imports Types
begin

text \<open>
  tools.c: address arithmetic and the printed form of a hardware address.
  \<open>addr_add\<close> takes the C \<open>int\<close> it adds as the \<open>in_addr_t\<close> it is cast to.
\<close>

definition addr_add :: "in_addr \<Rightarrow> u32 \<Rightarrow> in_addr" where
  "addr_add subnet add = (let addr = be32 subnet in let addr = addr + add in put32 addr)"

text \<open>\<open>printf\<close>'s \<open>%02X\<close>.\<close>

definition hex_digit :: "nat \<Rightarrow> char" where
  "hex_digit n = ''0123456789ABCDEF'' ! n"

definition hex2 :: "u8 \<Rightarrow> string" where
  "hex2 b = [hex_digit (unat b div 16), hex_digit (unat b mod 16)]"

text \<open>\<open>%u\<close>, \<open>%i\<close>, the end of a line and \<open>inet_ntoa\<close>.\<close>

fun dec :: "nat \<Rightarrow> string" where
  "dec n = (if n < 10 then [hex_digit n] else dec (n div 10) @ [hex_digit (n mod 10)])"

declare dec.simps [simp del]

definition dec_int :: "int \<Rightarrow> string" where
  "dec_int i = (if i < 0 then CHR ''-'' # dec (nat (- i)) else dec (nat i))"

definition newline :: string where "newline = [char_of (10 :: nat)]"

definition inet_ntoa :: "in_addr \<Rightarrow> string" where
  "inet_ntoa a = dec (unat (a ! 0)) @ ''.'' @ dec (unat (a ! 1)) @ ''.'' @ dec (unat (a ! 2)) @ ''.'' @ dec (unat (a ! 3))"

definition hwaddr2c :: "u8 list \<Rightarrow> string option" where
  "hwaddr2c hwaddr = do {
     h \<leftarrow> take_opt 6 hwaddr;
     Some (hex2 (h ! 0) @ '':'' @ hex2 (h ! 1) @ '':'' @ hex2 (h ! 2) @ '':''
       @ hex2 (h ! 3) @ '':'' @ hex2 (h ! 4) @ '':'' @ hex2 (h ! 5)) }"

lemma length_addr_add [simp]: "length (addr_add s n) = 4"
  by (simp add: addr_add_def Let_def)

lemma be32_addr_add [simp]: "be32 (addr_add s n) = be32 s + n"
  by (simp add: addr_add_def Let_def)

lemma addr_add_addr_add: "addr_add (addr_add s m) n = addr_add s (m + n)"
  by (simp add: addr_add_def Let_def add.assoc)

lemma addr_add_inj: "addr_add s m = addr_add s n \<longleftrightarrow> m = n"
proof
  assume "addr_add s m = addr_add s n"
  then have "be32 (addr_add s m) = be32 (addr_add s n)" by simp
  then show "m = n" by simp
qed simp

lemma be32_inj: "length a = 4 \<Longrightarrow> length b = 4 \<Longrightarrow> be32 a = be32 b \<longleftrightarrow> a = b"
  by (metis put32_be32)

text \<open>Every hardware address fits the 18 bytes \<open>hwaddr2c\<close> allocates, with the final NUL.\<close>

lemma hwaddr2c_length: "6 \<le> length a \<Longrightarrow> \<exists>s. hwaddr2c a = Some s \<and> length s = 17"
  by (simp add: hwaddr2c_def hex2_def)

end
