(* ===== verification/Options.thy ===== *)
theory Options
  imports Tools
begin

text \<open>
  dhcp_options.c: the option list of one DHCP message (an array with a length) and the
  option store of the daemon (a linked list with one entry per code).

  \<open>find_option\<close>, \<open>set_option\<close> and \<open>fill_options\<close> read arrays by index and are
  undefined past their end. The store's operations are total; the locale
  \<open>option_store\<close> states what they promise to \<open>dhcp_options_init\<close>, to the control
  socket and to the answers of the DHCP part.
\<close>

subsection \<open>Option codes\<close>

definition DHCP_CODE_PAD :: u8 where "DHCP_CODE_PAD = 0"
definition DHCP_CODE_SUBNET_MASK :: u8 where "DHCP_CODE_SUBNET_MASK = 1"
definition DHCP_CODE_TIME_OFFSET :: u8 where "DHCP_CODE_TIME_OFFSET = 2"
definition DHCP_CODE_BROADCAST_ADDRESS :: u8 where "DHCP_CODE_BROADCAST_ADDRESS = 28"
definition DHCP_CODE_REQUESTED_ADDRESS :: u8 where "DHCP_CODE_REQUESTED_ADDRESS = 50"
definition DHCP_CODE_ADDRESS_LEASE_TIME :: u8 where "DHCP_CODE_ADDRESS_LEASE_TIME = 51"
definition DHCP_CODE_MESSAGE_TYPE :: u8 where "DHCP_CODE_MESSAGE_TYPE = 53"
definition DHCP_CODE_SERVER_IDENTIFIER :: u8 where "DHCP_CODE_SERVER_IDENTIFIER = 54"
definition DHCP_CODE_PARAMETER_REQUEST_LIST :: u8 where "DHCP_CODE_PARAMETER_REQUEST_LIST = 55"
definition DHCP_CODE_END :: u8 where "DHCP_CODE_END = 255"

lemmas dhcp_codes =
  DHCP_CODE_PAD_def DHCP_CODE_SUBNET_MASK_def DHCP_CODE_TIME_OFFSET_def
  DHCP_CODE_BROADCAST_ADDRESS_def DHCP_CODE_REQUESTED_ADDRESS_def
  DHCP_CODE_ADDRESS_LEASE_TIME_def DHCP_CODE_MESSAGE_TYPE_def
  DHCP_CODE_SERVER_IDENTIFIER_def DHCP_CODE_PARAMETER_REQUEST_LIST_def DHCP_CODE_END_def

subsection \<open>Options of a message\<close>

text \<open>An option as \<open>calloc\<close> leaves it.\<close>

definition zero_option :: dhcp_option where
  "zero_option = \<lparr>o_code = 0, o_len = 0, o_payload = []\<rparr>"

definition find_option :: "dhcp_option list \<Rightarrow> u8 \<Rightarrow> u8 \<Rightarrow> dhcp_option option option" where
  "find_option options len code = do {
     r \<leftarrow> find_idx (\<lambda>opt. o_code opt = code) options [0..<unat len];
     Some (map_option (\<lambda>i. options ! i) r) }"

definition set_option ::
  "dhcp_option list \<Rightarrow> u8 \<Rightarrow> u8 \<Rightarrow> u8 \<Rightarrow> u8 list \<Rightarrow> (int \<times> dhcp_option list) option" where
  "set_option options len code payload_len payload = do {
     r \<leftarrow> find_idx (\<lambda>opt. o_code opt = code \<or> o_code opt = 0) options (rev [0..<unat len]);
     case r of
       Some i \<Rightarrow> Some (0, options[i := \<lparr>o_code = code, o_len = payload_len, o_payload = payload\<rparr>])
     | None \<Rightarrow> Some (1, options) }"

definition find_option_parameter_request_list ::
  "dhcp_option list \<Rightarrow> u8 \<Rightarrow> (int \<times> u8 list) option" where
  "find_option_parameter_request_list options len = do {
     r \<leftarrow> find_option options len DHCP_CODE_PARAMETER_REQUEST_LIST;
     Some (case r of Some opt \<Rightarrow> (uint (o_len opt), o_payload opt) | None \<Rightarrow> (0, [])) }"

definition find_option_requested_address ::
  "dhcp_option list \<Rightarrow> u8 \<Rightarrow> u8 list option option" where
  "find_option_requested_address options len = do {
     r \<leftarrow> find_option options len DHCP_CODE_REQUESTED_ADDRESS;
     Some (map_option o_payload r) }"

subsection \<open>The option store\<close>

fun find_in_option_store :: "dhcp_option list \<Rightarrow> u8 \<Rightarrow> dhcp_option option" where
  "find_in_option_store [] code = None"
| "find_in_option_store (opt # store) code =
     (if o_code opt = code then Some opt else find_in_option_store store code)"

definition has_in_option_store :: "dhcp_option list \<Rightarrow> u8 \<Rightarrow> bool" where
  "has_in_option_store store code \<longleftrightarrow> find_in_option_store store code \<noteq> None"

definition find_in_option_store_address_lease_time :: "dhcp_option list \<Rightarrow> u32 option" where
  "find_in_option_store_address_lease_time store =
     (case find_in_option_store store DHCP_CODE_ADDRESS_LEASE_TIME of
        Some opt \<Rightarrow>
          (if o_payload opt = [] \<or> o_len opt < 4 then Some 0
           else do { buf \<leftarrow> take_opt 4 (o_payload opt); Some (be32 buf) })
      | None \<Rightarrow> Some 0)"

text \<open>The first entry with the code is overwritten in place, a new code goes to the tail.\<close>

fun set_option_in_store :: "dhcp_option list \<Rightarrow> dhcp_option \<Rightarrow> dhcp_option list" where
  "set_option_in_store [] opt = [opt]"
| "set_option_in_store (current # store) opt =
     (if o_code current = o_code opt
      then current\<lparr>o_len := o_len opt, o_payload := o_payload opt\<rparr> # store
      else current # set_option_in_store store opt)"

fun remove_option_in_store :: "dhcp_option list \<Rightarrow> u8 \<Rightarrow> dhcp_option list" where
  "remove_option_in_store [] code = []"
| "remove_option_in_store (opt # store) code =
     (if o_code opt = code then store else opt # remove_option_in_store store code)"

text \<open>Every entry is taken off the list and freed.\<close>

fun free_option_store :: "dhcp_option list \<Rightarrow> dhcp_option list" where
  "free_option_store [] = []"
| "free_option_store (option # os) = free_option_store os"

definition set_option_from_store ::
  "dhcp_option list \<Rightarrow> dhcp_option list \<Rightarrow> u8 \<Rightarrow> u8 \<Rightarrow> (int \<times> dhcp_option list) option" where
  "set_option_from_store store options len code =
     (case find_in_option_store store code of
        None \<Rightarrow> Some (1, options)
      | Some opt \<Rightarrow> set_option options len code (o_len opt) (o_payload opt))"

text \<open>
  The answer to a parameter request list: the requested options the store has, in the
  order of the request, and \<open>additional\<close> empty slots behind them.
\<close>

definition fill_step ::
  "dhcp_option list \<Rightarrow> u8 list \<Rightarrow> nat \<Rightarrow> u8 \<times> dhcp_option list \<Rightarrow> (u8 \<times> dhcp_option list) option" where
  "fill_step store requested i = (\<lambda>(num_found, fullfil). do {
     code \<leftarrow> nth_opt requested i;
     case find_in_option_store store code of
       Some opt \<Rightarrow> do {
         fullfil \<leftarrow> upd_opt fullfil (unat num_found) opt;
         Some (num_found + 1, fullfil) }
     | None \<Rightarrow> Some (num_found, fullfil) })"

definition fill_options ::
  "dhcp_option list \<Rightarrow> u8 \<Rightarrow> dhcp_option list \<Rightarrow> u8 \<Rightarrow> world
    \<Rightarrow> ((int \<times> dhcp_option list) \<times> world) option" where
  "fill_options options len store additional w = do {
     (max_options, requested) \<leftarrow> find_option_parameter_request_list options len;
     let (mem, w) = calloc w;
     if \<not> mem then Some ((- ENOMEM, []), w)
     else do {
       let fullfil = replicate (nat (max_options + uint additional)) zero_option;
       if max_options = 0 then Some ((uint additional, fullfil), w)
       else do {
         (num_found, fullfil) \<leftarrow> foldM (fill_step store requested) [0..<nat max_options] (0, fullfil);
         Some ((uint num_found + uint additional, fullfil), w) } } }"

subsection \<open>The default store\<close>

text \<open>One paragraph of \<open>dhcp_options_init\<close>: a missing option is allocated and stored.\<close>

definition init_option :: "u8 \<Rightarrow> u8 list \<Rightarrow> world \<Rightarrow> int \<times> world" where
  "init_option code payload w =
     (if has_in_option_store (c_options w) code then (0, w)
      else let (mem, w) = calloc w in
        if \<not> mem then (- ENOMEM, w)
        else let (mem, w) = calloc w in
          if \<not> mem then (- ENOMEM, w)
          else (0, w\<lparr>c_options := set_option_in_store (c_options w)
                 \<lparr>o_code = code, o_len = 4, o_payload = payload\<rparr>\<rparr>))"

definition mask_octet :: "u8 \<Rightarrow> nat \<Rightarrow> u8" where
  "mask_octet prefix_len k =
     (let pl = sint prefix_len; n = sint (word_of_int (pl - int k) :: u8)
      in word_of_int (256 - 256 div 2 ^ nat (min (max n 0) 8)))"

definition broadcast_octet :: "u8 \<Rightarrow> nat \<Rightarrow> u8 \<Rightarrow> u8" where
  "broadcast_octet prefix_len k b =
     (let pl = sint prefix_len
      in or b (word_of_int (2 ^ nat (min (max (int k - pl) 0) 8) - 1)))"

definition default_options :: "u8 \<Rightarrow> in_addr \<Rightarrow> (u8 \<times> u8 list) list" where
  "default_options pl prefix =
     [(DHCP_CODE_SUBNET_MASK, map (mask_octet pl) [0, 8, 16, 24]),
      (DHCP_CODE_TIME_OFFSET, [0, 0, 0, 0]),
      (DHCP_CODE_BROADCAST_ADDRESS, map2 (broadcast_octet pl) [8, 16, 24, 32] prefix),
      (DHCP_CODE_ADDRESS_LEASE_TIME, [0x00, 0x00, 0x01, 0x2c]),
      (DHCP_CODE_SERVER_IDENTIFIER, prefix[3 := 1])]"

text \<open>The five paragraphs in their order; a failed one returns.\<close>

definition init_step :: "u8 \<times> u8 list \<Rightarrow> int \<times> world \<Rightarrow> int \<times> world" where
  "init_step = (\<lambda>(code, payload) (r, w). if r \<noteq> 0 then (r, w) else init_option code payload w)"

definition dhcp_options_init :: "world \<Rightarrow> (int \<times> world) option" where
  "dhcp_options_init w = do {
     prefix \<leftarrow> take_opt 4 (c_prefix w);
     Some (fold init_step (default_options (c_prefix_len w) prefix) (0, w)) }"

subsection \<open>What the store promises\<close>

locale option_store =
  fixes lookup :: "'s \<Rightarrow> u8 \<Rightarrow> dhcp_option option"
    and store :: "'s \<Rightarrow> dhcp_option \<Rightarrow> 's"
    and delete :: "'s \<Rightarrow> u8 \<Rightarrow> 's"
    and valid :: "'s \<Rightarrow> bool"
  assumes lookup_store: "lookup (store s x) c = (if c = o_code x then Some x else lookup s c)"
    and lookup_delete: "valid s \<Longrightarrow> lookup (delete s c) c' = (if c' = c then None else lookup s c')"
    and valid_store: "valid s \<Longrightarrow> valid (store s x)"
    and valid_delete: "valid s \<Longrightarrow> valid (delete s c)"
    and lookup_code: "lookup s c = Some x \<Longrightarrow> o_code x = c"
begin

lemma lookup_fold_store:
  "lookup (fold (\<lambda>x s. store s x) xs s) c =
    (case find (\<lambda>x. o_code x = c) (rev xs) of Some x \<Rightarrow> Some x | None \<Rightarrow> lookup s c)"
proof (induction xs arbitrary: s)
  case Nil
  then show ?case by simp
next
  case (Cons x xs)
  show ?case
    unfolding fold_simps Cons.IH rev.simps find_app lookup_store
    by (auto split: option.splits)
qed

lemma valid_fold_store: "valid s \<Longrightarrow> valid (fold (\<lambda>x s. store s x) xs s)"
  by (induction xs arbitrary: s) (simp_all add: valid_store)

text \<open>Storing an option only where its code is missing keeps every earlier entry.\<close>

lemma lookup_store_missing:
  assumes "lookup s (o_code x) = None" and "lookup s c = Some y"
  shows "lookup (store s x) c = Some y"
  using assms by (auto simp: lookup_store)

end

definition valid_codes :: "dhcp_option list \<Rightarrow> bool" where
  "valid_codes s \<longleftrightarrow> distinct (map o_code s)"

definition wf_option :: "dhcp_option \<Rightarrow> bool" where
  "wf_option x \<longleftrightarrow> length (o_payload x) = unat (o_len x)"

definition wf_store :: "dhcp_option list \<Rightarrow> bool" where
  "wf_store s \<longleftrightarrow> valid_codes s \<and> (\<forall>x \<in> set s. wf_option x)"

lemma find_in_option_store_set: "find_in_option_store s c = Some x \<Longrightarrow> x \<in> set s \<and> o_code x = c"
  by (induction s) (auto split: if_splits)

lemma find_in_option_store_None: "find_in_option_store s c = None \<longleftrightarrow> c \<notin> o_code ` set s"
  by (induction s) auto

lemma codes_set_option_in_store:
  "o_code ` set (set_option_in_store s x) = insert (o_code x) (o_code ` set s)"
  by (induction s) auto

lemma codes_remove_option_in_store: "o_code ` set (remove_option_in_store s c) \<subseteq> o_code ` set s"
  by (induction s) auto

interpretation st: option_store find_in_option_store set_option_in_store remove_option_in_store valid_codes
proof
  fix s c c' and x y :: dhcp_option
  show "find_in_option_store (set_option_in_store s x) c
    = (if c = o_code x then Some x else find_in_option_store s c)"
    by (induction s) auto
  show "valid_codes s \<Longrightarrow> valid_codes (set_option_in_store s x)"
    using codes_set_option_in_store [of _ x]
    by (induction s) (auto simp: valid_codes_def)
  show "valid_codes s \<Longrightarrow> valid_codes (remove_option_in_store s c)"
    using codes_remove_option_in_store [of _ c]
    by (induction s) (auto simp: valid_codes_def)
  show "find_in_option_store s c = Some y \<Longrightarrow> o_code y = c"
    by (simp add: find_in_option_store_set)
  show "find_in_option_store (remove_option_in_store s c) c'
    = (if c' = c then None else find_in_option_store s c')" if "valid_codes s"
    using that by (induction s) (auto simp: valid_codes_def find_in_option_store_None)
qed

lemma wf_set_option_in_store: "wf_store s \<Longrightarrow> wf_option x \<Longrightarrow> wf_store (set_option_in_store s x)"
proof -
  assume "wf_store s" "wf_option x"
  moreover have "set (set_option_in_store s x) \<subseteq> set s \<union> {y. o_len y = o_len x \<and> o_payload y = o_payload x}"
    by (induction s) auto
  ultimately show ?thesis
    by (auto simp: wf_store_def wf_option_def st.valid_store subset_iff)
qed

lemma wf_remove_option_in_store: "wf_store s \<Longrightarrow> wf_store (remove_option_in_store s c)"
proof -
  have "set (remove_option_in_store s c) \<subseteq> set s" by (induction s) auto
  then show "wf_store s \<Longrightarrow> ?thesis" by (auto simp: wf_store_def st.valid_delete)
qed

lemma wf_store_find: "wf_store s \<Longrightarrow> find_in_option_store s c = Some x \<Longrightarrow> wf_option x \<and> o_code x = c"
  by (auto simp: wf_store_def dest: find_in_option_store_set)

text \<open>The lease time of a well-formed store is always readable.\<close>

lemma lease_time_ok: "wf_store s \<Longrightarrow> \<exists>t. find_in_option_store_address_lease_time s = Some t"
proof -
  assume wf: "wf_store s"
  have "4 \<le> length (o_payload x)" if "find_in_option_store s c = Some x" "\<not> o_len x < 4" for c x
    using wf_store_find [OF wf that(1)] that(2) by (simp add: wf_option_def word_less_nat_alt)
  then show ?thesis
    by (auto simp: find_in_option_store_address_lease_time_def split: option.splits)
qed

subsection \<open>Options of a message\<close>

definition wf_options :: "dhcp_option list \<Rightarrow> u8 \<Rightarrow> bool" where
  "wf_options options len \<longleftrightarrow> unat len \<le> length options"

lemma find_option_eq:
  "wf_options options len \<Longrightarrow>
    find_option options len code = Some (find (\<lambda>x. o_code x = code) (take (unat len) options))"
  by (simp add: find_option_def find_idx_find wf_options_def find_idx_take [where P = "\<lambda>x. o_code x = code"])

lemma set_option_ok:
  assumes "wf_options options len"
  shows "ok (set_option options len code pl payload)
    (\<lambda>(r, opts). length opts = length options \<and> wf_options opts len)"
  using assms
  by (auto simp: set_option_def find_idx_find wf_options_def split: option.splits)

text \<open>The last empty slot is taken first.\<close>

lemma set_option_last:
  assumes "unat len = length xs + 1" and "o_code z = 0 \<or> o_code z = code"
  shows "set_option (xs @ z # ys) len code pl payload
    = Some (0, xs @ \<lparr>o_code = code, o_len = pl, o_payload = payload\<rparr> # ys)"
  using assms by (auto simp: set_option_def list_update_append split: option.splits)

subsection \<open>Answers to a parameter request list\<close>

text \<open>The specification: the entries of the store for the requested codes.\<close>

definition requested_options :: "dhcp_option list \<Rightarrow> u8 list \<Rightarrow> dhcp_option list" where
  "requested_options store codes = List.map_filter (find_in_option_store store) codes"

lemma requested_options_snoc:
  "requested_options store (codes @ [c]) = requested_options store codes
    @ (case find_in_option_store store c of None \<Rightarrow> [] | Some x \<Rightarrow> [x])"
  by (simp add: requested_options_def map_filter_def split: option.splits)

lemma length_requested_options: "length (requested_options store codes) \<le> length codes"
  by (simp add: requested_options_def map_filter_def)

text \<open>The state of the loop after \<open>i\<close> requested codes.\<close>

definition fill_inv :: "dhcp_option list \<Rightarrow> u8 list \<Rightarrow> nat \<Rightarrow> nat \<Rightarrow> u8 \<times> dhcp_option list \<Rightarrow> bool" where
  "fill_inv store requested slots i s \<longleftrightarrow>
     (let found = requested_options store (take i requested)
      in s = (of_nat (length found), found @ replicate (slots - length found) zero_option))"

lemma fill_step_inv:
  assumes "i < n" "n \<le> length requested" "n \<le> slots" "n < 256"
    and inv: "fill_inv store requested slots i s"
  shows "ok (fill_step store requested i s) (fill_inv store requested slots (Suc i))"
proof -
  let ?f = "requested_options store (take i requested)"
  have le: "length ?f \<le> i"
    using length_requested_options [of store "take i requested"] assms by simp
  have s: "s = (of_nat (length ?f), ?f @ replicate (slots - length ?f) zero_option)"
    using inv by (simp add: fill_inv_def Let_def)
  have u: "unat (of_nat (length ?f) :: u8) = length ?f"
    using le assms by (simp add: unat_of_nat)
  have t: "take (Suc i) requested = take i requested @ [requested ! i]"
    using assms by (simp add: take_Suc_conv_app_nth)
  have r: "replicate (slots - length ?f) zero_option
      = zero_option # replicate (slots - Suc (length ?f)) zero_option"
    using le assms by (metis Suc_diff_Suc le_trans linorder_not_le not_less_eq_eq replicate_Suc)
  show ?thesis
    using assms le
    by (auto simp: fill_step_def s u t fill_inv_def requested_options_snoc Let_def r
        list_update_append add.commute split: option.splits)
qed

lemma fill_options_found:
  assumes opt: "find_option options len DHCP_CODE_PARAMETER_REQUEST_LIST = Some (Some req)"
    and readable: "unat (o_len req) \<le> length (o_payload req)"
    and mem: "shd (w_allocs w)"
  shows "fill_options options len store additional w =
    (let found = requested_options store (take (unat (o_len req)) (o_payload req))
     in Some ((int (length found) + uint additional,
           found @ replicate (unat (o_len req) + unat additional - length found) zero_option),
         w\<lparr>w_allocs := stl (w_allocs w)\<rparr>))"
proof -
  define n where "n = unat (o_len req)"
  define found where "found = requested_options store (take n (o_payload req))"
  let ?slots = "n + unat additional"
  have n: "n < 256" by (simp add: n_def unat_u8_less)
  have "length found \<le> n"
    using length_requested_options [of store "take n (o_payload req)"] by (simp add: found_def)
  then have u: "uint (of_nat (length found) :: u8) = int (length found)"
    using n by (simp add: unsigned_of_nat take_bit_nat_eq_self)
  have loop: "foldM (fill_step store (o_payload req)) [0..<n] (0, replicate ?slots zero_option)
      = Some (of_nat (length found), found @ replicate (?slots - length found) zero_option)"
  proof -
    have "ok (foldM (fill_step store (o_payload req)) [0..<n] (0, replicate ?slots zero_option))
        (fill_inv store (o_payload req) ?slots n)"
    proof (rule foldM_upt_ok [where I = "fill_inv store (o_payload req) ?slots"])
      show "fill_inv store (o_payload req) ?slots 0 (0, replicate ?slots zero_option)"
        by (simp add: fill_inv_def requested_options_def map_filter_def)
      show "ok (fill_step store (o_payload req) i s) (fill_inv store (o_payload req) ?slots (Suc i))"
        if "i < n" "fill_inv store (o_payload req) ?slots i s" for i s
        using that readable n by (intro fill_step_inv [of i n]) (simp_all add: n_def)
    qed
    then show ?thesis by (auto simp: ok_iff fill_inv_def found_def Let_def)
  qed
  have slots: "nat (uint (o_len req) + uint additional) = ?slots"
    by (simp add: n_def nat_add_distrib)
  show ?thesis
    using mem loop slots n_def u
    by (auto simp: fill_options_def find_option_parameter_request_list_def opt calloc_def Let_def
        found_def requested_options_def map_filter_def)
qed

lemma fill_options_none:
  assumes "find_option options len DHCP_CODE_PARAMETER_REQUEST_LIST = Some None"
    and "shd (w_allocs w)"
  shows "fill_options options len store additional w =
    Some ((uint additional, replicate (unat additional) zero_option), w\<lparr>w_allocs := stl (w_allocs w)\<rparr>)"
  using assms
  by (simp add: fill_options_def find_option_parameter_request_list_def calloc_def)

subsection \<open>The default store\<close>

lemma init_option_cases:
  obtains (present) "has_in_option_store (c_options w) code" "init_option code payload w = (0, w)"
  | (failed) as where "\<not> has_in_option_store (c_options w) code"
      "init_option code payload w = (- ENOMEM, w\<lparr>w_allocs := as\<rparr>)"
      "\<not> shd (w_allocs w) \<or> \<not> shd (stl (w_allocs w))"
  | (stored) "\<not> has_in_option_store (c_options w) code"
      "init_option code payload w = (0, w\<lparr>w_allocs := stl (stl (w_allocs w)),
         c_options := set_option_in_store (c_options w)
           \<lparr>o_code = code, o_len = 4, o_payload = payload\<rparr>\<rparr>)"
proof (cases "has_in_option_store (c_options w) code")
  case True
  then show thesis by (intro present) (simp_all add: init_option_def)
next
  case missing: False
  consider "\<not> shd (w_allocs w)" | "shd (w_allocs w)" "\<not> shd (stl (w_allocs w))"
    | "shd (w_allocs w)" "shd (stl (w_allocs w))" by blast
  then show thesis
  proof cases
    case 1
    with missing show thesis by (intro failed) (simp_all add: init_option_def calloc_def)
  next
    case 2
    with missing show thesis by (intro failed) (simp_all add: init_option_def calloc_def)
  next
    case 3
    with missing show thesis by (intro stored) (simp_all add: init_option_def calloc_def)
  qed
qed

lemma init_step_simps [simp]:
  "init_step d (0, w) = init_option (fst d) (snd d) w"
  "r \<noteq> 0 \<Longrightarrow> init_step d (r, w) = (r, w)"
  by (simp_all add: init_step_def split: prod.splits)

lemma fold_init_step_error: "r \<noteq> 0 \<Longrightarrow> fold init_step ds (r, w) = (r, w)"
  by (induction ds) simp_all

lemma fold_init_step:
  assumes "fold init_step ds (0, w) = (r, w')" and "\<forall>(c, p) \<in> set ds. length p = 4"
  shows "(wf_store (c_options w) \<longrightarrow> wf_store (c_options w')) \<and>
    (\<forall>c x. find_in_option_store (c_options w) c = Some x \<longrightarrow>
      find_in_option_store (c_options w') c = Some x) \<and>
    (r = 0 \<or> r = - ENOMEM)"
  using assms
proof (induction ds arbitrary: w)
  case Nil
  then show ?case by auto
next
  case (Cons d ds)
  obtain c p where d: "d = (c, p)" by (cases d)
  have len: "length p = 4" using Cons.prems(2) d by auto
  show ?case
  proof (cases rule: init_option_cases [of w c p])
    case present
    then show ?thesis using Cons.IH [of w] Cons.prems d by auto
  next
    case (failed as)
    then show ?thesis
      using Cons.prems d by (auto simp: fold_init_step_error ENOMEM_def)
  next
    case stored
    let ?x = "\<lparr>o_code = c, o_len = 4, o_payload = p\<rparr>"
    let ?w = "w\<lparr>w_allocs := stl (stl (w_allocs w)), c_options := set_option_in_store (c_options w) ?x\<rparr>"
    have "wf_store (c_options w) \<Longrightarrow> wf_store (c_options ?w)"
      using len by (simp add: wf_set_option_in_store wf_option_def)
    moreover have "find_in_option_store (c_options ?w) c' = Some y"
      if "find_in_option_store (c_options w) c' = Some y" for c' y
      using that stored by (simp add: st.lookup_store_missing has_in_option_store_def)
    moreover have "fold init_step ds (0, ?w) = (r, w')"
      using Cons.prems d stored by simp
    ultimately show ?thesis using Cons.IH [of ?w] Cons.prems(2) by auto
  qed
qed

text \<open>A completed run has every default code, as it was or as its default.\<close>

lemma fold_init_step_done:
  assumes "fold init_step ds (0, w) = (0, w')" and "\<forall>(c, p) \<in> set ds. length p = 4"
    and "distinct (map fst ds)" and "(c, p) \<in> set ds"
  shows "find_in_option_store (c_options w') c =
    (case find_in_option_store (c_options w) c of
       Some x \<Rightarrow> Some x | None \<Rightarrow> Some \<lparr>o_code = c, o_len = 4, o_payload = p\<rparr>)"
  using assms
proof (induction ds arbitrary: w)
  case Nil
  then show ?case by simp
next
  case (Cons d ds)
  obtain w1 where w1: "init_option (fst d) (snd d) w = (0, w1)" "fold init_step ds (0, w1) = (0, w')"
  proof (cases "init_option (fst d) (snd d) w")
    case (Pair r w1)
    then have "fold init_step ds (r, w1) = (0, w')" using Cons.prems(1) by simp
    moreover from this have "r = 0" by (cases "r = 0") (simp_all add: fold_init_step_error)
    ultimately show thesis using that Pair by simp
  qed
  have keep: "find_in_option_store (c_options w1) k = Some x \<Longrightarrow>
      find_in_option_store (c_options w') k = Some x" for k x
    using fold_init_step [OF w1(2)] Cons.prems(2) by auto
  show ?case
  proof (cases "d = (c, p)")
    case True
    show ?thesis
      using w1(1) True keep
      by (cases rule: init_option_cases [of w c p])
        (auto simp: has_in_option_store_def st.lookup_store ENOMEM_def split: option.splits)
  next
    case False
    then have "c \<noteq> fst d" and in_ds: "(c, p) \<in> set ds" using Cons.prems by (auto simp: image_iff)
    then have "find_in_option_store (c_options w1) c = find_in_option_store (c_options w) c"
      using w1(1)
      by (cases rule: init_option_cases [of w "fst d" "snd d"]) (auto simp: st.lookup_store ENOMEM_def)
    then show ?thesis using Cons.IH [OF w1(2)] Cons.prems in_ds by auto
  qed
qed

lemma default_options_lengths:
  "length prefix = 4 \<Longrightarrow> \<forall>(c, p) \<in> set (default_options pl prefix). length p = 4"
  by (simp add: default_options_def)

lemma default_options_distinct: "distinct (map fst (default_options pl prefix))"
  by (simp add: default_options_def dhcp_codes)

text \<open>The octets of the netmask and of the host part, for every prefix length of IPv4.\<close>

lemma upto_32_cases:
  assumes "\<forall>n \<in> set [0..<33]. P (of_nat n :: u8)" and "unat (pl :: u8) \<le> 32"
  shows "P pl"
proof -
  have "unat pl \<in> set [0..<33]" using assms(2) by simp
  with assms(1) have "P (of_nat (unat pl))" by (rule bspec)
  moreover have "(of_nat (unat pl) :: u8) = pl" by (rule word_unat_eq_iff [THEN iffD2]) (simp add: unat_of_nat)
  ultimately show ?thesis by (simp only:)
qed

lemma mask_octets: "unat pl \<le> 32 \<Longrightarrow> be32 (map (mask_octet pl) [0, 8, 16, 24]) = not (mask (32 - unat pl))"
proof (rule upto_32_cases)
  show "\<forall>n\<in>set [0..<33]. be32 (map (mask_octet (of_nat n)) [0, 8, 16, 24])
      = not (mask (32 - unat (of_nat n :: u8)))"
    by code_simp
qed

lemma host_octets:
  "unat pl \<le> 32 \<Longrightarrow> be32 (map (\<lambda>k. broadcast_octet pl k 0) [8, 16, 24, 32]) = mask (32 - unat pl)"
proof (rule upto_32_cases)
  show "\<forall>n\<in>set [0..<33]. be32 (map (\<lambda>k. broadcast_octet (of_nat n) k 0) [8, 16, 24, 32])
      = mask (32 - unat (of_nat n :: u8))"
    by code_simp
qed

end
