(* ===== verification/State.thy ===== *)
theory State
  imports Options
begin

text \<open>
  The well-formedness invariant \<open>wf_state\<close> of the daemon's state, and its stability under the
  elementary updates.

  A block knows its position, its size and its first address; it holds a lease array of
  \<open>block_size\<close> entries or none; an owned block always has one, a free block never has.
  The list of blocks being claimed names existing blocks without repetition and its length
  is the counter \<open>claiming_blocks_amount\<close>. The option store has one entry per code.
\<close>

definition zero_chaddr :: "u8 list" where
  "zero_chaddr = replicate 16 0"

definition zero_node_id :: node_id where
  "zero_node_id = replicate 8 0"

definition wf_lease :: "dhcp_lease \<Rightarrow> bool" where
  "wf_lease l \<longleftrightarrow> length (l_chaddr l) = 16 \<and>
     (l_state l = FREE \<longrightarrow> l_chaddr l = zero_chaddr \<and> l_xid l = 0)"

text \<open>The leases behind a block's pointer; NULL has none to read.\<close>

definition block_leases :: "ddhcp_block \<Rightarrow> dhcp_lease list" where
  "block_leases b = (case b_addresses b of None \<Rightarrow> [] | Some ls \<Rightarrow> ls)"

definition block_subnet :: "world \<Rightarrow> nat \<Rightarrow> in_addr" where
  "block_subnet w i = addr_add (c_prefix w) (of_nat i * ucast (c_block_size w))"

fun wf_addresses :: "u8 \<Rightarrow> block_state \<Rightarrow> dhcp_lease list option \<Rightarrow> bool" where
  "wf_addresses n st None \<longleftrightarrow> st \<noteq> DDHCP_OURS"
| "wf_addresses n st (Some ls) \<longleftrightarrow>
     st \<noteq> DDHCP_FREE \<and> length ls = unat n \<and> (\<forall>l \<in> set ls. wf_lease l)"

definition wf_block :: "world \<Rightarrow> nat \<Rightarrow> ddhcp_block \<Rightarrow> bool" where
  "wf_block w i b \<longleftrightarrow>
     b_index b = of_nat i \<and> b_subnet_len b = c_block_size w \<and> b_subnet b = block_subnet w i \<and>
     length (b_node_id b) = 8 \<and> length (b_owner_address b) = 16 \<and>
     wf_addresses (c_block_size w) (b_state b) (b_addresses b) \<and>
     (b_state b = DDHCP_OURS \<longrightarrow> b_node_id b = c_node_id w) \<and>
     (b_state b = DDHCP_FREE \<longrightarrow> b_node_id b = zero_node_id) \<and>
     b_state b \<noteq> DDHCP_BLOCKED"

definition wf_params :: "world \<Rightarrow> bool" where
  "wf_params w \<longleftrightarrow>
     length (c_node_id w) = 8 \<and> length (c_prefix w) = 4 \<and> 0 < c_block_size w \<and>
     0 < c_block_refresh_factor w \<and> num_blocks w * unat (c_block_size w) \<le> 2 ^ 32"

definition wf_claiming :: "world \<Rightarrow> bool" where
  "wf_claiming w \<longleftrightarrow>
     distinct (c_claiming_blocks w) \<and> (\<forall>i \<in> set (c_claiming_blocks w). i < num_blocks w) \<and>
     length (c_claiming_blocks w) \<le> 255 \<and>
     c_claiming_blocks_amount w = of_nat (length (c_claiming_blocks w))"

definition wf_blocks :: "world \<Rightarrow> bool" where
  "wf_blocks w \<longleftrightarrow> length (c_blocks w) = num_blocks w \<and>
     (\<forall>i < num_blocks w. wf_block w i (c_blocks w ! i))"

definition wf_state :: "world \<Rightarrow> bool" where
  "wf_state w \<longleftrightarrow> wf_params w \<and> wf_blocks w \<and> wf_claiming w \<and> wf_store (c_options w)"

subsection \<open>Leases by position\<close>

definition get_lease :: "nat \<Rightarrow> nat \<Rightarrow> world \<Rightarrow> dhcp_lease option" where
  "get_lease i j w = do { b \<leftarrow> get_block i w; nth_opt (block_leases b) j }"

definition put_lease :: "nat \<Rightarrow> nat \<Rightarrow> dhcp_lease \<Rightarrow> world \<Rightarrow> world option" where
  "put_lease i j l w = do {
     b \<leftarrow> get_block i w;
     ls \<leftarrow> upd_opt (block_leases b) j l;
     Some (put_block i (b\<lparr>b_addresses := Some ls\<rparr>) w) }"

subsection \<open>Stability\<close>

text \<open>
  \<open>wf_block\<close> depends on the configuration parameters only, and \<open>wf_state\<close> not at all on the
  environment, the trace, the statistics and the packet cache.
\<close>

lemma wf_block_cong:
  "same_params w w' \<Longrightarrow> wf_block w' i b = wf_block w i b"
  by (simp add: same_params_def wf_block_def block_subnet_def)

lemma wf_params_cong: "same_params w w' \<Longrightarrow> wf_params w' = wf_params w"
  by (simp add: same_params_def wf_params_def)

lemma same_params_update [simp]:
  "same_params w (w\<lparr>c_blocks := bs\<rparr>)"
  "same_params w (w\<lparr>c_claiming_blocks := cl\<rparr>)"
  "same_params w (w\<lparr>c_claiming_blocks_amount := n\<rparr>)"
  "same_params w (w\<lparr>c_needless_marks := m\<rparr>)"
  "same_params w (w\<lparr>c_dhcp_packet_cache := pc\<rparr>)"
  "same_params w (w\<lparr>c_options := os\<rparr>)"
  "same_params w (w\<lparr>c_statistics := st\<rparr>)"
  "same_params w (w\<lparr>w_times := ts\<rparr>)"
  "same_params w (w\<lparr>w_rands := rs\<rparr>)"
  "same_params w (w\<lparr>w_allocs := al\<rparr>)"
  "same_params w (w\<lparr>w_sends := sn\<rparr>)"
  "same_params w (w\<lparr>w_out := out\<rparr>)"
  by (simp_all add: same_params_def)

lemma same_params_put_block [simp]: "same_params w (put_block i b w)"
  by (simp add: put_block_def)

lemma inv_cong:
  assumes "same_params w w'" "c_blocks w' = c_blocks w" "c_claiming_blocks w' = c_claiming_blocks w"
    "c_claiming_blocks_amount w' = c_claiming_blocks_amount w" "c_options w' = c_options w"
  shows "wf_state w' = wf_state w"
proof -
  have "num_blocks w' = num_blocks w" using assms(1) by (simp add: same_params_def)
  with assms show ?thesis
    by (simp add: wf_state_def wf_blocks_def wf_claiming_def wf_block_cong wf_params_cong)
qed

lemma inv_env [simp]:
  "wf_state (w\<lparr>c_needless_marks := m\<rparr>) = wf_state w"
  "wf_state (w\<lparr>c_dhcp_packet_cache := pc\<rparr>) = wf_state w"
  "wf_state (w\<lparr>c_statistics := st\<rparr>) = wf_state w"
  "wf_state (w\<lparr>w_times := ts\<rparr>) = wf_state w"
  "wf_state (w\<lparr>w_rands := rs\<rparr>) = wf_state w"
  "wf_state (w\<lparr>w_allocs := al\<rparr>) = wf_state w"
  "wf_state (w\<lparr>w_sends := sn\<rparr>) = wf_state w"
  "wf_state (w\<lparr>w_out := out\<rparr>) = wf_state w"
  by (rule inv_cong; simp)+

lemma inv_options: "wf_state w \<Longrightarrow> wf_store os \<Longrightarrow> wf_state (w\<lparr>c_options := os\<rparr>)"
  by (simp add: wf_state_def wf_blocks_def wf_claiming_def wf_params_def wf_block_def block_subnet_def)

lemma inv_length: "wf_state w \<Longrightarrow> length (c_blocks w) = num_blocks w"
  by (simp add: wf_state_def wf_blocks_def)

lemma inv_block: "wf_state w \<Longrightarrow> i < num_blocks w \<Longrightarrow> wf_block w i (c_blocks w ! i)"
  by (simp add: wf_state_def wf_blocks_def)

lemma inv_get_block:
  "wf_state w \<Longrightarrow> i < num_blocks w \<Longrightarrow> get_block i w = Some (c_blocks w ! i)"
  by (simp add: inv_length)

lemma inv_put_block:
  assumes wf_state: "wf_state w" and b: "i < num_blocks w \<Longrightarrow> wf_block w i b"
  shows "wf_state (put_block i b w)"
proof -
  have "wf_block w k ((c_blocks w)[i := b] ! k)" if "k < num_blocks w" for k
    using b inv_block [OF wf_state that] inv_length [OF wf_state] that by (cases "k = i") simp_all
  with wf_state show ?thesis
    by (simp add: wf_state_def wf_blocks_def wf_claiming_def wf_params_def put_block_def
        wf_block_cong [OF same_params_update(1)])
qed

lemma wf_block_leases:
  assumes "wf_block w i b" and "b_addresses b \<noteq> None"
  shows "length (block_leases b) = unat (c_block_size w) \<and> (\<forall>l \<in> set (block_leases b). wf_lease l)"
  using assms by (auto simp: wf_block_def block_leases_def split: option.splits)

lemma wf_block_ours: "wf_block w i b \<Longrightarrow> b_state b = DDHCP_OURS \<Longrightarrow> b_addresses b \<noteq> None"
  by (cases "b_addresses b") (auto simp: wf_block_def)

lemma wf_block_set_leases:
  assumes "wf_block w i b" "b_addresses b \<noteq> None" "length ls = length (block_leases b)"
    "\<forall>l \<in> set ls. wf_lease l"
  shows "wf_block w i (b\<lparr>b_addresses := Some ls\<rparr>)"
  using assms wf_block_leases [of w i b] by (auto simp: wf_block_def)

lemma put_lease_ok:
  assumes "wf_state w" "i < num_blocks w" "b_addresses (c_blocks w ! i) \<noteq> None"
    "j < unat (c_block_size w)" "wf_lease l"
  shows "ok (put_lease i j l w) wf_state"
proof -
  let ?b = "c_blocks w ! i"
  have wf: "wf_block w i ?b" using assms(1,2) by (rule inv_block)
  then have ls: "length (block_leases ?b) = unat (c_block_size w)" "\<forall>l \<in> set (block_leases ?b). wf_lease l"
    using wf_block_leases assms(3) by auto
  have "wf_block w i (?b\<lparr>b_addresses := Some ((block_leases ?b)[j := l])\<rparr>)"
    using wf assms(3) ls assms(5)
    by (intro wf_block_set_leases) (auto dest: set_update_subset_insert [THEN subsetD])
  then show ?thesis
    using assms ls by (simp add: put_lease_def inv_length inv_put_block)
qed

end
