(* ===== verification/Lease.thy ===== *)
theory Lease
  imports State
begin

text \<open>
  The part of dhcp.c that walks the lease array of one block and the map from addresses to
  leases: \<open>dhcp_has_free\<close>, \<open>dhcp_num_free\<close>, \<open>dhcp_num_offered\<close>,
  \<open>dhcp_get_free_lease\<close>, \<open>dhcp_check_timeouts\<close> and \<open>find_lease_from_address\<close>.
  A NULL lease array makes every access undefined.
\<close>

subsection \<open>Scans of one block\<close>

definition dhcp_has_free :: "ddhcp_block \<Rightarrow> int option" where
  "dhcp_has_free b = do {
     r \<leftarrow> find_idx (\<lambda>l. l_state l = FREE) (block_leases b) [0..<unat (b_subnet_len b)];
     Some (case r of Some i \<Rightarrow> 1 | None \<Rightarrow> 0) }"

definition dhcp_num_free :: "ddhcp_block \<Rightarrow> u32 option" where
  "dhcp_num_free b = foldM
     (\<lambda>i num. do { l \<leftarrow> nth_opt (block_leases b) i; Some (if l_state l = FREE then num + 1 else num) })
     [0..<unat (b_subnet_len b)] 0"

definition dhcp_num_offered :: "ddhcp_block \<Rightarrow> u32 option" where
  "dhcp_num_offered b = foldM
     (\<lambda>i num. do { l \<leftarrow> nth_opt (block_leases b) i; Some (if l_state l = OFFERED then num + 1 else num) })
     [0..<unat (b_subnet_len b)] 0"

definition dhcp_get_free_lease :: "ddhcp_block \<Rightarrow> u32 option" where
  "dhcp_get_free_lease b = do {
     r \<leftarrow> find_idx (\<lambda>l. l_state l = FREE) (block_leases b) [0..<unat (b_subnet_len b)];
     Some (case r of Some i \<Rightarrow> of_nat i | None \<Rightarrow> ucast (b_subnet_len b)) }"

subsection \<open>Releasing and expiring leases\<close>

definition release_lease :: "dhcp_lease \<Rightarrow> dhcp_lease" where
  "release_lease l = l\<lparr>l_chaddr := zero_chaddr, l_xid := 0, l_state := FREE\<rparr>"

text \<open>The static function \<open>_dhcp_release_lease\<close>.\<close>

definition dhcp_release_lease_static :: "nat \<Rightarrow> nat \<Rightarrow> world \<Rightarrow> world option" where
  "dhcp_release_lease_static i j w = do {
     l \<leftarrow> get_lease i j w;
     put_lease i j (release_lease l) w }"

definition check_timeouts_step :: "int \<Rightarrow> nat \<Rightarrow> nat \<Rightarrow> int \<times> world \<Rightarrow> (int \<times> world) option" where
  "check_timeouts_step now i j = (\<lambda>(free_leases, w). do {
     l \<leftarrow> get_lease i j w;
     w \<leftarrow> (if l_state l \<noteq> FREE \<and> l_lease_end l < now then dhcp_release_lease_static i j w else Some w);
     l \<leftarrow> get_lease i j w;
     Some (if l_state l = FREE then free_leases + 1 else free_leases, w) })"

definition dhcp_check_timeouts :: "nat \<Rightarrow> world \<Rightarrow> (int \<times> world) option" where
  "dhcp_check_timeouts i w = do {
     let (now, w) = time_null w;
     b \<leftarrow> get_block i w;
     foldM (check_timeouts_step now i) [0..<unat (b_subnet_len b)] (0, w) }"

subsection \<open>From addresses to leases\<close>

text \<open>
  The status code, the block and the lease number; on status 2 the out parameters keep the
  NULL and 0 of the callers.
\<close>

definition find_lease_from_address :: "in_addr \<Rightarrow> world \<Rightarrow> (u8 \<times> nat option \<times> u32) option" where
  "find_lease_from_address addr w =
     (if c_block_size w = 0 then None
      else
        let block_number = (be32 addr - be32 (c_prefix w)) div ucast (c_block_size w);
            lease_number = (be32 addr - be32 (c_prefix w)) mod ucast (c_block_size w)
        in if block_number < c_number_of_blocks w
          then do {
            b \<leftarrow> get_block (unat block_number) w;
            Some (if b_state b = DDHCP_OURS then 0 else 1, Some (unat block_number), lease_number) }
          else Some (2, None, 0))"

text \<open>\<open>dhcp_release_lease\<close>: the address is given as the \<open>uint32_t\<close> it was stored in.\<close>

definition dhcp_release_lease :: "u32 \<Rightarrow> world \<Rightarrow> world option" where
  "dhcp_release_lease address w = do {
     (found, lease_block, lease_index) \<leftarrow> find_lease_from_address (store32 (w_little_endian w) address) w;
     if found = 0 then
       (case lease_block of
          None \<Rightarrow> None
        | Some i \<Rightarrow> dhcp_release_lease_static i (unat lease_index) w)
     else Some w }"

subsection \<open>The scans count the leases of a state\<close>

text \<open>The reference: how many of the first leases are in a state.\<close>

definition count_state :: "lease_state \<Rightarrow> dhcp_lease list \<Rightarrow> nat" where
  "count_state s ls = length (filter (\<lambda>l. l_state l = s) ls)"

definition scannable :: "ddhcp_block \<Rightarrow> bool" where
  "scannable b \<longleftrightarrow> unat (b_subnet_len b) \<le> length (block_leases b)"

definition scanned :: "ddhcp_block \<Rightarrow> dhcp_lease list" where
  "scanned b = take (unat (b_subnet_len b)) (block_leases b)"

lemma count_state_Nil [simp]: "count_state s [] = 0"
  by (simp add: count_state_def)

lemma count_state_append [simp]: "count_state s (xs @ ys) = count_state s xs + count_state s ys"
  by (simp add: count_state_def)

lemma count_state_single [simp]: "count_state s [l] = (if l_state l = s then 1 else 0)"
  by (simp add: count_state_def)

lemma count_state_le: "count_state s ls \<le> length ls"
  by (simp add: count_state_def)

lemma count_loop:
  assumes "n \<le> length ls"
  shows "foldM (\<lambda>i num. do { l \<leftarrow> nth_opt ls i; Some (if l_state l = s then num + 1 else num) })
    [0..<n] (0 :: u32) = Some (of_nat (count_state s (take n ls)))"
  using assms
proof (induction n)
  case 0
  then show ?case by simp
next
  case (Suc n)
  then show ?case by (simp add: foldM_append take_Suc_conv_app_nth add.commute)
qed

lemma dhcp_num_free_eq: "scannable b \<Longrightarrow> dhcp_num_free b = Some (of_nat (count_state FREE (scanned b)))"
  by (simp add: dhcp_num_free_def scanned_def scannable_def count_loop)

lemma dhcp_num_offered_eq:
  "scannable b \<Longrightarrow> dhcp_num_offered b = Some (of_nat (count_state OFFERED (scanned b)))"
  by (simp add: dhcp_num_offered_def scanned_def scannable_def count_loop)

lemma length_scanned [simp]: "scannable b \<Longrightarrow> length (scanned b) = unat (b_subnet_len b)"
  by (simp add: scanned_def scannable_def)

lemma count_scanned_less: "scannable b \<Longrightarrow> count_state s (scanned b) < 256"
  using count_state_le [of s "scanned b"] unat_u8_less [of "b_subnet_len b"] by simp

lemma count_state_pos: "count_state s ls > 0 \<longleftrightarrow> (\<exists>l \<in> set ls. l_state l = s)"
  by (auto simp: count_state_def filter_empty_conv)

lemma count_scanned_pos:
  assumes "scannable b"
  shows "count_state s (scanned b) > 0 \<longleftrightarrow> (\<exists>i < unat (b_subnet_len b). l_state (block_leases b ! i) = s)"
proof -
  have "set (scanned b) = {block_leases b ! i | i. i < unat (b_subnet_len b)}"
    using nth_image [of "unat (b_subnet_len b)" "block_leases b"] assms
    by (simp add: scanned_def scannable_def) (auto simp flip: Setcompr_eq_image)
  then show ?thesis by (auto simp: count_state_pos)
qed

lemma dhcp_has_free_eq:
  "scannable b \<Longrightarrow> dhcp_has_free b = Some (if count_state FREE (scanned b) > 0 then 1 else 0)"
proof -
  assume sc: "scannable b"
  have "count_state FREE (scanned b) > 0 \<longleftrightarrow>
      (\<exists>i < unat (b_subnet_len b). l_state (block_leases b ! i) = FREE)"
    using sc by (rule count_scanned_pos)
  moreover have "find_idx (\<lambda>l. l_state l = FREE) (block_leases b) [0..<unat (b_subnet_len b)]
      = Some (find (\<lambda>i. l_state (block_leases b ! i) = FREE) [0..<unat (b_subnet_len b)])"
    using sc by (intro find_idx_find) (auto simp: scannable_def)
  ultimately show ?thesis
    by (cases "find (\<lambda>i. l_state (block_leases b ! i) = FREE) [0..<unat (b_subnet_len b)]")
      (auto simp: dhcp_has_free_def find_upt_eq_Some find_upt_eq_None)
qed

text \<open>\<open>dhcp_get_free_lease\<close> returns the first free position, or \<open>subnet_len\<close>.\<close>

lemma dhcp_get_free_lease_Some:
  assumes sc: "scannable b" and free: "count_state FREE (scanned b) > 0"
  shows "\<exists>j < unat (b_subnet_len b). dhcp_get_free_lease b = Some (of_nat j) \<and>
    l_state (block_leases b ! j) = FREE \<and> (\<forall>k < j. l_state (block_leases b ! k) \<noteq> FREE)"
proof -
  let ?P = "\<lambda>i. l_state (block_leases b ! i) = FREE"
  have eq: "find_idx (\<lambda>l. l_state l = FREE) (block_leases b) [0..<unat (b_subnet_len b)]
      = Some (find ?P [0..<unat (b_subnet_len b)])"
    using sc by (intro find_idx_find) (auto simp: scannable_def)
  have "\<exists>i < unat (b_subnet_len b). ?P i"
    using free count_scanned_pos [OF sc] by simp
  then obtain j where j: "find ?P [0..<unat (b_subnet_len b)] = Some j"
    by (cases "find ?P [0..<unat (b_subnet_len b)]") (auto simp: find_upt_eq_None)
  then have "dhcp_get_free_lease b = Some (of_nat j)"
    by (simp add: dhcp_get_free_lease_def eq)
  with j show ?thesis
    unfolding find_upt_eq_Some by blast
qed

lemma wf_block_scannable:
  "wf_block w i b \<Longrightarrow> b_addresses b \<noteq> None \<Longrightarrow> scannable b \<and> scanned b = block_leases b"
  using wf_block_leases [of w i b] by (auto simp: scannable_def scanned_def wf_block_def)

subsection \<open>Expiry\<close>

text \<open>The reference for one pass over a block.\<close>

definition expire :: "int \<Rightarrow> dhcp_lease \<Rightarrow> dhcp_lease" where
  "expire now l = (if l_state l \<noteq> FREE \<and> l_lease_end l < now then release_lease l else l)"

lemma wf_release_lease [simp]: "wf_lease (release_lease l)"
  by (simp add: wf_lease_def release_lease_def zero_chaddr_def)

lemma wf_expire: "wf_lease l \<Longrightarrow> wf_lease (expire now l)"
  by (simp add: expire_def)

lemma expire_idem: "expire now (expire now l) = expire now l"
  by (simp add: expire_def release_lease_def)

definition set_leases :: "nat \<Rightarrow> dhcp_lease list \<Rightarrow> world \<Rightarrow> world" where
  "set_leases i ls w = put_block i ((c_blocks w ! i)\<lparr>b_addresses := Some ls\<rparr>) w"

lemma set_leases_id: "b_addresses (c_blocks w ! i) = Some ls \<Longrightarrow> set_leases i ls w = w"
proof -
  assume "b_addresses (c_blocks w ! i) = Some ls"
  then have "(c_blocks w ! i)\<lparr>b_addresses := Some ls\<rparr> = c_blocks w ! i"
    by (cases "c_blocks w ! i") simp
  then show ?thesis by (simp add: set_leases_def put_block_def)
qed

lemma set_leases_twice [simp]: "i < length (c_blocks w) \<Longrightarrow>
    set_leases i ls (set_leases i ls' w) = set_leases i ls w"
  by (simp add: set_leases_def put_block_def)

lemma set_leases_block [simp]:
  "i < length (c_blocks w) \<Longrightarrow> c_blocks (set_leases i ls w) ! i = (c_blocks w ! i)\<lparr>b_addresses := Some ls\<rparr>"
  "length (c_blocks (set_leases i ls w)) = length (c_blocks w)"
  by (simp_all add: set_leases_def)

lemma block_leases_Some [simp]: "b_addresses b = Some ls \<Longrightarrow> block_leases b = ls"
  by (simp add: block_leases_def)

lemma check_timeouts_step_eq:
  assumes "i < length (c_blocks w)" and "b_addresses (c_blocks w ! i) = Some ls" and "j < length ls"
  shows "check_timeouts_step now i j (n, w) =
    Some (if l_state (expire now (ls ! j)) = FREE then n + 1 else n,
      set_leases i (ls[j := expire now (ls ! j)]) w)"
  using assms set_leases_id [OF assms(2)]
  by (auto simp: check_timeouts_step_def get_lease_def dhcp_release_lease_static_def put_lease_def
      expire_def set_leases_def release_lease_def)

lemma check_timeouts_loop:
  assumes i: "i < length (c_blocks w)" and ls: "b_addresses (c_blocks w ! i) = Some ls"
    and "n \<le> length ls"
  shows "foldM (check_timeouts_step now i) [0..<n] (0, w) =
    Some (int (count_state FREE (map (expire now) (take n ls))),
      set_leases i (map (expire now) (take n ls) @ drop n ls) w)"
  using assms(3)
proof (induction n)
  case 0
  then show ?case by (simp add: set_leases_id ls)
next
  case (Suc n)
  let ?m = "map (expire now) (take n ls)"
  have split: "(?m @ drop n ls)[n := expire now (ls ! n)] = map (expire now) (take (Suc n) ls) @ drop (Suc n) ls"
    and nth: "(?m @ drop n ls) ! n = ls ! n"
    using Suc.prems
    by (simp_all add: take_Suc_conv_app_nth list_update_append Cons_nth_drop_Suc [symmetric] nth_append)
  have "check_timeouts_step now i n
      (int (count_state FREE ?m), set_leases i (?m @ drop n ls) w)
    = Some (int (count_state FREE (map (expire now) (take (Suc n) ls))),
        set_leases i (map (expire now) (take (Suc n) ls) @ drop (Suc n) ls) w)"
    using i Suc.prems
    by (subst check_timeouts_step_eq [where ls = "?m @ drop n ls"])
      (simp_all only: split nth set_leases_block set_leases_twice, simp_all add: take_Suc_conv_app_nth)
  with Suc show ?case by (simp add: foldM_append del: take_append)
qed

text \<open>One pass over a block expires every lease that has ended and counts the free ones.\<close>

lemma dhcp_check_timeouts_eq:
  assumes "i < length (c_blocks w)" and "b_addresses (c_blocks w ! i) = Some ls"
    and "length ls = unat (b_subnet_len (c_blocks w ! i))"
  shows "dhcp_check_timeouts i w =
    (let now = shd (w_times w); ls' = map (expire now) ls
     in Some (int (count_state FREE ls'), set_leases i ls' (w\<lparr>w_times := stl (w_times w)\<rparr>)))"
  using assms check_timeouts_loop [of i "w\<lparr>w_times := stl (w_times w)\<rparr>" ls "length ls"]
  by (simp add: dhcp_check_timeouts_def time_null_def Let_def)

subsection \<open>The operations keep the invariant\<close>

text \<open>A condition on two states, as the postcondition of an operation from the first.\<close>

definition keeps :: "world \<Rightarrow> world \<Rightarrow> bool" where
  "keeps w w' \<longleftrightarrow> wf_state w' \<and> same_params w w'"

lemma keepsI: "wf_state w' \<Longrightarrow> same_params w w' \<Longrightarrow> keeps w w'"
  by (simp add: keeps_def)

lemma keeps_inv: "keeps w w' \<Longrightarrow> wf_state w'"
  by (simp add: keeps_def)

lemma keeps_refl: "wf_state w \<Longrightarrow> keeps w w"
  by (simp add: keeps_def)

lemma keeps_trans: "keeps u v \<Longrightarrow> keeps v w \<Longrightarrow> keeps u w"
  by (auto simp: keeps_def intro: same_params_trans)

lemma keeps_size: "keeps w w' \<Longrightarrow> num_blocks w' = num_blocks w \<and> c_block_size w' = c_block_size w"
  by (simp add: keeps_def same_params_def)

lemma inv_set_leases:
  assumes "wf_state w" "i < num_blocks w" "b_addresses (c_blocks w ! i) = Some ls"
    "length ls' = length ls" "\<forall>l \<in> set ls'. wf_lease l"
  shows "wf_state (set_leases i ls' w)"
  unfolding set_leases_def
  using assms inv_block [OF assms(1,2)]
  by (intro inv_put_block wf_block_set_leases) simp_all

lemma same_params_set_leases [simp]: "same_params w (set_leases i ls w)"
  by (simp add: set_leases_def)

lemma inv_leases:
  assumes "wf_state w" "i < num_blocks w" "b_addresses (c_blocks w ! i) = Some ls"
  shows "length ls = unat (c_block_size w)" "\<forall>l \<in> set ls. wf_lease l"
    "b_subnet_len (c_blocks w ! i) = c_block_size w" "b_state (c_blocks w ! i) \<noteq> DDHCP_FREE"
  using inv_block [OF assms(1,2)] assms(3) by (auto simp: wf_block_def)

lemma dhcp_check_timeouts_inv:
  assumes "wf_state w" "i < num_blocks w" "b_addresses (c_blocks w ! i) = Some ls"
  defines "ls' \<equiv> map (expire (shd (w_times w))) ls"
  shows "dhcp_check_timeouts i w =
      Some (int (count_state FREE ls'), set_leases i ls' (w\<lparr>w_times := stl (w_times w)\<rparr>))"
    and "wf_state (set_leases i ls' (w\<lparr>w_times := stl (w_times w)\<rparr>))"
proof -
  note ls = inv_leases [OF assms(1-3)]
  show "dhcp_check_timeouts i w =
      Some (int (count_state FREE ls'), set_leases i ls' (w\<lparr>w_times := stl (w_times w)\<rparr>))"
    using assms ls by (subst dhcp_check_timeouts_eq [where ls = ls]) (simp_all add: inv_length ls'_def Let_def)
  show "wf_state (set_leases i ls' (w\<lparr>w_times := stl (w_times w)\<rparr>))"
    using assms(1-3) ls by (intro inv_set_leases [where ls = ls]) (auto simp: ls'_def wf_expire)
qed

lemma dhcp_release_lease_static_ok:
  assumes "wf_state w" "i < num_blocks w" "b_addresses (c_blocks w ! i) = Some ls" "j < length ls"
  shows "dhcp_release_lease_static i j w = Some (set_leases i (ls[j := release_lease (ls ! j)]) w)"
    and "wf_state (set_leases i (ls[j := release_lease (ls ! j)]) w)"
proof -
  note ls = inv_leases [OF assms(1-3)]
  show "dhcp_release_lease_static i j w = Some (set_leases i (ls[j := release_lease (ls ! j)]) w)"
    using assms by (simp add: dhcp_release_lease_static_def get_lease_def put_lease_def set_leases_def inv_length)
  show "wf_state (set_leases i (ls[j := release_lease (ls ! j)]) w)"
    using assms ls
    by (intro inv_set_leases [where ls = ls]) (auto dest: set_update_subset_insert [THEN subsetD])
qed

subsection \<open>From addresses to leases and back\<close>

definition lease_address :: "world \<Rightarrow> nat \<Rightarrow> nat \<Rightarrow> in_addr" where
  "lease_address w i j = addr_add (block_subnet w i) (of_nat j)"

lemma be32_lease_address:
  "be32 (lease_address w i j) - be32 (c_prefix w) = of_nat (i * unat (c_block_size w) + j)"
  by (simp add: lease_address_def block_subnet_def unsigned_of_nat unsigned_ucast_eq)

lemma wf_params_D:
  assumes "wf_params w"
  shows "length (c_node_id w) = 8" "length (c_prefix w) = 4" "0 < unat (c_block_size w)"
    "c_block_size w \<noteq> 0" "c_block_refresh_factor w \<noteq> 0"
    "num_blocks w * unat (c_block_size w) \<le> 2 ^ 32"
  using assms by (auto simp: wf_params_def unat_gt_0)

lemma inv_params: "wf_state w \<Longrightarrow> wf_params w"
  by (simp add: wf_state_def)

lemma lease_offset_less:
  assumes "wf_params w" "i < num_blocks w" "j < unat (c_block_size w)"
  shows "i * unat (c_block_size w) + j < 2 ^ 32"
proof -
  have "i * unat (c_block_size w) + j < Suc i * unat (c_block_size w)" using assms(3) by simp
  also have "\<dots> \<le> num_blocks w * unat (c_block_size w)" using assms(2) by (intro mult_le_mono1) simp
  finally show ?thesis using wf_params_D(6) [OF assms(1)] by simp
qed

lemma lease_offset_div_mod:
  assumes "wf_params w" "i < num_blocks w" "j < unat (c_block_size w)"
  defines "off \<equiv> of_nat (i * unat (c_block_size w) + j) :: u32"
  shows "off div ucast (c_block_size w) = of_nat i" "off mod ucast (c_block_size w) = of_nat j"
    "(of_nat i :: u32) < c_number_of_blocks w" "unat (of_nat i :: u32) = i"
proof -
  let ?m = "unat (c_block_size w)"
  have m: "unat (ucast (c_block_size w) :: u32) = ?m"
    using unat_u8_less [of "c_block_size w"] by (simp add: unsigned_ucast_eq take_bit_nat_eq_self)
  have off: "unat off = i * ?m + j"
    unfolding off_def using lease_offset_less [OF assms(1-3)] by (intro of_nat_inverse) simp_all
  show i: "unat (of_nat i :: u32) = i"
    using assms(2) unat_u32_less [of "c_number_of_blocks w"] by (simp add: unat_of_nat)
  show "(of_nat i :: u32) < c_number_of_blocks w"
    using assms(2) by (simp add: word_less_nat_alt i)
  have j: "unat (of_nat j :: u32) = j"
    using assms(3) unat_u8_less [of "c_block_size w"] by (simp add: unat_of_nat)
  show "off div ucast (c_block_size w) = of_nat i"
    using assms(3) by (intro word_unat_eq_iff [THEN iffD2]) (simp add: unat_div_distrib off m i)
  show "off mod ucast (c_block_size w) = of_nat j"
    using assms(3) by (intro word_unat_eq_iff [THEN iffD2]) (simp add: unat_mod_distrib off m j)
qed

text \<open>Every address of the network is found, at its block and lease.\<close>

lemma find_lease_of_lease_address:
  assumes "wf_state w" "i < num_blocks w" "j < unat (c_block_size w)"
  shows "find_lease_from_address (lease_address w i j) w =
    Some (if b_state (c_blocks w ! i) = DDHCP_OURS then 0 else 1, Some i, of_nat j)"
  using lease_offset_div_mod [OF inv_params [OF assms(1)] assms(2,3)] assms
    wf_params_D(4) [OF inv_params [OF assms(1)]] inv_get_block [OF assms(1,2)]
  by (simp only: find_lease_from_address_def be32_lease_address Let_def) simp

text \<open>What is found is the address asked for; the search never reads outside the blocks.\<close>

lemma find_lease_cases:
  assumes wf_state: "wf_state w" and a: "length a = 4"
  obtains (outside) "find_lease_from_address a w = Some (2, None, 0)"
      "\<forall>i j. i < num_blocks w \<longrightarrow> j < unat (c_block_size w) \<longrightarrow> a \<noteq> lease_address w i j"
  | (inside) i j where "i < num_blocks w" "j < unat (c_block_size w)" "a = lease_address w i j"
      "find_lease_from_address a w =
        Some (if b_state (c_blocks w ! i) = DDHCP_OURS then 0 else 1, Some i, of_nat j)"
proof -
  let ?m = "c_block_size w" and ?off = "be32 a - be32 (c_prefix w)"
  let ?i = "unat (?off div ucast ?m)" and ?j = "unat (?off mod ucast ?m)"
  have m: "unat (ucast ?m :: u32) = unat ?m"
    using unat_u8_less [of ?m] by (simp add: unsigned_ucast_eq take_bit_nat_eq_self)
  have pos: "0 < unat ?m" and nz: "?m \<noteq> 0" using wf_params_D [OF inv_params [OF wf_state]] by simp_all
  show thesis
  proof (cases "?off div ucast ?m < c_number_of_blocks w")
    case True
    then have i: "?i < num_blocks w" by (simp add: word_less_nat_alt)
    have j: "?j < unat ?m" using pos by (simp add: unat_mod_distrib m)
    have "of_nat (?i * unat ?m + ?j) = ?off"
      by (simp add: unat_div_distrib unat_mod_distrib m)
    then have "be32 (lease_address w ?i ?j) = be32 a"
      using be32_lease_address [of w ?i ?j] by (simp add: algebra_simps)
    then have "a = lease_address w ?i ?j"
      using a by (subst (asm) be32_inj) (simp_all add: lease_address_def)
    then show thesis
      using inside [OF i j] find_lease_of_lease_address [OF wf_state i j] by simp
  next
    case False
    show thesis
    proof (rule outside)
      show "find_lease_from_address a w = Some (2, None, 0)"
        using False nz by (simp add: find_lease_from_address_def)
      show "\<forall>i j. i < num_blocks w \<longrightarrow> j < unat ?m \<longrightarrow> a \<noteq> lease_address w i j"
        using False lease_offset_div_mod [OF inv_params [OF wf_state]] be32_lease_address [of w] by metis
    qed
  qed
qed

lemma lease_address_inj:
  assumes "wf_state w" "i < num_blocks w" "j < unat (c_block_size w)" "i' < num_blocks w"
    "j' < unat (c_block_size w)" "lease_address w i j = lease_address w i' j'"
  shows "i = i' \<and> j = j'"
proof -
  have "(Some i, of_nat j :: u32) = (Some i', of_nat j')"
    using find_lease_of_lease_address [OF assms(1-3)] find_lease_of_lease_address [OF assms(1,4,5)] assms(6)
    by simp
  moreover have "unat (of_nat k :: u32) = k" if "k < unat (c_block_size w)" for k
    using that unat_u8_less [of "c_block_size w"] by (simp add: unat_of_nat)
  ultimately show ?thesis using assms(3,5) by (metis option.inject prod.inject)
qed

end
