(* ===== verification/Packet.thy ===== *)
theory Packet
  imports Tools
begin

text \<open>
  packet.c: the messages between ddhcpd nodes. A message is a 16 byte header (node id,
  network prefix, its length, block size, command, count) and a body chosen by the command.
  \<open>ntoh_mcast_packet\<close> reads from the receive buffer, of which the datagram fills the first
  \<open>len\<close> bytes and which may hold older bytes behind them. \<open>Inl e\<close> is a nonzero return,
  \<open>Inr p\<close> the packet filled in on return 0.
\<close>

definition DDHCP_MSG_UPDATECLAIM :: u8 where "DDHCP_MSG_UPDATECLAIM = 1"
definition DDHCP_MSG_INQUIRE :: u8 where "DDHCP_MSG_INQUIRE = 2"
definition DDHCP_MSG_RENEWLEASE :: u8 where "DDHCP_MSG_RENEWLEASE = 16"
definition DDHCP_MSG_LEASEACK :: u8 where "DDHCP_MSG_LEASEACK = 17"
definition DDHCP_MSG_LEASENAK :: u8 where "DDHCP_MSG_LEASENAK = 18"
definition DDHCP_MSG_RELEASE :: u8 where "DDHCP_MSG_RELEASE = 19"

lemmas ddhcp_msgs =
  DDHCP_MSG_UPDATECLAIM_def DDHCP_MSG_INQUIRE_def DDHCP_MSG_RENEWLEASE_def
  DDHCP_MSG_LEASEACK_def DDHCP_MSG_LEASENAK_def DDHCP_MSG_RELEASE_def

text \<open>\<open>sizeof(struct ddhcp_renew_payload)\<close> is 28.\<close>

definition packet_size :: "u8 \<Rightarrow> int \<Rightarrow> int" where
  "packet_size command payload_count =
     (if command = DDHCP_MSG_UPDATECLAIM then 16 + payload_count * 7
      else if command = DDHCP_MSG_INQUIRE then 16 + payload_count * 4
      else if command = DDHCP_MSG_LEASEACK \<or> command = DDHCP_MSG_LEASENAK
        \<or> command = DDHCP_MSG_RENEWLEASE then 16 + 28
      else -1)"

definition new_ddhcp_packet :: "u8 \<Rightarrow> world \<Rightarrow> ddhcp_mcast_packet option \<times> world" where
  "new_ddhcp_packet command w =
     (let (mem, w) = calloc w in
      if \<not> mem then (None, w)
      else (Some \<lparr>m_node_id = c_node_id w, m_prefix = c_prefix w, m_prefix_len = c_prefix_len w,
              m_blocksize = c_block_size w, m_command = command, m_count = 0,
              m_sender = None, m_body = No_body\<rparr>, w))"

subsection \<open>Bodies\<close>

definition put_claim :: "ddhcp_payload \<Rightarrow> u8 list" where
  "put_claim y = put32 (y_block_index y) @ put16 (y_timeout y) @ put8 (ucast (y_reserved y))"

definition get_claim :: "u8 list \<Rightarrow> (ddhcp_payload \<times> u8 list) option" where
  "get_claim buffer = do {
     (tmp32, buffer) \<leftarrow> get32 buffer;
     (tmp16, buffer) \<leftarrow> get16 buffer;
     (tmp8, buffer) \<leftarrow> get8 buffer;
     Some (\<lparr>y_block_index = tmp32, y_timeout = tmp16, y_reserved = ucast tmp8\<rparr>, buffer) }"

definition put_inquire :: "ddhcp_payload \<Rightarrow> u8 list" where
  "put_inquire y = put32 (y_block_index y)"

definition get_inquire :: "u8 list \<Rightarrow> (ddhcp_payload \<times> u8 list) option" where
  "get_inquire buffer = do {
     (tmp32, buffer) \<leftarrow> get32 buffer;
     Some (\<lparr>y_block_index = tmp32, y_timeout = 0, y_reserved = 0\<rparr>, buffer) }"

definition put_renew :: "ddhcp_renew_payload \<Rightarrow> u8 list" where
  "put_renew r = put32 (r_address r) @ put32 (r_xid r) @ put32 (r_lease_seconds r) @ r_chaddr r"

definition get_renew :: "u8 list \<Rightarrow> (ddhcp_renew_payload \<times> u8 list) option" where
  "get_renew buffer = do {
     (address, buffer) \<leftarrow> get32 buffer;
     (xid, buffer) \<leftarrow> get32 buffer;
     (lease_seconds, buffer) \<leftarrow> get32 buffer;
     (chaddr, buffer) \<leftarrow> get_bytes 16 buffer;
     Some (\<lparr>r_chaddr = chaddr, r_address = address, r_xid = xid, r_lease_seconds = lease_seconds\<rparr>,
       buffer) }"

subsection \<open>Reading\<close>

definition is_renew_command :: "u8 \<Rightarrow> bool" where
  "is_renew_command command \<longleftrightarrow>
     command = DDHCP_MSG_RENEWLEASE \<or> command = DDHCP_MSG_LEASEACK \<or>
     command = DDHCP_MSG_LEASENAK \<or> command = DDHCP_MSG_RELEASE"

definition ntoh_body ::
  "u8 \<Rightarrow> nat \<Rightarrow> u8 list \<Rightarrow> world \<Rightarrow> ((int + mcast_body) \<times> world) option" where
  "ntoh_body command count buffer w =
     (if command = DDHCP_MSG_UPDATECLAIM then
        let (mem, w) = calloc w in
        if \<not> mem then Some (Inl (- ENOMEM), w)
        else do { (ps, _) \<leftarrow> get_many get_claim count buffer; Some (Inr (Payload ps), w) }
      else if command = DDHCP_MSG_INQUIRE then
        let (mem, w) = calloc w in
        if \<not> mem then Some (Inl (- ENOMEM), w)
        else do { (ps, _) \<leftarrow> get_many get_inquire count buffer; Some (Inr (Payload ps), w) }
      else if is_renew_command command then
        let (mem, w) = calloc w in
        if \<not> mem then Some (Inl (- ENOMEM), w)
        else do { (r, _) \<leftarrow> get_renew buffer; Some (Inr (Renew r), w) }
      else Some (Inl 2, w))"

definition ntoh_mcast_packet ::
  "u8 list \<Rightarrow> int \<Rightarrow> world \<Rightarrow> ((int + ddhcp_mcast_packet) \<times> world) option" where
  "ntoh_mcast_packet buffer len w = do {
     (node_id, buffer) \<leftarrow> get_bytes 8 buffer;
     (prefix, buffer) \<leftarrow> get_bytes 4 buffer;
     (prefix_len, buffer) \<leftarrow> get8 buffer;
     (blocksize, buffer) \<leftarrow> get8 buffer;
     (command, buffer) \<leftarrow> get8 buffer;
     (count, buffer) \<leftarrow> get8 buffer;
     let should_len = packet_size command (uint count);
     if should_len \<noteq> len then Some (Inl 1, w)
     else do {
       (body, w) \<leftarrow> ntoh_body command (unat count) buffer w;
       Some (map_sum id (\<lambda>body. \<lparr>m_node_id = node_id, m_prefix = prefix, m_prefix_len = prefix_len,
         m_blocksize = blocksize, m_command = command, m_count = count, m_sender = None,
         m_body = body\<rparr>) body, w) } }"

subsection \<open>Writing\<close>

text \<open>Reading the wrong member of the union, or past the payload array, is undefined.\<close>

definition hton_body :: "u8 \<Rightarrow> nat \<Rightarrow> mcast_body \<Rightarrow> u8 list option" where
  "hton_body command count body =
     (if command = DDHCP_MSG_UPDATECLAIM then
        (case body of Payload ps \<Rightarrow> do { ps \<leftarrow> take_opt count ps; Some (concat (map put_claim ps)) }
         | _ \<Rightarrow> if count = 0 then Some [] else None)
      else if command = DDHCP_MSG_INQUIRE then
        (case body of Payload ps \<Rightarrow> do { ps \<leftarrow> take_opt count ps; Some (concat (map put_inquire ps)) }
         | _ \<Rightarrow> if count = 0 then Some [] else None)
      else if is_renew_command command then
        (case body of Renew r \<Rightarrow> Some (put_renew r) | _ \<Rightarrow> None)
      else Some [])"

definition hton_packet :: "ddhcp_mcast_packet \<Rightarrow> u8 list option" where
  "hton_packet p = do {
     body \<leftarrow> hton_body (m_command p) (unat (m_count p)) (m_body p);
     Some (m_node_id p @ m_prefix p @ put8 (m_prefix_len p) @ put8 (m_blocksize p)
       @ put8 (m_command p) @ put8 (m_count p) @ body) }"

text \<open>
  A length of -1 asks the allocator for \<open>SIZE_MAX\<close> bytes, which it never has.
\<close>

definition send_packet :: "(u8 list \<Rightarrow> io) \<Rightarrow> ddhcp_mcast_packet \<Rightarrow> world \<Rightarrow> (int \<times> world) option" where
  "send_packet dest p w = do {
     let len = packet_size (m_command p) (uint (m_count p));
     let (mem, w) = calloc w;
     if \<not> mem \<or> len < 0 then Some (-1, w)
     else do {
       buffer \<leftarrow> hton_packet p;
       Some (sendto (dest buffer) w) } }"

definition send_packet_mcast :: "ddhcp_mcast_packet \<Rightarrow> world \<Rightarrow> (int \<times> world) option" where
  "send_packet_mcast p w = send_packet Mcast_send p w"

definition send_packet_direct :: "ddhcp_mcast_packet \<Rightarrow> in6_addr \<Rightarrow> world \<Rightarrow> (int \<times> world) option" where
  "send_packet_direct p dest w = send_packet (Direct_send dest) p w"

subsection \<open>The bodies are codecs\<close>

definition valid_claim :: "ddhcp_payload \<Rightarrow> bool" where
  "valid_claim y \<longleftrightarrow> y_reserved y < 256"

definition valid_inquire :: "ddhcp_payload \<Rightarrow> bool" where
  "valid_inquire y \<longleftrightarrow> y_timeout y = 0 \<and> y_reserved y = 0"

definition valid_renew :: "ddhcp_renew_payload \<Rightarrow> bool" where
  "valid_renew r \<longleftrightarrow> length (r_chaddr r) = 16"

lemma ucast_u16_u8: "(x :: u16) < 256 \<Longrightarrow> ucast (ucast x :: u8) = x"
  by (simp add: word_less_nat_alt word_unat_eq_iff unsigned_ucast_eq unsigned_take_bit_eq take_bit_nat_eq_self)

lemma ucast_u8_u16_less: "(ucast (x :: u8) :: u16) < 256"
  using unat_u8_less [of x] by (simp add: word_less_nat_alt unsigned_ucast_eq take_bit_nat_eq_self)

lemma ucast_u8_u16_u8 [simp]: "ucast (ucast (x :: u8) :: u16) = x"
  using unat_u8_less [of x]
  by (simp add: word_unat_eq_iff unsigned_ucast_eq unsigned_take_bit_eq take_bit_nat_eq_self)

interpretation claim: codec put_claim get_claim 7 valid_claim
proof
  fix x r bs
  show "valid_claim x \<Longrightarrow> get_claim (put_claim x @ r) = Some (x, r)"
    by (simp add: get_claim_def put_claim_def c32.get_put c16.get_put c8.get_put valid_claim_def ucast_u16_u8)
  show "valid_claim x \<Longrightarrow> length (put_claim x) = 7"
    by (simp add: put_claim_def)
  show "get_claim bs = Some (x, r) \<Longrightarrow> valid_claim x \<and> bs = put_claim x @ r"
    by (auto simp: get_claim_def put_claim_def valid_claim_def bind_eq_Some_conv ucast_u8_u16_less
        dest!: c32.get_valid c16.get_valid c8.get_valid)
  show "7 \<le> length bs \<Longrightarrow> get_claim bs \<noteq> None"
    unfolding get_claim_def
    by (rule ok_not_None [where Q = "\<lambda>_. True"])
      (intro c32.get_bind c16.get_bind c8.get_bind; simp)
qed

interpretation inquire: codec put_inquire get_inquire 4 valid_inquire
proof
  fix x r bs
  show "valid_inquire x \<Longrightarrow> get_inquire (put_inquire x @ r) = Some (x, r)"
    by (simp add: get_inquire_def put_inquire_def c32.get_put valid_inquire_def)
  show "valid_inquire x \<Longrightarrow> length (put_inquire x) = 4"
    by (simp add: put_inquire_def)
  show "get_inquire bs = Some (x, r) \<Longrightarrow> valid_inquire x \<and> bs = put_inquire x @ r"
    by (auto simp: get_inquire_def put_inquire_def valid_inquire_def bind_eq_Some_conv dest!: c32.get_valid)
  show "4 \<le> length bs \<Longrightarrow> get_inquire bs \<noteq> None"
    unfolding get_inquire_def
    by (rule ok_not_None [where Q = "\<lambda>_. True"]) (intro c32.get_bind; simp)
qed

interpretation renew: codec put_renew get_renew 28 valid_renew
proof
  fix x r bs
  show "valid_renew x \<Longrightarrow> get_renew (put_renew x @ r) = Some (x, r)"
    by (simp add: get_renew_def put_renew_def c32.get_put valid_renew_def)
  show "valid_renew x \<Longrightarrow> length (put_renew x) = 28"
    by (simp add: put_renew_def valid_renew_def)
  show "get_renew bs = Some (x, r) \<Longrightarrow> valid_renew x \<and> bs = put_renew x @ r"
    by (auto simp: get_renew_def put_renew_def valid_renew_def bind_eq_Some_conv get_bytes_eq_Some
        dest!: c32.get_valid)
  show "28 \<le> length bs \<Longrightarrow> get_renew bs \<noteq> None"
    unfolding get_renew_def
    by (rule ok_not_None [where Q = "\<lambda>_. True"])
      (intro c32.get_bind craw.get_bind; simp)
qed

subsection \<open>Whole packets\<close>

text \<open>The packets the program builds: a command it can size and the body of that command.\<close>

fun wf_body :: "u8 \<Rightarrow> nat \<Rightarrow> mcast_body \<Rightarrow> bool" where
  "wf_body command count No_body \<longleftrightarrow> False"
| "wf_body command count (Payload ps) \<longleftrightarrow> length ps = count \<and>
     (command = DDHCP_MSG_UPDATECLAIM \<and> (\<forall>y \<in> set ps. valid_claim y) \<or>
      command = DDHCP_MSG_INQUIRE \<and> (\<forall>y \<in> set ps. valid_inquire y))"
| "wf_body command count (Renew r) \<longleftrightarrow>
     (command = DDHCP_MSG_RENEWLEASE \<or> command = DDHCP_MSG_LEASEACK \<or> command = DDHCP_MSG_LEASENAK)
     \<and> valid_renew r"

definition wf_mcast :: "ddhcp_mcast_packet \<Rightarrow> bool" where
  "wf_mcast p \<longleftrightarrow> length (m_node_id p) = 8 \<and> length (m_prefix p) = 4 \<and> m_sender p = None \<and>
     wf_body (m_command p) (unat (m_count p)) (m_body p)"

lemma hton_body_size:
  assumes "wf_body c n body"
  shows "\<exists>bs. hton_body c n body = Some bs \<and> int (length bs) + 16 = packet_size c (int n)"
  using assms
  by (cases body)
    (auto simp: hton_body_def packet_size_def is_renew_command_def ddhcp_msgs claim.concat_put_length
      inquire.concat_put_length renew.put_length)

lemma ntoh_body_hton:
  assumes "wf_body c n body" "hton_body c n body = Some bs" "shd (w_allocs w)"
  shows "ntoh_body c n (bs @ r) w = Some (Inr body, w\<lparr>w_allocs := stl (w_allocs w)\<rparr>)"
  using assms
  by (cases body)
    (auto simp: hton_body_def ntoh_body_def calloc_def is_renew_command_def ddhcp_msgs
      claim.get_many_put inquire.get_many_put renew.get_put)

lemma ntoh_body_inv:
  assumes "ntoh_body c n bs w = Some (Inr body, w')" "0 \<le> packet_size c (int n)"
  shows "wf_body c n body \<and> (\<exists>b r. hton_body c n body = Some b \<and> bs = b @ r)"
  using assms
  by (auto simp: ntoh_body_def hton_body_def calloc_def is_renew_command_def packet_size_def ddhcp_msgs
      bind_eq_Some_conv split: if_splits dest!: claim.get_many_inv inquire.get_many_inv renew.get_valid)

lemma ntoh_body_total:
  assumes "packet_size c (int n) \<le> int (length bs) + 16" "0 \<le> packet_size c (int n)"
  shows "\<exists>r. ntoh_body c n bs w = Some r \<and> w_out (snd r) = w_out w"
proof -
  have "get_many get_claim n bs \<noteq> None" if "c = DDHCP_MSG_UPDATECLAIM"
    using that assms by (intro claim.get_many_enough) (simp add: packet_size_def ddhcp_msgs)
  moreover have "get_many get_inquire n bs \<noteq> None" if "c = DDHCP_MSG_INQUIRE"
    using that assms by (intro inquire.get_many_enough) (simp add: packet_size_def ddhcp_msgs)
  moreover have "get_renew bs \<noteq> None" if "is_renew_command c"
    using that assms by (intro renew.get_enough) (auto simp: packet_size_def is_renew_command_def ddhcp_msgs)
  ultimately show ?thesis
    by (auto simp: ntoh_body_def calloc_def Let_def)
qed

lemmas header_gets = craw.get_put c8.get_put

lemma ntoh_hton_lemma:
  assumes wf: "wf_mcast p" and mem: "shd (w_allocs w)"
  shows "\<exists>bs. hton_packet p = Some bs \<and> int (length bs) = packet_size (m_command p) (uint (m_count p)) \<and>
    ntoh_mcast_packet (bs @ r) (int (length bs)) w = Some (Inr p, w\<lparr>w_allocs := stl (w_allocs w)\<rparr>)"
proof -
  obtain b where b: "hton_body (m_command p) (unat (m_count p)) (m_body p) = Some b"
    "int (length b) + 16 = packet_size (m_command p) (uint (m_count p))"
    using hton_body_size wf by (fastforce simp: wf_mcast_def)
  let ?h = "m_node_id p @ m_prefix p @ put8 (m_prefix_len p) @ put8 (m_blocksize p)
       @ put8 (m_command p) @ put8 (m_count p)"
  have len: "length ?h = 16" using wf by (simp add: wf_mcast_def)
  have "hton_packet p = Some (?h @ b)" by (simp add: hton_packet_def b)
  moreover have "int (length (?h @ b)) = packet_size (m_command p) (uint (m_count p))"
    using len b(2) by simp
  moreover have "ntoh_mcast_packet ((?h @ b) @ r) (packet_size (m_command p) (uint (m_count p))) w
      = Some (Inr p, w\<lparr>w_allocs := stl (w_allocs w)\<rparr>)"
    using wf ntoh_body_hton [OF _ b(1) mem, of r]
    by (simp add: ntoh_mcast_packet_def wf_mcast_def c8.get_put)
  ultimately show ?thesis by metis
qed

lemma map_sum_eq_Inr: "map_sum id f x = Inr y \<longleftrightarrow> (\<exists>z. x = Inr z \<and> y = f z)"
  by (cases x) auto

lemma hton_ntoh_lemma:
  assumes "ntoh_mcast_packet buffer len w = Some (Inr p, w')" "0 \<le> len"
  shows "wf_mcast p \<and> (\<exists>bs r. hton_packet p = Some bs \<and> buffer = bs @ r \<and> len = int (length bs))"
proof -
  obtain node pre pl bsz c n buf body where
    h: "buffer = node @ pre @ put8 pl @ put8 bsz @ put8 c @ put8 n @ buf"
      "length node = 8" "length pre = 4" "len = packet_size c (uint n)"
    and body: "ntoh_body c (unat n) buf w = Some (Inr body, w')"
    and p: "p = \<lparr>m_node_id = node, m_prefix = pre, m_prefix_len = pl, m_blocksize = bsz,
        m_command = c, m_count = n, m_sender = None, m_body = body\<rparr>"
    using assms(1)
    by (fastforce simp: ntoh_mcast_packet_def bind_eq_Some_conv get_bytes_eq_Some Let_def
        map_sum_eq_Inr split: if_splits dest!: c8.get_valid)
  from ntoh_body_inv [OF body] assms(2) h(4)
  obtain b r where b: "wf_body c (unat n) body" "hton_body c (unat n) body = Some b" "buf = b @ r"
    by auto
  then show ?thesis
    using h p hton_body_size [OF b(1)] by (auto simp: wf_mcast_def hton_packet_def)
qed

text \<open>The datagrams of one receive buffer never make the reader leave the buffer.\<close>

lemma ntoh_mcast_total:
  assumes "16 \<le> length buffer" "0 \<le> len" "len \<le> int (length buffer)"
  shows "\<exists>r. ntoh_mcast_packet buffer len w = Some r"
proof -
  have "ok (ntoh_mcast_packet buffer len w) (\<lambda>_. True)"
    unfolding ntoh_mcast_packet_def Let_def
  proof (intro craw.get_bind c8.get_bind)
    fix c n :: u8 and buf b1 b2 b3 b4 b5 :: "u8 list"
    assume "length buffer = 8 + length b1" "length b1 = 4 + length b2" "length b2 = 1 + length b3"
      "length b3 = 1 + length b4" "length b4 = 1 + length b5" "length b5 = 1 + length buf"
    then have "packet_size c (uint n) = len \<Longrightarrow> \<exists>r. ntoh_body c (unat n) buf w = Some r"
      using ntoh_body_total [of c "unat n" buf w] assms by auto
    then show "ok (if packet_size c (uint n) \<noteq> len then Some (Inl 1, w)
        else do { (body, w) \<leftarrow> ntoh_body c (unat n) buf w;
          Some (map_sum id (F c n) body, w) }) (\<lambda>_. True)" for F
      by (auto simp: wp)
  qed (use assms in simp_all)
  then show ?thesis by (auto simp: ok_iff)
qed

text \<open>\<open>_packet_size\<close> does not know \<open>DDHCP_MSG_RELEASE\<close>, so no release is ever accepted.\<close>

lemma ntoh_release_lemma:
  assumes "ntoh_mcast_packet buffer len w = Some (Inr p, w')" "0 \<le> len"
  shows "m_command p \<noteq> DDHCP_MSG_RELEASE"
proof -
  have "wf_body (m_command p) (unat (m_count p)) (m_body p)"
    using hton_ntoh_lemma [OF assms] by (simp add: wf_mcast_def)
  then show ?thesis by (cases "m_body p") (auto simp: ddhcp_msgs)
qed

end
