(* ===== verification/Block.thy ===== *)
theory Block
  imports Lease Packet
begin

text \<open>
  block.c: the blocks of the network, their states and the claims on them.

  A block pointer is a position in the array; \<open>None\<close> is NULL. The temporary list of
  \<open>block_find_free\<close> and the list \<open>claiming_blocks\<close> hold positions in list order.
  The counter of a claim, the lease numbers and the packet count keep their C widths.
\<close>

subsection \<open>Allocating, owning and freeing\<close>

definition zero_lease :: dhcp_lease where
  "zero_lease = \<lparr>l_chaddr = zero_chaddr, l_state = FREE, l_xid = 0, l_lease_end = 0\<rparr>"

definition block_alloc :: "nat option \<Rightarrow> world \<Rightarrow> (int \<times> world) option" where
  "block_alloc block w = (case block of
       None \<Rightarrow> Some (1, w)
     | Some i \<Rightarrow> do {
         b \<leftarrow> get_block i w;
         if b_addresses b \<noteq> None then Some (0, w)
         else do {
           let (mem, w) = calloc w;
           if \<not> mem then Some (1, w)
           else do {
             let addresses = replicate (unat (b_subnet_len b)) zero_lease;
             let addresses = map (\<lambda>l. l\<lparr>l_state := FREE, l_lease_end := 0\<rparr>) addresses;
             Some (0, put_block i (b\<lparr>b_addresses := Some addresses\<rparr>) w) } } })"

definition block_own :: "nat option \<Rightarrow> world \<Rightarrow> (int \<times> world) option" where
  "block_own block w = (case block of
       None \<Rightarrow> Some (1, w)
     | Some i \<Rightarrow> do {
         (r, w) \<leftarrow> block_alloc block w;
         if r \<noteq> 0 then Some (1, w)
         else do {
           let (now, w) = time_null w;
           b \<leftarrow> get_block i w;
           Some (0, put_block i (b\<lparr>b_state := DDHCP_OURS, b_first_claimed := now,
             b_node_id := c_node_id w\<rparr>) w) } })"

definition block_free :: "nat \<Rightarrow> world \<Rightarrow> world option" where
  "block_free i w = do {
     b \<leftarrow> get_block i w;
     let b = (if b_state b \<noteq> DDHCP_BLOCKED
              then b\<lparr>b_node_id := zero_node_id, b_state := DDHCP_FREE\<rparr> else b);
     let b = (if b_addresses b \<noteq> None
              then b\<lparr>b_addresses := None, b_needless_since := 0\<rparr> else b);
     Some (put_block i b w) }"

subsection \<open>Finding a free block\<close>

text \<open>The walk over the temporary list, counting \<open>r\<close> down.\<close>

fun pick_free :: "nat list \<Rightarrow> u32 \<Rightarrow> nat option" where
  "pick_free [] r = None"
| "pick_free (i # is) r = (if r = 0 then Some i else pick_free is (r - 1))"

definition free_blocks :: "world \<Rightarrow> nat list option" where
  "free_blocks w = foldM
     (\<lambda>i fb. do { b \<leftarrow> get_block i w; Some (if b_state b = DDHCP_FREE then fb @ [i] else fb) })
     [0..<num_blocks w] []"

definition block_find_free :: "world \<Rightarrow> (nat option \<times> world) option" where
  "block_find_free w = do {
     fb \<leftarrow> free_blocks w;
     let num_free_blocks = (of_nat (length fb) :: u32);
     if num_free_blocks > 0 then do {
       let (r, w) = rand_u32 w;
       let r = r mod num_free_blocks;
       Some (pick_free fb r, w) }
     else Some (None, w) }"

subsection \<open>Claiming\<close>

definition claim_list_del :: "nat \<Rightarrow> world \<Rightarrow> world" where
  "claim_list_del i w = w\<lparr>c_claiming_blocks := remove1 i (c_claiming_blocks w),
     c_claiming_blocks_amount := c_claiming_blocks_amount w - 1\<rparr>"

text \<open>One block already in the claiming process.\<close>

definition claim_step :: "nat \<Rightarrow> int \<times> world \<Rightarrow> (int \<times> world) option" where
  "claim_step i = (\<lambda>(num, w). do {
     b \<leftarrow> get_block i w;
     if b_claiming_counts b = 3 then do {
       (r, w) \<leftarrow> block_own (Some i) w;
       (num, w) \<leftarrow>
         (if r > 0 then do {
            b \<leftarrow> get_block i w;
            Some (num, put_block i (b\<lparr>b_claiming_counts := 0\<rparr>) w) }
          else Some (num - 1, w));
       Some (num, claim_list_del i w) }
     else if b_state b \<noteq> DDHCP_CLAIMING then Some (num, claim_list_del i w)
     else Some (num, w) })"

text \<open>One more block for the claiming process.\<close>

definition claim_find :: "int \<Rightarrow> world \<Rightarrow> world option" where
  "claim_find now w = do {
     (block, w) \<leftarrow> block_find_free w;
     case block of
       None \<Rightarrow> Some w
     | Some i \<Rightarrow> do {
         b \<leftarrow> get_block i w;
         let w = put_block i (b\<lparr>b_state := DDHCP_CLAIMING, b_claiming_counts := 0,
           b_timeout := now + uint (c_tentative_timeout w)\<rparr>) w;
         Some (w\<lparr>c_claiming_blocks := c_claiming_blocks w @ [i],
           c_claiming_blocks_amount := c_claiming_blocks_amount w + 1\<rparr>) } }"

text \<open>The inquiry: one payload entry per block, in an array of \<open>claiming_blocks_amount\<close>.\<close>

definition inquire_payload :: "world \<Rightarrow> ddhcp_payload list option" where
  "inquire_payload w = do {
     let n = unat (c_claiming_blocks_amount w);
     ps \<leftarrow> foldM (\<lambda>i ps. do {
         b \<leftarrow> get_block i w;
         if length ps < n
         then Some (ps @ [\<lparr>y_block_index = b_index b, y_timeout = 0, y_reserved = 0\<rparr>])
         else None }) (c_claiming_blocks w) [];
     Some (ps @ replicate (n - length ps) \<lparr>y_block_index = 0, y_timeout = 0, y_reserved = 0\<rparr>) }"

definition count_claim :: "nat \<Rightarrow> world \<Rightarrow> world option" where
  "count_claim i w = do {
     b \<leftarrow> get_block i w;
     Some (put_block i (b\<lparr>b_claiming_counts := b_claiming_counts b + 1\<rparr>) w) }"

definition claim_inquire :: "world \<Rightarrow> (int \<times> world) option" where
  "claim_inquire w = do {
     let (packet, w) = new_ddhcp_packet DDHCP_MSG_INQUIRE w;
     case packet of
       None \<Rightarrow> Some (- ENOMEM, w)
     | Some packet \<Rightarrow> do {
         let (mem, w) = calloc w;
         if \<not> mem then Some (- ENOMEM, w)
         else do {
           ps \<leftarrow> inquire_payload w;
           let packet = packet\<lparr>m_count := c_claiming_blocks_amount w, m_body := Payload ps\<rparr>;
           let w = statistics_record STAT_MCAST_SEND_PKG 1 w;
           let w = statistics_record STAT_MCAST_SEND_INQUIRE 1 w;
           (bytes_send, w) \<leftarrow> send_packet_mcast packet w;
           let w = statistics_record STAT_MCAST_SEND_BYTE bytes_send w;
           w \<leftarrow> (if bytes_send > 0 then foldM count_claim (c_claiming_blocks w) w else Some w);
           Some (0, w) } } }"

definition block_claim :: "int \<Rightarrow> world \<Rightarrow> (int \<times> world) option" where
  "block_claim num w = do {
     let (now, w) = time_null w;
     (num, w) \<leftarrow> foldM claim_step (c_claiming_blocks w) (num, w);
     w \<leftarrow> (if num > uint (c_claiming_blocks_amount w)
          then foldM (\<lambda>_. claim_find now) [0..<nat (num - uint (c_claiming_blocks_amount w))] w
          else Some w);
     if c_claiming_blocks_amount w < 1 then Some (0, w) else claim_inquire w }"

subsection \<open>Counting and choosing\<close>

definition block_num_free_leases :: "world \<Rightarrow> u32 option" where
  "block_num_free_leases w = foldM
     (\<lambda>i free_leases. do {
        b \<leftarrow> get_block i w;
        if b_state b = DDHCP_OURS then do { n \<leftarrow> dhcp_num_free b; Some (free_leases + n) }
        else Some free_leases })
     [0..<num_blocks w] 0"

text \<open>The loop never advances its block pointer.\<close>

definition block_num_owned :: "world \<Rightarrow> u32 option" where
  "block_num_owned w = foldM
     (\<lambda>i owned_blocks. do {
        b \<leftarrow> get_block 0 w;
        Some (if b_state b = DDHCP_OURS then owned_blocks + 1 else owned_blocks) })
     [0..<num_blocks w] 0"

definition find_free_leases_step :: "world \<Rightarrow> nat \<Rightarrow> nat option \<Rightarrow> nat option option" where
  "find_free_leases_step w i selected = do {
     b \<leftarrow> get_block i w;
     if b_state b = DDHCP_OURS then do {
       has_free \<leftarrow> dhcp_has_free b;
       if has_free \<noteq> 0 then
         (case selected of
            Some s \<Rightarrow> do {
              sb \<leftarrow> get_block s w;
              Some (if b_first_claimed sb > b_first_claimed b then Some i else selected) }
          | None \<Rightarrow> Some (Some i))
       else Some selected }
     else Some selected }"

definition block_find_free_leases :: "world \<Rightarrow> nat option option" where
  "block_find_free_leases w = foldM (find_free_leases_step w) [0..<num_blocks w] None"

subsection \<open>Dropping unused blocks\<close>

definition drop_unused_step :: "world \<Rightarrow> nat \<Rightarrow> nat option \<Rightarrow> nat option option" where
  "drop_unused_step w i freeable = do {
     b \<leftarrow> get_block i w;
     if b_state b = DDHCP_OURS then do {
       n \<leftarrow> dhcp_num_free b;
       if n = ucast (c_block_size w) then
         (case freeable of
            Some s \<Rightarrow> do {
              sb \<leftarrow> get_block s w;
              Some (if b_first_claimed sb < b_first_claimed b then Some i else freeable) }
          | None \<Rightarrow> Some (Some i))
       else Some freeable }
     else Some freeable }"

definition block_drop_unused :: "world \<Rightarrow> world option" where
  "block_drop_unused w = do {
     freeable \<leftarrow> foldM (drop_unused_step w) [0..<num_blocks w] None;
     case freeable of
       None \<Rightarrow> Some w
     | Some i \<Rightarrow> do {
         let (now, w) = time_null w;
         b \<leftarrow> get_block i w;
         if b_needless_since b = 0 then
           Some ((put_block i (b\<lparr>b_needless_since := now\<rparr>) w)\<lparr>c_needless_marks := 1\<rparr>)
         else if b_needless_since b \<le> now - uint (c_block_needless_timeout w) then do {
           w \<leftarrow> block_free i w;
           Some (w\<lparr>c_needless_marks := 0\<rparr>) }
         else Some w } }"

definition unmark_step :: "nat \<Rightarrow> world \<Rightarrow> world option" where
  "unmark_step i w = do {
     b \<leftarrow> get_block i w;
     Some (put_block i (b\<lparr>b_needless_since := 0\<rparr>) w) }"

definition block_unmark_needless :: "world \<Rightarrow> world option" where
  "block_unmark_needless w = do {
     w \<leftarrow> foldM unmark_step [0..<num_blocks w] w;
     Some (w\<lparr>c_needless_marks := 0\<rparr>) }"

subsection \<open>Refreshing claims\<close>

definition UPDATE_CLAIM_MAX_BLOCKS :: nat where
  "UPDATE_CLAIM_MAX_BLOCKS = 32"

definition set_timeout :: "int \<Rightarrow> ddhcp_payload list \<Rightarrow> nat \<Rightarrow> world \<Rightarrow> world option" where
  "set_timeout new_timeout ps i w = do {
     y \<leftarrow> nth_opt ps i;
     let k = unat (y_block_index y);
     b \<leftarrow> get_block k w;
     Some (put_block k (b\<lparr>b_timeout := new_timeout\<rparr>) w) }"

definition block_update_claim_send ::
  "ddhcp_mcast_packet \<Rightarrow> ddhcp_payload list \<Rightarrow> int \<Rightarrow> world \<Rightarrow> world option" where
  "block_update_claim_send packet ps new_block_timeout w = do {
     let packet = packet\<lparr>m_body := Payload ps\<rparr>;
     let w = statistics_record STAT_MCAST_SEND_PKG 1 w;
     let w = statistics_record STAT_MCAST_SEND_UPDATECLAIM 1 w;
     (bytes_send, w) \<leftarrow> send_packet_mcast packet w;
     let w = statistics_record STAT_MCAST_SEND_BYTE bytes_send w;
     if bytes_send > 0 then foldM (set_timeout new_block_timeout ps) [0..<unat (m_count packet)] w
     else Some w }"

text \<open>
  The body of the grouping loop: the payload array, whether the group has a claim to
  refresh, and the number of its entries.
\<close>

definition update_claims_step ::
  "ddhcp_mcast_packet \<Rightarrow> int \<Rightarrow> int \<Rightarrow> nat \<Rightarrow> ddhcp_payload list \<times> bool \<times> u8 \<times> world
    \<Rightarrow> (ddhcp_payload list \<times> bool \<times> u8 \<times> world) option" where
  "update_claims_step packet timeout_factor new_block_timeout i = (\<lambda>(ps, send, index, w). do {
     b \<leftarrow> get_block i w;
     if b_state b = DDHCP_OURS then do {
       let send = (if b_timeout b < timeout_factor then True else send);
       ps \<leftarrow> upd_opt ps (unat index)
         \<lparr>y_block_index = b_index b, y_timeout = c_block_timeout w, y_reserved = 0\<rparr>;
       let index = index + 1;
       if index = of_nat UPDATE_CLAIM_MAX_BLOCKS then
         if send then do {
           w \<leftarrow> block_update_claim_send (packet\<lparr>m_count := index\<rparr>) ps new_block_timeout w;
           Some (ps, False, 0, w) }
         else Some (ps, send, 0, w)
       else Some (ps, send, index, w) }
     else Some (ps, send, index, w) })"

definition block_update_claims :: "world \<Rightarrow> world option" where
  "block_update_claims w =
     (let (now, w) = time_null w in
      if c_block_refresh_factor w = 0 then None
      else do {
        let timeout_factor = now + uint (c_block_timeout w)
          - uint (c_block_timeout w) div uint (c_block_refresh_factor w);
        needed \<leftarrow> find_idx (\<lambda>b. b_state b = DDHCP_OURS \<and> b_timeout b < timeout_factor)
          (c_blocks w) [0..<num_blocks w];
        case needed of
          None \<Rightarrow> Some w
        | Some _ \<Rightarrow> do {
            let (packet, w) = new_ddhcp_packet DDHCP_MSG_UPDATECLAIM w;
            case packet of
              None \<Rightarrow> Some w
            | Some packet \<Rightarrow> do {
                let (mem, w) = calloc w;
                if \<not> mem then Some w
                else do {
                  let ps = replicate UPDATE_CLAIM_MAX_BLOCKS
                    \<lparr>y_block_index = 0, y_timeout = 0, y_reserved = 0\<rparr>;
                  let new_block_timeout = now + uint (c_block_timeout w);
                  (ps, send, index, w) \<leftarrow>
                    foldM (update_claims_step packet timeout_factor new_block_timeout)
                      [0..<num_blocks w] (ps, False, 0, w);
                  if send then
                    block_update_claim_send (packet\<lparr>m_count := index\<rparr>) ps new_block_timeout w
                  else Some w } } } })"

subsection \<open>Timeouts\<close>

definition check_block :: "int \<Rightarrow> nat \<Rightarrow> world \<Rightarrow> world option" where
  "check_block now i w = do {
     b \<leftarrow> get_block i w;
     w \<leftarrow> (if b_timeout b < now \<and> b_state b \<noteq> DDHCP_BLOCKED \<and> b_state b \<noteq> DDHCP_FREE
          then block_free i w else Some w);
     b \<leftarrow> get_block i w;
     if b_state b = DDHCP_OURS then do {
       (_, w) \<leftarrow> dhcp_check_timeouts i w;
       Some w }
     else if b_addresses b \<noteq> None then do {
       (free_leases, w) \<leftarrow> dhcp_check_timeouts i w;
       if free_leases = uint (b_subnet_len b) then block_free i w else Some w }
     else Some w }"

definition block_check_timeouts :: "world \<Rightarrow> world option" where
  "block_check_timeouts w = do {
     let (now, w) = time_null w;
     foldM (check_block now) [0..<num_blocks w] w }"

text \<open>The macro \<open>block_free_claims\<close> reinitialises the list head only.\<close>

definition block_free_claims :: "world \<Rightarrow> world" where
  "block_free_claims w = w\<lparr>c_claiming_blocks := []\<rparr>"

end
