(* ===== verification/Dhcp_Packet.thy ===== *)
theory Dhcp_Packet
  imports Options Tools
begin

text \<open>
  dhcp_packet.c: reading a DHCP message out of the receive buffer, writing one, copying one
  into the packet cache, and the cache itself.

  \<open>ntoh_dhcp_packet\<close> walks the options twice, first counting them and then filling an
  array of that size. Both loops are modelled by position in the buffer; a read behind the
  buffer and a write behind the option array are undefined. The program is the one the
  Makefile builds, with \<open>-DNDEBUG\<close>: its assertions are not evaluated. The
  payload of an option read in place is the rest of the buffer from its first byte on.
  The freed options of a failed copy are the empty array, whose reads are undefined; their
  number stays, so that freeing such a packet reads them (\<open>dhcp_packet_free\<close>).
\<close>

subsection \<open>Reading\<close>

definition slice :: "u8 list \<Rightarrow> nat \<Rightarrow> nat \<Rightarrow> u8 list option" where
  "slice buffer off n = take_opt n (drop off buffer)"

text \<open>The first loop: an error code, or the number of options and whether one is a message type.\<close>

function count_options ::
  "u8 list \<Rightarrow> nat \<Rightarrow> nat \<Rightarrow> nat \<Rightarrow> bool \<Rightarrow> (int + nat \<times> bool) option" where
  "count_options buffer len p options message_type =
     (if p < len then do {
        code \<leftarrow> nth_opt buffer p;
        if code = DHCP_CODE_PAD then count_options buffer len (p + 1) options message_type
        else if code = DHCP_CODE_END then Some (Inr (options + 1, message_type))
        else do {
          let message_type = (message_type \<or> code = DHCP_CODE_MESSAGE_TYPE);
          if p + 1 > len then Some (Inl (-4))
          else do {
            l \<leftarrow> nth_opt buffer (p + 1);
            if p + unat l + 2 > len then Some (Inl (-5))
            else count_options buffer len (p + unat l + 2) (options + 1) message_type } } }
      else Some (Inr (options, message_type)))"
  by pat_completeness auto
termination
  by (relation "measure (\<lambda>(buffer, len, p, options, message_type). len - p)") auto

declare count_options.simps [simp del]

text \<open>The second loop: the next free index, an \<open>uint8_t\<close>, and the array.\<close>

function read_options ::
  "u8 list \<Rightarrow> nat \<Rightarrow> nat \<Rightarrow> u8 \<Rightarrow> dhcp_option list \<Rightarrow> (u8 \<times> dhcp_option list) option" where
  "read_options buffer len p i options =
     (if p < len then do {
        code \<leftarrow> nth_opt buffer p;
        if code = DHCP_CODE_END \<or> code = DHCP_CODE_PAD then do {
          options \<leftarrow> upd_opt options (unat i) \<lparr>o_code = code, o_len = 0, o_payload = []\<rparr>;
          if code = DHCP_CODE_END then Some (i + 1, options)
          else read_options buffer len (p + 1) (i + 1) options }
        else do {
          l \<leftarrow> nth_opt buffer (p + 1);
          options \<leftarrow> upd_opt options (unat i)
            \<lparr>o_code = code, o_len = l, o_payload = drop (p + 2) buffer\<rparr>;
          read_options buffer len (p + unat l + 2) (i + 1) options } }
      else Some (i, options))"
  by pat_completeness auto
termination
  by (relation "measure (\<lambda>(buffer, len, p, i, options). len - p)") auto

declare read_options.simps [simp del]

definition ntoh_dhcp_header :: "u8 list \<Rightarrow> dhcp_packet option" where
  "ntoh_dhcp_header buffer = do {
     op \<leftarrow> nth_opt buffer 0;
     htype \<leftarrow> nth_opt buffer 1;
     hlen \<leftarrow> nth_opt buffer 2;
     hops \<leftarrow> nth_opt buffer 3;
     xid \<leftarrow> slice buffer 4 4;
     secs \<leftarrow> slice buffer 8 2;
     flags \<leftarrow> slice buffer 10 2;
     ciaddr \<leftarrow> slice buffer 12 4;
     yiaddr \<leftarrow> slice buffer 16 4;
     siaddr \<leftarrow> slice buffer 20 4;
     giaddr \<leftarrow> slice buffer 24 4;
     chaddr \<leftarrow> slice buffer 28 16;
     sname \<leftarrow> slice buffer 44 64;
     file \<leftarrow> slice buffer 108 128;
     Some \<lparr>d_op = op, d_htype = htype, d_hlen = hlen, d_hops = hops, d_xid = be32 xid,
       d_secs = be16 secs, d_flags = be16 flags, d_chaddr = chaddr, d_sname = sname,
       d_file = file, d_options_len = 0, d_timeout = 0, d_ciaddr = ciaddr, d_yiaddr = yiaddr,
       d_siaddr = siaddr, d_giaddr = giaddr, d_options = []\<rparr> }"

definition magic_cookie :: "u8 list" where
  "magic_cookie = [99, 130, 83, 99]"

definition ntoh_dhcp_packet ::
  "u8 list \<Rightarrow> int \<Rightarrow> world \<Rightarrow> ((int + dhcp_packet) \<times> world) option" where
  "ntoh_dhcp_packet buffer len w =
     (if len < 240 then Some (Inl (-1), w)
      else do {
        packet \<leftarrow> ntoh_dhcp_header buffer;
        cookie \<leftarrow> slice buffer 236 4;
        if cookie \<noteq> magic_cookie then Some (Inl (-7), w)
        else do {
          counted \<leftarrow> count_options buffer (nat len) 240 0 False;
          case counted of
            Inl e \<Rightarrow> Some (Inl e, w)
          | Inr (options, message_type) \<Rightarrow>
              if \<not> message_type then Some (Inl (-6), w)
              else do {
                let (mem, w) = calloc w;
                if \<not> mem then Some (Inl (- ENOMEM), w)
                else do {
                  (_, os) \<leftarrow> read_options buffer (nat len) 240 0 (replicate options zero_option);
                  Some (Inr (packet\<lparr>d_options_len := of_nat options, d_options := os\<rparr>), w) } } } })"

subsection \<open>Writing\<close>

definition store_bytes :: "u8 list \<Rightarrow> nat \<Rightarrow> u8 list \<Rightarrow> u8 list option" where
  "store_bytes buffer off bs =
     (if off + length bs \<le> length buffer
      then Some (take off buffer @ bs @ drop (off + length bs) buffer) else None)"

definition plain_code :: "u8 \<Rightarrow> bool" where
  "plain_code code \<longleftrightarrow> code \<noteq> DHCP_CODE_PAD \<and> code \<noteq> DHCP_CODE_END"

definition dhcp_packet_len :: "dhcp_packet \<Rightarrow> nat option" where
  "dhcp_packet_len packet = foldM
     (\<lambda>i len. do {
        option \<leftarrow> nth_opt (d_options packet) i;
        Some (if plain_code (o_code option) then len + (2 + unat (o_len option)) else len + 1) })
     [0..<unat (d_options_len packet)] 241"

text \<open>One option at \<open>off\<close>; the offset behind it.\<close>

definition write_option ::
  "dhcp_packet \<Rightarrow> nat \<Rightarrow> nat \<times> u8 list \<Rightarrow> (nat \<times> u8 list) option" where
  "write_option packet i = (\<lambda>(off, buffer). do {
     option \<leftarrow> nth_opt (d_options packet) i;
     buffer \<leftarrow> store_bytes buffer off [o_code option];
     if plain_code (o_code option) then do {
       buffer \<leftarrow> store_bytes buffer (off + 1) [o_len option];
       payload \<leftarrow> take_opt (unat (o_len option)) (o_payload option);
       buffer \<leftarrow> store_bytes buffer (off + 2) payload;
       Some (off + 2 + unat (o_len option), buffer) }
     else Some (off + 1, buffer) })"

definition dhcp_header_bytes :: "dhcp_packet \<Rightarrow> u8 list" where
  "dhcp_header_bytes p = [d_op p, d_htype p, d_hlen p, d_hops p] @ put32 (d_xid p)
     @ put16 (d_secs p) @ put16 (d_flags p) @ d_ciaddr p @ d_yiaddr p @ d_siaddr p @ d_giaddr p
     @ d_chaddr p @ d_sname p @ d_file p @ magic_cookie"

definition DHCP_BROADCAST_MASK :: u16 where
  "DHCP_BROADCAST_MASK = 0x8000"

definition dhcp_destination :: "dhcp_packet \<Rightarrow> in_addr option" where
  "dhcp_destination p =
     (if and (d_flags p) DHCP_BROADCAST_MASK = 0 \<and> memcmp [0, 0, 0, 0] (d_ciaddr p) \<noteq> 0
      then Some (d_ciaddr p) else None)"

text \<open>The length is printed on the standard output.\<close>

definition length_text :: "nat \<Rightarrow> io" where
  "length_text len = Std_text (''Message LEN: '' @ dec len @ newline)"

definition dhcp_packet_send :: "dhcp_packet \<Rightarrow> world \<Rightarrow> (int \<times> world) option" where
  "dhcp_packet_send packet w = do {
     len \<leftarrow> dhcp_packet_len packet;
     let (mem, w) = calloc w;
     if \<not> mem then Some (- ENOMEM, w)
     else do {
       buffer \<leftarrow> store_bytes (replicate len 0) 0 (dhcp_header_bytes packet);
       (_, buffer) \<leftarrow> foldM (write_option packet) [0..<unat (d_options_len packet)] (240, buffer);
       buffer \<leftarrow> store_bytes buffer (len - 1) [255];
       let w = w\<lparr>w_out := w_out w @ [length_text len]\<rparr>;
       Some (sendto (Dhcp_send (dhcp_destination packet) buffer) w) } }"

subsection \<open>The packet cache\<close>

text \<open>
  Freeing a packet with the payloads of its options reads every option the packet counts.
  What it frees is not used again, so it changes nothing else.
\<close>

definition dhcp_packet_free :: "dhcp_packet \<Rightarrow> unit option" where
  "dhcp_packet_free packet =
     foldM (\<lambda>i _. do { _ \<leftarrow> nth_opt (d_options packet) i; Some () }) [0..<unat (d_options_len packet)] ()"

definition copy_option ::
  "dhcp_packet \<Rightarrow> nat \<Rightarrow> dhcp_option list option \<times> world
    \<Rightarrow> (dhcp_option list option \<times> world) option" where
  "copy_option src i = (\<lambda>(copied, w). case copied of
       None \<Rightarrow> Some (None, w)
     | Some os \<Rightarrow> do {
         option \<leftarrow> nth_opt (d_options src) i;
         let (mem, w) = calloc w;
         if \<not> mem then Some (None, w)
         else do {
           payload \<leftarrow> take_opt (unat (o_len option)) (o_payload option);
           Some (Some (os @ [option\<lparr>o_payload := payload\<rparr>]), w) } })"

definition dhcp_packet_copy :: "dhcp_packet \<Rightarrow> world \<Rightarrow> ((int \<times> dhcp_packet) \<times> world) option" where
  "dhcp_packet_copy src w = do {
     let (mem, w) = calloc w;
     if \<not> mem then Some ((1, src\<lparr>d_options := []\<rparr>), w)
     else do {
       (copied, w) \<leftarrow> foldM (copy_option src) [0..<unat (d_options_len src)] (Some [], w);
       case copied of
         None \<Rightarrow> Some ((- ENOMEM, src\<lparr>d_options := []\<rparr>), w)
       | Some os \<Rightarrow> Some ((0, src\<lparr>d_options := os\<rparr>), w) } }"

definition dhcp_packet_list_add :: "dhcp_packet \<Rightarrow> world \<Rightarrow> (int \<times> world) option" where
  "dhcp_packet_list_add packet w = do {
     let (now, w) = time_null w;
     let (mem, w) = calloc w;
     if \<not> mem then Some (1, w)
     else do {
       ((_, copy), w) \<leftarrow> dhcp_packet_copy packet w;
       let copy = copy\<lparr>d_timeout := now + 120\<rparr>;
       Some (0, w\<lparr>c_dhcp_packet_cache := c_dhcp_packet_cache w @ [copy]\<rparr>) } }"

text \<open>The packet found, if any, and the list without it.\<close>

fun dhcp_packet_list_find ::
  "dhcp_packet list \<Rightarrow> u32 \<Rightarrow> u8 list \<Rightarrow> dhcp_packet option \<times> dhcp_packet list" where
  "dhcp_packet_list_find [] xid chaddr = (None, [])"
| "dhcp_packet_list_find (packet # ps) xid chaddr =
     (if d_xid packet = xid \<and> memcmp (d_chaddr packet) chaddr = 0 then (Some packet, ps)
      else let (r, qs) = dhcp_packet_list_find ps xid chaddr in (r, packet # qs))"

definition dhcp_packet_list_free :: "world \<Rightarrow> world option" where
  "dhcp_packet_list_free w = do {
     _ \<leftarrow> foldM (\<lambda>packet _. dhcp_packet_free packet) (c_dhcp_packet_cache w) ();
     Some (w\<lparr>c_dhcp_packet_cache := []\<rparr>) }"

definition dhcp_packet_message_type :: "dhcp_packet \<Rightarrow> u8 option" where
  "dhcp_packet_message_type packet = do {
     r \<leftarrow> find_idx (\<lambda>option. o_code option = DHCP_CODE_MESSAGE_TYPE) (d_options packet)
       [0..<unat (d_options_len packet)];
     case r of
       Some i \<Rightarrow> nth_opt (o_payload (d_options packet ! i)) 0
     | None \<Rightarrow> Some 0 }"

fun drop_overdue :: "int \<Rightarrow> dhcp_packet list \<Rightarrow> dhcp_packet list option" where
  "drop_overdue now [] = Some []"
| "drop_overdue now (packet # ps) =
     (if d_timeout packet < now then do { _ \<leftarrow> dhcp_packet_free packet; drop_overdue now ps }
      else map_option ((#) packet) (drop_overdue now ps))"

definition dhcp_packet_list_timeout :: "world \<Rightarrow> world option" where
  "dhcp_packet_list_timeout w = do {
     let (now, w) = time_null w;
     cache \<leftarrow> drop_overdue now (c_dhcp_packet_cache w);
     Some (w\<lparr>c_dhcp_packet_cache := cache\<rparr>) }"

text \<open>Which packets may be freed.\<close>

definition whole :: "dhcp_packet \<Rightarrow> bool" where
  "whole p \<longleftrightarrow> unat (d_options_len p) \<le> length (d_options p)"

lemma dhcp_packet_free_eq: "dhcp_packet_free p = (if whole p then Some () else None)"
proof (cases "whole p")
  case True
  then have "foldM (\<lambda>i _. do { _ \<leftarrow> nth_opt (d_options p) i; Some () }) [0..<unat (d_options_len p)] () =
      foldM (\<lambda>i _. Some ()) [0..<unat (d_options_len p)] ()"
    by (intro foldM_cong) (simp add: whole_def)
  then show ?thesis using True foldM_total [of "[0..<unat (d_options_len p)]" "\<lambda>_ _. Some ()" "\<lambda>_ _. ()" "()"]
    by (simp add: dhcp_packet_free_def)
next
  case False
  let ?n = "length (d_options p)"
  have "[0..<unat (d_options_len p)] = [0..<?n] @ ?n # [Suc ?n..<unat (d_options_len p)]"
    using False upt_add_eq_append [of 0 ?n "unat (d_options_len p) - ?n"]
    by (simp add: whole_def upt_conv_Cons)
  moreover have "foldM (\<lambda>i _. do { _ \<leftarrow> nth_opt (d_options p) i; Some () }) (?n # is) = (\<lambda>_. None)" for "is"
    by (rule ext) (simp add: nth_opt_def)
  ultimately show ?thesis using False by (simp add: dhcp_packet_free_def foldM_append)
qed

lemma drop_overdue_eq:
  "drop_overdue now ps = (if \<forall>p \<in> set ps. d_timeout p < now \<longrightarrow> whole p
     then Some (filter (\<lambda>p. \<not> d_timeout p < now) ps) else None)"
  by (induction ps) (auto simp: dhcp_packet_free_eq)

definition whole_cache :: "world \<Rightarrow> bool" where
  "whole_cache w \<longleftrightarrow> (\<forall>p \<in> set (c_dhcp_packet_cache w). whole p)"

text \<open>The packets that are thrown away must be whole, the others need not.\<close>

lemma dhcp_packet_list_timeout_eq:
  "dhcp_packet_list_timeout w = (if \<forall>p \<in> set (c_dhcp_packet_cache w). d_timeout p < shd (w_times w) \<longrightarrow> whole p
     then Some (w\<lparr>w_times := stl (w_times w),
       c_dhcp_packet_cache := filter (\<lambda>p. \<not> d_timeout p < shd (w_times w)) (c_dhcp_packet_cache w)\<rparr>)
     else None)"
  by (auto simp: dhcp_packet_list_timeout_def time_null_def drop_overdue_eq)

lemma dhcp_packet_list_free_eq:
  "dhcp_packet_list_free w = (if whole_cache w then Some (w\<lparr>c_dhcp_packet_cache := []\<rparr>) else None)"
proof -
  have "foldM (\<lambda>p _. dhcp_packet_free p) ps () = (if \<forall>p \<in> set ps. whole p then Some () else None)" for ps
    by (induction ps) (simp_all add: dhcp_packet_free_eq)
  then show ?thesis by (simp add: dhcp_packet_list_free_def whole_cache_def)
qed


subsection \<open>What the two passes read\<close>

text \<open>
  \<open>walk buffer len p os\<close>: from position \<open>p\<close> the buffer holds the options \<open>os\<close>,
  padding and the end mark included, each inside the message.
\<close>

inductive walk :: "u8 list \<Rightarrow> nat \<Rightarrow> nat \<Rightarrow> dhcp_option list \<Rightarrow> bool" for buffer len where
  stop: "len \<le> p \<Longrightarrow> walk buffer len p []"
| end_mark: "p < len \<Longrightarrow> nth_opt buffer p = Some DHCP_CODE_END \<Longrightarrow>
    walk buffer len p [\<lparr>o_code = DHCP_CODE_END, o_len = 0, o_payload = []\<rparr>]"
| pad: "p < len \<Longrightarrow> nth_opt buffer p = Some DHCP_CODE_PAD \<Longrightarrow> walk buffer len (p + 1) os \<Longrightarrow>
    walk buffer len p (\<lparr>o_code = DHCP_CODE_PAD, o_len = 0, o_payload = []\<rparr> # os)"
| plain: "nth_opt buffer p = Some code \<Longrightarrow> plain_code code \<Longrightarrow> nth_opt buffer (p + 1) = Some l \<Longrightarrow>
    p + unat l + 2 \<le> len \<Longrightarrow> walk buffer len (p + unat l + 2) os \<Longrightarrow>
    walk buffer len p (\<lparr>o_code = code, o_len = l, o_payload = drop (p + 2) buffer\<rparr> # os)"

definition unpadded :: "dhcp_option list \<Rightarrow> dhcp_option list" where
  "unpadded os = filter (\<lambda>x. o_code x \<noteq> DHCP_CODE_PAD) os"

definition has_message_type :: "dhcp_option list \<Rightarrow> bool" where
  "has_message_type os \<longleftrightarrow> (\<exists>x \<in> set os. o_code x = DHCP_CODE_MESSAGE_TYPE)"

lemma PAD_END_neq [simp]:
  "DHCP_CODE_PAD \<noteq> DHCP_CODE_END" "DHCP_CODE_END \<noteq> DHCP_CODE_PAD"
  "DHCP_CODE_END \<noteq> DHCP_CODE_MESSAGE_TYPE" "DHCP_CODE_PAD \<noteq> DHCP_CODE_MESSAGE_TYPE"
  "DHCP_CODE_MESSAGE_TYPE \<noteq> DHCP_CODE_END" "DHCP_CODE_MESSAGE_TYPE \<noteq> DHCP_CODE_PAD"
  by (simp_all add: dhcp_codes)

lemma unpadded_simps [simp]:
  "unpadded [] = []"
  "unpadded (x # os) = (if o_code x = DHCP_CODE_PAD then unpadded os else x # unpadded os)"
  by (simp_all add: unpadded_def)

lemma has_message_type_simps [simp]:
  "\<not> has_message_type []"
  "has_message_type (x # os) \<longleftrightarrow> o_code x = DHCP_CODE_MESSAGE_TYPE \<or> has_message_type os"
  by (simp_all add: has_message_type_def)

text \<open>The steps of the two loops, by what is found at the position.\<close>

lemma count_options_steps:
  "len \<le> p \<Longrightarrow> count_options buffer len p n mt = Some (Inr (n, mt))"
  "p < len \<Longrightarrow> nth_opt buffer p = None \<Longrightarrow> count_options buffer len p n mt = None"
  "p < len \<Longrightarrow> nth_opt buffer p = Some DHCP_CODE_END \<Longrightarrow>
    count_options buffer len p n mt = Some (Inr (n + 1, mt))"
  "p < len \<Longrightarrow> nth_opt buffer p = Some DHCP_CODE_PAD \<Longrightarrow>
    count_options buffer len p n mt = count_options buffer len (p + 1) n mt"
  "p < len \<Longrightarrow> nth_opt buffer p = Some code \<Longrightarrow> plain_code code \<Longrightarrow>
    count_options buffer len p n mt = do {
      l \<leftarrow> nth_opt buffer (p + 1);
      if p + unat l + 2 > len then Some (Inl (-5))
      else count_options buffer len (p + unat l + 2) (n + 1) (mt \<or> code = DHCP_CODE_MESSAGE_TYPE) }"
  by (subst count_options.simps, simp add: plain_code_def Let_def)+

lemma read_options_steps:
  "len \<le> p \<Longrightarrow> read_options buffer len p i os = Some (i, os)"
  "p < len \<Longrightarrow> nth_opt buffer p = Some DHCP_CODE_END \<Longrightarrow>
    read_options buffer len p i os = do {
      os \<leftarrow> upd_opt os (unat i) \<lparr>o_code = DHCP_CODE_END, o_len = 0, o_payload = []\<rparr>;
      Some (i + 1, os) }"
  "p < len \<Longrightarrow> nth_opt buffer p = Some DHCP_CODE_PAD \<Longrightarrow>
    read_options buffer len p i os = do {
      os \<leftarrow> upd_opt os (unat i) \<lparr>o_code = DHCP_CODE_PAD, o_len = 0, o_payload = []\<rparr>;
      read_options buffer len (p + 1) (i + 1) os }"
  "p < len \<Longrightarrow> nth_opt buffer p = Some code \<Longrightarrow> plain_code code \<Longrightarrow> nth_opt buffer (p + 1) = Some l \<Longrightarrow>
    read_options buffer len p i os = do {
      os \<leftarrow> upd_opt os (unat i) \<lparr>o_code = code, o_len = l, o_payload = drop (p + 2) buffer\<rparr>;
      read_options buffer len (p + unat l + 2) (i + 1) os }"
  by (subst read_options.simps, simp add: plain_code_def)+

text \<open>The first pass succeeds exactly on such a buffer, and counts what is not padding.\<close>

lemma walk_count:
  "walk buffer len p os \<Longrightarrow> count_options buffer len p n mt =
    Some (Inr (n + length (unpadded os), mt \<or> has_message_type os))"
proof (induction arbitrary: n mt rule: walk.induct)
  case (plain p code l os)
  then show ?case
    by (simp add: count_options_steps(5) plain_code_def disj_commute disj_left_commute)
qed (simp_all add: count_options_steps)

lemma count_walk:
  "count_options buffer len p n mt = Some (Inr r) \<Longrightarrow> \<exists>os. walk buffer len p os"
proof (induction buffer len p n mt rule: count_options.induct)
  case (1 buffer len p n mt)
  show ?case
  proof (cases "p < len")
    case False
    then show ?thesis using walk.stop [of len p buffer] by auto
  next
    case True
    with "1.prems" obtain code where code: "nth_opt buffer p = Some code"
      by (cases "nth_opt buffer p") (auto simp: count_options_steps(2))
    consider "code = DHCP_CODE_END" | "code = DHCP_CODE_PAD" | "plain_code code"
      by (auto simp: plain_code_def)
    then show ?thesis
    proof cases
      case 1
      then show ?thesis using True code walk.end_mark by blast
    next
      case 2
      then have "\<exists>os. walk buffer len (p + 1) os"
        using "1.IH"(1) "1.prems" True code by (simp add: count_options_steps)
      then show ?thesis using 2 True code walk.pad by blast
    next
      case 3
      then have nc: "code \<noteq> DHCP_CODE_PAD" "code \<noteq> DHCP_CODE_END" by (auto simp: plain_code_def)
      from 3 True code "1.prems" obtain l where l: "nth_opt buffer (p + 1) = Some l" "p + unat l + 2 \<le> len"
        "count_options buffer len (p + unat l + 2) (n + 1) (mt \<or> code = DHCP_CODE_MESSAGE_TYPE) = Some (Inr r)"
        by (auto simp: count_options_steps(5) bind_eq_Some_conv split: if_splits)
      then have "\<exists>os. walk buffer len (p + unat l + 2) os"
        using "1.IH"(2) [OF True code nc refl _ l(1)] True by simp
      then show ?thesis using 3 l code walk.plain by blast
    qed
  qed
qed

lemma unat_u8_Suc: "unat (i :: u8) < 255 \<Longrightarrow> unat (i + 1) = Suc (unat i)"
  by (simp add: unat_word_ariths)

lemma store_step:
  "k < length arr \<Longrightarrow>
    take (Suc k) (arr[k := x]) @ os @ drop (Suc k + length os) (arr[k := x])
    = take k arr @ (x # os) @ drop (k + length (x # os)) arr"
  by (simp add: take_Suc_conv_app_nth)

text \<open>The second pass stores all of them, so the array must have room for the padding too.\<close>

definition filled :: "u8 \<Rightarrow> dhcp_option list \<Rightarrow> dhcp_option list \<Rightarrow> (u8 \<times> dhcp_option list) option" where
  "filled i arr os =
    (if unat i + length os \<le> length arr
     then Some (i + of_nat (length os), take (unat i) arr @ os @ drop (unat i + length os) arr)
     else None)"

lemma filled_step:
  assumes "unat i \<le> length arr" "length arr \<le> 255"
  shows "do { arr \<leftarrow> upd_opt arr (unat i) x; filled (i + 1) arr os } = filled i arr (x # os)"
proof (cases "unat i < length arr")
  case True
  then have "unat (i + 1) = Suc (unat i)" using assms by (intro unat_u8_Suc) simp
  then show ?thesis
    using True store_step [OF True, of x os] by (simp add: filled_def add.assoc)
next
  case False
  then show ?thesis using assms by (simp add: upd_opt_def filled_def)
qed

text \<open>What the second pass does: it writes the options one after the other, the index wraps.\<close>

fun put_options :: "u8 \<Rightarrow> dhcp_option list \<Rightarrow> dhcp_option list \<Rightarrow> (u8 \<times> dhcp_option list) option" where
  "put_options i arr [] = Some (i, arr)"
| "put_options i arr (x # os) = do { arr \<leftarrow> upd_opt arr (unat i) x; put_options (i + 1) arr os }"

lemma walk_read: "walk buffer len p os \<Longrightarrow> read_options buffer len p i arr = put_options i arr os"
  by (induction arbitrary: i arr rule: walk.induct) (simp_all add: read_options_steps)

lemma put_filled: "unat i \<le> length arr \<Longrightarrow> length arr \<le> 255 \<Longrightarrow> put_options i arr os = filled i arr os"
proof (induction os arbitrary: i arr)
  case (Cons x os)
  have "put_options (i + 1) (arr[unat i := x]) os = filled (i + 1) (arr[unat i := x]) os" if "unat i < length arr"
    using Cons.prems that unat_u8_Suc [of i] by (intro Cons.IH) simp_all
  then show ?case using filled_step [OF Cons.prems, of x os, symmetric] by (simp add: upd_opt_def)
qed (simp add: filled_def)

text \<open>As long as no write leaves the array, option \<open>k\<close> goes to the place \<open>k mod 256\<close>.\<close>

definition stored_at :: "nat \<Rightarrow> dhcp_option list \<Rightarrow> dhcp_option list \<Rightarrow> dhcp_option list" where
  "stored_at k os arr = fold (\<lambda>(k, x) arr. arr[k mod 256 := x]) (enumerate k os) arr"

lemma unat_u8_next: "unat (i :: u8) = k mod 256 \<Longrightarrow> unat (i + 1) = Suc k mod 256"
  using unat_word_ariths(1) [of i 1] by (simp add: mod_Suc_eq)

lemma put_stored:
  "put_options i arr os = Some r \<Longrightarrow> unat i = k mod 256 \<Longrightarrow> r = (i + of_nat (length os), stored_at k os arr)"
proof (induction os arbitrary: i arr k)
  case (Cons x os)
  from Cons.prems(1) have "put_options (i + 1) (arr[unat i := x]) os = Some r"
    by (simp add: upd_opt_def split: if_split_asm)
  from Cons.IH [OF this unat_u8_next [OF Cons.prems(2)]]
  have "r = (i + 1 + of_nat (length os), stored_at (Suc k) os (arr[unat i := x]))" .
  moreover have "stored_at (Suc k) os (arr[unat i := x]) = stored_at k (x # os) arr"
    unfolding stored_at_def Cons.prems(2) by simp
  ultimately show ?case by (simp add: add.assoc)
qed (simp add: stored_at_def)

lemma put_room: "256 \<le> length arr \<Longrightarrow> put_options i arr os \<noteq> None"
proof (induction os arbitrary: i arr)
  case (Cons x os)
  moreover have "unat i < length arr" using unat_u8_less [of i] Cons.prems by simp
  ultimately show ?case by (simp add: upd_opt_def)
qed simp

subsection \<open>The reader as a whole\<close>

lemma unpadded_length: "length (unpadded os) \<le> length os"
  by (simp add: unpadded_def)

lemma unpadded_all: "length os \<le> length (unpadded os) \<longleftrightarrow> unpadded os = os"
  by (metis filter_id_conv le_antisym length_filter_less linorder_not_le order_refl unpadded_def unpadded_length)

lemma unpadded_id: "unpadded os = os \<longleftrightarrow> (\<forall>x \<in> set os. o_code x \<noteq> DHCP_CODE_PAD)"
  by (simp add: unpadded_def filter_id_conv)

text \<open>
  The array the second pass leaves behind. It is the options themselves when none is padding and
  there are at most 255.
\<close>

definition option_array :: "dhcp_option list \<Rightarrow> dhcp_option list" where
  "option_array os = stored_at 0 os (replicate (length (unpadded os)) zero_option)"

text \<open>The second pass leaves its array exactly when there is padding and the array has fewer than 256 places.\<close>

lemma two_passes:
  assumes "walk buffer len p os"
  defines "n \<equiv> length (unpadded os)"
  shows "read_options buffer len p 0 (replicate n zero_option) =
    (if unpadded os \<noteq> os \<and> n < 256 then None else Some (of_nat (length os), option_array os))"
proof (cases "n < 256")
  case True
  then have f: "put_options 0 (replicate n zero_option) os = filled 0 (replicate n zero_option) os"
    by (intro put_filled) simp_all
  show ?thesis
  proof (cases "unpadded os = os")
    case eq: True
    then have "filled 0 (replicate n zero_option) os \<noteq> None" by (simp add: filled_def n_def)
    then obtain r where "put_options 0 (replicate n zero_option) os = Some r" using f by auto
    with put_stored [OF this, of 0] eq show ?thesis by (simp add: walk_read [OF assms(1)] option_array_def n_def)
  next
    case False
    then have "\<not> length os \<le> n" using unpadded_all [of os] by (simp add: n_def)
    with False True f show ?thesis by (simp add: walk_read [OF assms(1)] filled_def)
  qed
next
  case False
  then obtain r where "put_options 0 (replicate n zero_option) os = Some r"
    using put_room [of "replicate n zero_option" 0 os] by auto
  with put_stored [OF this, of 0] False show ?thesis by (simp add: walk_read [OF assms(1)] option_array_def n_def)
qed

lemma option_array_id:
  assumes "unpadded os = os" "length os \<le> 255"
  shows "option_array os = os"
proof -
  have "put_options 0 (replicate (length os) zero_option) os = Some (of_nat (length os), os)"
    using assms(2) put_filled [of 0 "replicate (length os) zero_option" os] by (simp add: filled_def)
  from put_stored [OF this, of 0] show ?thesis by (simp add: option_array_def assms(1))
qed

lemma stored_at_array:
  "length (stored_at k os arr) = length arr" "set (stored_at k os arr) \<subseteq> set arr \<union> set os"
proof -
  have "length (stored_at k os arr) = length arr \<and> set (stored_at k os arr) \<subseteq> set arr \<union> set os"
  proof (induction os arbitrary: k arr)
    case (Cons x os)
    have "set (arr[k mod 256 := x]) \<subseteq> insert x (set arr)" by (rule set_update_subset_insert)
    then show ?case using Cons.IH [of "Suc k" "arr[k mod 256 := x]"] by (auto simp: stored_at_def)
  qed (simp add: stored_at_def)
  then show "length (stored_at k os arr) = length arr" "set (stored_at k os arr) \<subseteq> set arr \<union> set os" by blast+
qed

text \<open>Which buffers have a readable header, and what it is.\<close>

lemma slice_ok: "off + n \<le> length buffer \<Longrightarrow> slice buffer off n = Some (take n (drop off buffer))"
  by (simp add: slice_def)

lemma header_ok: "240 \<le> length buffer \<Longrightarrow> \<exists>h. ntoh_dhcp_header buffer = Some h"
proof -
  assume len: "240 \<le> length buffer"
  then have "nth_opt buffer 0 = Some (buffer ! 0)" by (intro nth_opt_Some) linarith
  with len show ?thesis by (simp add: ntoh_dhcp_header_def slice_ok)
qed

text \<open>
  The complete behaviour on a message inside the buffer whose options are in bounds. The number
  of options is kept in eight bits.
\<close>

lemma ntoh_dhcp_packet_eq:
  assumes len: "240 \<le> len" and h: "ntoh_dhcp_header buffer = Some h"
    and cookie: "slice buffer 236 4 = Some magic_cookie" and walk: "walk buffer (nat len) 240 os"
    and mt: "has_message_type os" and mem: "shd (w_allocs w)"
  shows "ntoh_dhcp_packet buffer len w =
    (if unpadded os \<noteq> os \<and> length (unpadded os) < 256 then None
     else Some (Inr (h\<lparr>d_options_len := of_nat (length (unpadded os)), d_options := option_array os\<rparr>),
            w\<lparr>w_allocs := stl (w_allocs w)\<rparr>))"
proof -
  have count: "count_options buffer (nat len) 240 0 False = Some (Inr (length (unpadded os), True))"
    using walk_count [OF walk, of 0 False] mt by simp
  show ?thesis using len h cookie count mem two_passes [OF walk] by (simp add: ntoh_dhcp_packet_def calloc_def)
qed

text \<open>What an accepted message looks like.\<close>

lemma ntoh_dhcp_packet_accepts:
  assumes "ntoh_dhcp_packet buffer len w = Some (Inr p, w')"
  shows "\<exists>os. walk buffer (nat len) 240 os \<and> (unpadded os = os \<or> 256 \<le> length (unpadded os)) \<and> has_message_type os \<and>
    240 \<le> len \<and> w' = w\<lparr>w_allocs := stl (w_allocs w)\<rparr> \<and>
    (\<exists>h. ntoh_dhcp_header buffer = Some h \<and>
      p = h\<lparr>d_options_len := of_nat (length (unpadded os)), d_options := option_array os\<rparr>)"
proof -
  from assms obtain h counted where len: "240 \<le> len" and h: "ntoh_dhcp_header buffer = Some h"
    and cookie: "slice buffer 236 4 = Some magic_cookie"
    and counted: "count_options buffer (nat len) 240 0 False = Some counted"
    by (auto simp: ntoh_dhcp_packet_def bind_eq_Some_conv split: if_splits)
  from assms obtain options where count: "count_options buffer (nat len) 240 0 False = Some (Inr (options, True))"
    and mem: "shd (w_allocs w)"
    using len h cookie counted
    by (cases counted) (auto simp: ntoh_dhcp_packet_def calloc_def split: if_splits)
  obtain os where walk: "walk buffer (nat len) 240 os" using count_walk [OF count] by blast
  have mt: "has_message_type os" using walk_count [OF walk, of 0 False] count by simp
  show ?thesis
    using ntoh_dhcp_packet_eq [OF len h cookie walk mt mem] assms walk mt len h
    by (intro exI [of _ os]) (auto split: if_splits)
qed

text \<open>The first pass reads one byte too far at most: a message shorter than the buffer is safe.\<close>

lemma count_options_total:
  "len < length buffer \<Longrightarrow> \<exists>r. count_options buffer len p n mt = Some r"
proof (induction buffer len p n mt rule: count_options.induct)
  case (1 buffer len p n mt)
  show ?case
  proof (cases "p < len")
    case False
    then show ?thesis by (simp add: count_options_steps)
  next
    case True
    then have code: "nth_opt buffer p = Some (buffer ! p)" and l: "nth_opt buffer (p + 1) = Some (buffer ! (p + 1))"
      using "1.prems" by auto
    consider "buffer ! p = DHCP_CODE_END" | "buffer ! p = DHCP_CODE_PAD" | "plain_code (buffer ! p)"
      by (auto simp: plain_code_def)
    then show ?thesis
    proof cases
      case 1
      then show ?thesis using True code by (simp add: count_options_steps)
    next
      case 2
      then show ?thesis
        using True code "1.IH"(1) [OF True code] "1.prems" by (simp add: count_options_steps)
    next
      case 3
      then have nc: "buffer ! p \<noteq> DHCP_CODE_PAD" "buffer ! p \<noteq> DHCP_CODE_END" by (auto simp: plain_code_def)
      show ?thesis
        using True code l 3 "1.IH"(2) [OF True code nc refl _ l] "1.prems"
        by (simp add: count_options_steps(5))
    qed
  qed
qed

text \<open>
  When the reader is undefined on a message that ends before the buffer does: it has padding,
  and fewer than 256 options besides.
\<close>

definition padded :: "u8 list \<Rightarrow> int \<Rightarrow> bool" where
  "padded buffer len \<longleftrightarrow> 240 \<le> len \<and> slice buffer 236 4 = Some magic_cookie \<and>
     (\<exists>os. walk buffer (nat len) 240 os \<and> has_message_type os \<and> unpadded os \<noteq> os \<and> length (unpadded os) < 256)"

lemma ntoh_dhcp_packet_None:
  assumes len: "len < int (length buffer)" and none: "ntoh_dhcp_packet buffer len w = None"
  shows "padded buffer len"
proof -
  have 240: "240 \<le> len" using none by (auto simp: ntoh_dhcp_packet_def split: if_splits)
  then have l: "240 \<le> length buffer" "nat len < length buffer" using len by linarith+
  obtain h where h: "ntoh_dhcp_header buffer = Some h" using header_ok [OF l(1)] by blast
  have "slice buffer 236 4 = Some (take 4 (drop 236 buffer))" using l(1) by (intro slice_ok) simp
  then have cookie: "slice buffer 236 4 = Some magic_cookie"
    using none 240 h by (auto simp: ntoh_dhcp_packet_def split: if_splits)
  obtain counted where counted: "count_options buffer (nat len) 240 0 False = Some counted"
    using count_options_total [OF l(2)] by blast
  then obtain n where count: "count_options buffer (nat len) 240 0 False = Some (Inr (n, True))" and mem: "shd (w_allocs w)"
    using none 240 h cookie by (cases counted) (auto simp: ntoh_dhcp_packet_def calloc_def split: if_splits)
  obtain os where walk: "walk buffer (nat len) 240 os" using count_walk [OF count] by blast
  have mt: "has_message_type os" using walk_count [OF walk, of 0 False] count by simp
  show ?thesis
    using ntoh_dhcp_packet_eq [OF 240 h cookie walk mt mem] none 240 cookie walk mt
    by (auto simp: padded_def split: if_splits)
qed

subsection \<open>What is written\<close>

definition option_bytes :: "dhcp_option \<Rightarrow> u8 list" where
  "option_bytes x = (if plain_code (o_code x)
     then o_code x # o_len x # take (unat (o_len x)) (o_payload x) else [o_code x])"

text \<open>The struct's arrays have their sizes and every option may be read.\<close>

definition readable :: "dhcp_option \<Rightarrow> bool" where
  "readable x \<longleftrightarrow> unat (o_len x) \<le> length (o_payload x)"

definition wf_dhcp_header :: "dhcp_packet \<Rightarrow> bool" where
  "wf_dhcp_header p \<longleftrightarrow> length (d_ciaddr p) = 4 \<and> length (d_yiaddr p) = 4 \<and>
     length (d_siaddr p) = 4 \<and> length (d_giaddr p) = 4 \<and> length (d_chaddr p) = 16 \<and>
     length (d_sname p) = 64 \<and> length (d_file p) = 128"

definition wf_dhcp_packet :: "dhcp_packet \<Rightarrow> bool" where
  "wf_dhcp_packet p \<longleftrightarrow> wf_dhcp_header p \<and> unat (d_options_len p) \<le> length (d_options p) \<and>
     (\<forall>x \<in> set (take (unat (d_options_len p)) (d_options p)). readable x)"

lemma free_wf: "wf_dhcp_packet p \<Longrightarrow> dhcp_packet_free p = Some ()"
  by (simp add: dhcp_packet_free_eq whole_def wf_dhcp_packet_def)

definition sent_options :: "dhcp_packet \<Rightarrow> dhcp_option list" where
  "sent_options p = take (unat (d_options_len p)) (d_options p)"

definition dhcp_packet_bytes :: "dhcp_packet \<Rightarrow> u8 list" where
  "dhcp_packet_bytes p = dhcp_header_bytes p @ concat (map option_bytes (sent_options p)) @ [DHCP_CODE_END]"

lemma length_dhcp_header_bytes [simp]: "wf_dhcp_header p \<Longrightarrow> length (dhcp_header_bytes p) = 240"
  by (simp add: dhcp_header_bytes_def wf_dhcp_header_def magic_cookie_def)

lemma length_option_bytes:
  "readable x \<Longrightarrow> length (option_bytes x) = (if plain_code (o_code x) then 2 + unat (o_len x) else 1)"
  by (simp add: option_bytes_def readable_def)

lemma dhcp_packet_len_eq:
  assumes "wf_dhcp_packet p"
  shows "dhcp_packet_len p = Some (241 + length (concat (map option_bytes (sent_options p))))"
proof -
  have "foldM (\<lambda>i len. do {
        option \<leftarrow> nth_opt (d_options p) i;
        Some (if plain_code (o_code option) then len + (2 + unat (o_len option)) else len + 1) })
      [0..<n] 241 = Some (241 + length (concat (map option_bytes (take n (d_options p)))))"
    if "n \<le> unat (d_options_len p)" for n
    using that
  proof (induction n)
    case 0
    then show ?case by simp
  next
    case (Suc n)
    then have n: "n < length (d_options p)" "n < unat (d_options_len p)"
      using assms by (auto simp: wf_dhcp_packet_def)
    have "d_options p ! n \<in> set (take (unat (d_options_len p)) (d_options p))"
      using n by (auto simp: in_set_conv_nth)
    then have "readable (d_options p ! n)" using assms by (simp add: wf_dhcp_packet_def)
    with Suc n show ?case
      by (simp add: foldM_append take_Suc_conv_app_nth length_option_bytes)
  qed
  from this [OF order_refl] show ?thesis by (simp add: dhcp_packet_len_def sent_options_def)
qed

lemma store_bytes_append:
  "length xs = off \<Longrightarrow> length bs \<le> length ys \<Longrightarrow>
    store_bytes (xs @ ys) off bs = Some (xs @ bs @ drop (length bs) ys)"
  by (simp add: store_bytes_def)

lemma write_option_eq:
  assumes "nth_opt (d_options p) i = Some x" "readable x" "length xs = off"
    "length (option_bytes x) \<le> length ys"
  shows "write_option p i (off, xs @ ys) =
    Some (off + length (option_bytes x), xs @ option_bytes x @ drop (length (option_bytes x)) ys)"
proof (cases "plain_code (o_code x)")
  case True
  let ?pl = "take (unat (o_len x)) (o_payload x)"
  have len: "2 + unat (o_len x) \<le> length ys" using assms True by (simp add: length_option_bytes)
  have s1: "store_bytes (xs @ ys) off [o_code x] = Some (xs @ [o_code x] @ drop 1 ys)"
    using store_bytes_append [of xs off "[o_code x]" ys] assms(3) len by simp
  have s2: "store_bytes (xs @ [o_code x] @ drop 1 ys) (off + 1) [o_len x]
      = Some (xs @ [o_code x, o_len x] @ drop 2 ys)"
    using store_bytes_append [of "xs @ [o_code x]" "off + 1" "[o_len x]" "drop 1 ys"] assms(3) len
    by (simp add: numeral_2_eq_2)
  have s3: "store_bytes (xs @ [o_code x, o_len x] @ drop 2 ys) (off + 2) ?pl
      = Some (xs @ [o_code x, o_len x] @ ?pl @ drop (2 + unat (o_len x)) ys)"
    using store_bytes_append [of "xs @ [o_code x, o_len x]" "off + 2" ?pl "drop 2 ys"] assms(2,3) len
    by (simp add: readable_def)
  show ?thesis
    using True assms(1,2) s1 s2 s3 by (simp add: write_option_def option_bytes_def readable_def)
next
  case False
  then have "1 \<le> length ys" using assms by (simp add: length_option_bytes)
  then show ?thesis
    using False assms store_bytes_append [of xs off "[o_code x]" ys]
    by (simp add: write_option_def option_bytes_def)
qed


lemma write_options_loop:
  assumes wf: "wf_dhcp_packet p" and n: "n \<le> unat (d_options_len p)" and xs: "length xs = 240"
    and ys: "length (concat (map option_bytes (take n (d_options p)))) \<le> length ys"
  shows "foldM (write_option p) [0..<n] (240, xs @ ys) =
    (let bs = concat (map option_bytes (take n (d_options p)))
     in Some (240 + length bs, xs @ bs @ drop (length bs) ys))"
  using n ys
proof (induction n)
  case 0
  then show ?case by simp
next
  case (Suc n)
  let ?bs = "concat (map option_bytes (take n (d_options p)))" and ?x = "d_options p ! n"
  have n: "n < length (d_options p)" "n < unat (d_options_len p)"
    using Suc.prems wf by (auto simp: wf_dhcp_packet_def)
  then have tk: "take (Suc n) (d_options p) = take n (d_options p) @ [?x]" by (simp add: take_Suc_conv_app_nth)
  have "?x \<in> set (take (unat (d_options_len p)) (d_options p))"
    using n by (auto simp: in_set_conv_nth)
  then have r: "readable ?x" using wf by (simp add: wf_dhcp_packet_def)
  have len: "length ?bs + length (option_bytes ?x) \<le> length ys" using Suc.prems tk by simp
  have "write_option p n (240 + length ?bs, (xs @ ?bs) @ drop (length ?bs) ys) =
      Some (240 + length ?bs + length (option_bytes ?x),
        (xs @ ?bs) @ option_bytes ?x @ drop (length (option_bytes ?x)) (drop (length ?bs) ys))"
    using n r len xs by (intro write_option_eq) simp_all
  with Suc.IH Suc.prems(1) len n tk show ?case
    by (simp add: foldM_append Let_def add.commute)
qed

text \<open>
  A well-formed packet leaves as its bytes: no write outside the buffer that
  \<open>_dhcp_packet_len\<close> sized.
\<close>

lemma dhcp_packet_send_eq:
  assumes wf: "wf_dhcp_packet p"
  shows "dhcp_packet_send p w =
    Some (if shd (w_allocs w)
      then sendto (Dhcp_send (dhcp_destination p) (dhcp_packet_bytes p))
        (w\<lparr>w_allocs := stl (w_allocs w), w_out := w_out w @ [length_text (length (dhcp_packet_bytes p))]\<rparr>)
      else (- ENOMEM, w\<lparr>w_allocs := stl (w_allocs w)\<rparr>))"
proof -
  let ?bs = "concat (map option_bytes (sent_options p))" and ?h = "dhcp_header_bytes p"
  let ?n = "unat (d_options_len p)"
  have hl: "length ?h = 240" using wf by (simp add: wf_dhcp_packet_def)
  have s0: "store_bytes (replicate (241 + length ?bs) 0) 0 ?h = Some (?h @ replicate (1 + length ?bs) 0)"
    using hl by (simp add: store_bytes_def)
  have loop: "foldM (write_option p) [0..<?n] (240, ?h @ replicate (1 + length ?bs) 0)
      = Some (240 + length ?bs, ?h @ ?bs @ [0])"
    using write_options_loop [OF wf order_refl hl, of "replicate (1 + length ?bs) 0"]
      drop_replicate [of "length ?bs" "Suc (length ?bs)" "0 :: u8"]
    by (simp add: sent_options_def Let_def)
  have s1: "store_bytes (?h @ ?bs @ [0]) (240 + length ?bs) [255] = Some (dhcp_packet_bytes p)"
    using store_bytes_append [of "?h @ ?bs" "240 + length ?bs" "[255]" "[0]"] hl
    by (simp add: dhcp_packet_bytes_def DHCP_CODE_END_def)
  have "length (dhcp_packet_bytes p) = 241 + length ?bs" using hl by (simp add: dhcp_packet_bytes_def)
  then show ?thesis
    using dhcp_packet_len_eq [OF wf] s0 loop s1
    by (simp add: dhcp_packet_send_def calloc_def)
qed

subsection \<open>Round trip\<close>

definition option_value :: "dhcp_option \<Rightarrow> u8 \<times> u8 \<times> u8 list" where
  "option_value x = (o_code x, o_len x, take (unat (o_len x)) (o_payload x))"

lemma walk_bytes:
  assumes "\<forall>x \<in> set os. readable x \<and> plain_code (o_code x)"
  shows "\<exists>qs. walk (pre @ concat (map option_bytes os) @ [DHCP_CODE_END] @ r)
      (length pre + length (concat (map option_bytes os)) + 1) (length pre) qs \<and>
    map option_value qs = map option_value os @ [(DHCP_CODE_END, 0, [])] \<and>
    length qs = length os + 1 \<and>
    (\<forall>q \<in> set qs. o_code q \<noteq> DHCP_CODE_PAD) \<and> has_message_type qs = has_message_type os"
  using assms
proof (induction os arbitrary: pre)
  case Nil
  have "walk (pre @ [DHCP_CODE_END] @ r) (length pre + 1) (length pre)
      [\<lparr>o_code = DHCP_CODE_END, o_len = 0, o_payload = []\<rparr>]"
    by (rule walk.end_mark) (simp_all add: nth_opt_def nth_append)
  then show ?case by (auto simp: option_value_def)
next
  case (Cons x os)
  let ?tail = "concat (map option_bytes os) @ [DHCP_CODE_END] @ r"
  let ?pl = "take (unat (o_len x)) (o_payload x)"
  have pl: "length ?pl = unat (o_len x)" and plain: "plain_code (o_code x)"
    using Cons.prems by (simp_all add: readable_def)
  have bytes: "option_bytes x = o_code x # o_len x # ?pl" using plain by (simp add: option_bytes_def)
  let ?buf = "pre @ option_bytes x @ ?tail"
  obtain qs where qs: "walk ((pre @ option_bytes x) @ ?tail)
      (length (pre @ option_bytes x) + length (concat (map option_bytes os)) + 1) (length (pre @ option_bytes x)) qs"
    "map option_value qs = map option_value os @ [(DHCP_CODE_END, 0, [])]" "length qs = length os + 1"
    "\<forall>q \<in> set qs. o_code q \<noteq> DHCP_CODE_PAD" "has_message_type qs = has_message_type os"
    using Cons.IH [of "pre @ option_bytes x"] Cons.prems by auto
  let ?q = "\<lparr>o_code = o_code x, o_len = o_len x, o_payload = drop (length pre + 2) ?buf\<rparr>"
  have "walk ?buf (length pre + length (concat (map option_bytes (x # os))) + 1) (length pre) (?q # qs)"
  proof (rule walk.plain)
    show "nth_opt ?buf (length pre) = Some (o_code x)" "nth_opt ?buf (length pre + 1) = Some (o_len x)"
      by (simp_all add: nth_opt_def nth_append bytes)
    show "plain_code (o_code x)" by (rule plain)
    show "length pre + unat (o_len x) + 2 \<le> length pre + length (concat (map option_bytes (x # os))) + 1"
      using pl by (simp add: bytes)
    show "walk ?buf (length pre + length (concat (map option_bytes (x # os))) + 1)
        (length pre + unat (o_len x) + 2) qs"
      using qs(1) pl by (simp add: bytes add.commute add.left_commute)
  qed
  moreover have "option_value ?q = option_value x"
    using pl by (simp add: option_value_def bytes)
  ultimately show ?case
    using qs(2-5) plain by (intro exI [of _ "?q # qs"]) (auto simp: plain_code_def)
qed


lemma slice_append:
  "length xs = off \<Longrightarrow> length ys = n \<Longrightarrow> slice (xs @ ys @ zs) off n = Some ys"
  by (simp add: slice_def)

lemma header_round_trip:
  assumes "wf_dhcp_header p"
  shows "ntoh_dhcp_header (dhcp_header_bytes p @ r) =
      Some (p\<lparr>d_options_len := 0, d_timeout := 0, d_options := []\<rparr>)"
    "slice (dhcp_header_bytes p @ r) 236 4 = Some magic_cookie"
proof -
  note lens = assms [unfolded wf_dhcp_header_def]
  let ?b = "dhcp_header_bytes p @ r"
  have heads: "nth_opt ?b 0 = Some (d_op p)" "nth_opt ?b 1 = Some (d_htype p)"
    "nth_opt ?b 2 = Some (d_hlen p)" "nth_opt ?b 3 = Some (d_hops p)"
    by (simp_all add: dhcp_header_bytes_def nth_opt_def)
  let ?h4 = "[d_op p, d_htype p, d_hlen p, d_hops p]"
  have s: "slice ?b 4 4 = Some (put32 (d_xid p))" "slice ?b 8 2 = Some (put16 (d_secs p))"
    "slice ?b 10 2 = Some (put16 (d_flags p))" "slice ?b 12 4 = Some (d_ciaddr p)"
    "slice ?b 16 4 = Some (d_yiaddr p)" "slice ?b 20 4 = Some (d_siaddr p)"
    "slice ?b 24 4 = Some (d_giaddr p)" "slice ?b 28 16 = Some (d_chaddr p)"
    "slice ?b 44 64 = Some (d_sname p)" "slice ?b 108 128 = Some (d_file p)"
    and c: "slice ?b 236 4 = Some magic_cookie"
    using lens by (simp_all add: dhcp_header_bytes_def slice_def magic_cookie_def)
  show "slice ?b 236 4 = Some magic_cookie" by (rule c)
  show "ntoh_dhcp_header ?b = Some (p\<lparr>d_options_len := 0, d_timeout := 0, d_options := []\<rparr>)"
    using heads s by (simp add: ntoh_dhcp_header_def)
qed

lemma dhcp_round_trip:
  assumes wf: "wf_dhcp_packet p" and plain: "\<forall>x \<in> set (sent_options p). plain_code (o_code x)"
    and mt: "has_message_type (sent_options p)" and n: "unat (d_options_len p) \<le> 254"
    and mem: "shd (w_allocs w)"
  shows "\<exists>qs. ntoh_dhcp_packet (dhcp_packet_bytes p @ r) (int (length (dhcp_packet_bytes p))) w =
      Some (Inr (p\<lparr>d_timeout := 0, d_options_len := d_options_len p + 1, d_options := qs\<rparr>),
        w\<lparr>w_allocs := stl (w_allocs w)\<rparr>) \<and>
    map option_value qs = map option_value (sent_options p) @ [(DHCP_CODE_END, 0, [])]"
proof -
  let ?os = "sent_options p" and ?buf = "dhcp_packet_bytes p @ r"
  let ?len = "length (dhcp_packet_bytes p)"
  have h: "wf_dhcp_header p" using wf by (simp add: wf_dhcp_packet_def)
  have rd: "\<forall>x \<in> set ?os. readable x \<and> plain_code (o_code x)"
    using wf plain by (simp add: wf_dhcp_packet_def sent_options_def)
  have buf: "?buf = dhcp_header_bytes p @ concat (map option_bytes ?os) @ [DHCP_CODE_END] @ r"
    by (simp add: dhcp_packet_bytes_def)
  have len: "?len = length (dhcp_header_bytes p) + length (concat (map option_bytes ?os)) + 1" "240 \<le> ?len"
    using h by (simp_all add: dhcp_packet_bytes_def)
  obtain qs where qs: "walk ?buf ?len 240 qs"
    "map option_value qs = map option_value ?os @ [(DHCP_CODE_END, 0, [])]" "length qs = length ?os + 1"
    "\<forall>q \<in> set qs. o_code q \<noteq> DHCP_CODE_PAD" "has_message_type qs = has_message_type ?os"
    using walk_bytes [OF rd, of "dhcp_header_bytes p" r] h unfolding buf len by auto
  have lq: "length qs = unat (d_options_len p) + 1"
    using qs(3) wf by (simp add: sent_options_def wf_dhcp_packet_def)
  have un: "unpadded qs = qs" using qs(4) by (simp add: unpadded_id)
  have st: "option_array qs = qs" using option_array_id [OF un] lq n by simp
  have "ntoh_dhcp_packet ?buf (int ?len) w =
      Some (Inr (p\<lparr>d_options_len := 0, d_timeout := 0, d_options := [],
          d_options_len := of_nat (length qs), d_options := qs\<rparr>), w\<lparr>w_allocs := stl (w_allocs w)\<rparr>)"
    using ntoh_dhcp_packet_eq [where buffer = ?buf and len = "int ?len" and os = qs,
        OF _ _ _ _ _ mem, unfolded un st] len(2) header_round_trip [OF h] qs(1,5) mt
    unfolding buf by simp
  then show ?thesis
    using qs(2) lq by (intro exI [of _ qs]) (cases p, simp add: add.commute)
qed


subsection \<open>The cache\<close>

text \<open>A copy owns exactly \<open>len\<close> bytes of each payload; a failed copy has no options left to read.\<close>

definition trimmed :: "dhcp_option \<Rightarrow> dhcp_option" where
  "trimmed x = x\<lparr>o_payload := take (unat (o_len x)) (o_payload x)\<rparr>"

definition copy_inv :: "dhcp_packet \<Rightarrow> world \<Rightarrow> nat \<Rightarrow> dhcp_option list option \<times> world \<Rightarrow> bool" where
  "copy_inv src w n = (\<lambda>(copied, w').
     (copied = None \<and> \<not> reliable w \<or> copied = Some (map trimmed (take n (d_options src)))) \<and>
     (\<exists>as. w' = w\<lparr>w_allocs := as\<rparr>) \<and> (reliable w \<longrightarrow> reliable w'))"

lemma copy_options_loop:
  assumes wf: "wf_dhcp_packet src" and "n \<le> unat (d_options_len src)"
  shows "ok (foldM (copy_option src) [0..<n] (Some [], w)) (copy_inv src w n)"
proof (rule foldM_upt_ok [where I = "copy_inv src w"])
  show "copy_inv src w 0 (Some [], w)" by (auto simp: copy_inv_def intro!: exI [of _ "w_allocs w"])
next
  fix i s
  assume i: "i < n" and s: "copy_inv src w i s"
  have len: "i < length (d_options src)" "i < unat (d_options_len src)"
    using i assms by (auto simp: wf_dhcp_packet_def)
  then have "d_options src ! i \<in> set (take (unat (d_options_len src)) (d_options src))"
    by (auto simp: in_set_conv_nth)
  then have r: "readable (d_options src ! i)" using wf by (simp add: wf_dhcp_packet_def)
  obtain copied v where sv: "s = (copied, v)" by (cases s)
  obtain as where v: "v = w\<lparr>w_allocs := as\<rparr>" using s sv by (auto simp: copy_inv_def)
  have rv: "reliable w \<Longrightarrow> shd as" "reliable w \<Longrightarrow> reliable (w\<lparr>w_allocs := stl as\<rparr>)"
    using s sv reliable_now(1) [of v] reliable_later(1) [of v] by (simp_all add: v copy_inv_def)
  show "ok (copy_option src i s) (copy_inv src w (Suc i))"
  proof (cases "copied = None \<or> \<not> shd as")
    case True
    have "copied = None \<Longrightarrow> \<not> reliable w" using s sv by (simp add: copy_inv_def)
    with True rv(1) have nr: "\<not> reliable w" by blast
    have "copy_option src i s = Some (None, w\<lparr>w_allocs := if copied = None then as else stl as\<rparr>)"
      using True len by (cases copied) (simp_all add: sv v copy_option_def calloc_def)
    then show ?thesis using nr unfolding copy_inv_def by (simp only: ok_Some prod.case) blast
  next
    case False
    moreover have "copied = None \<or> copied = Some (map trimmed (take i (d_options src)))"
      using s sv by (simp add: copy_inv_def) blast
    ultimately have c: "copied = Some (map trimmed (take i (d_options src)))" by blast
    have "copy_option src i s = Some (Some (map trimmed (take (Suc i) (d_options src))), w\<lparr>w_allocs := stl as\<rparr>)"
      using False len r by (simp add: sv v c copy_option_def calloc_def readable_def trimmed_def take_Suc_conv_app_nth)
    then show ?thesis using rv(2) unfolding copy_inv_def by (simp only: ok_Some prod.case) blast
  qed
qed

lemma dhcp_packet_copy_ok:
  assumes wf: "wf_dhcp_packet src"
  shows "ok (dhcp_packet_copy src w) (\<lambda>((r, q), w').
    (r = 0 \<and> q = src\<lparr>d_options := map trimmed (sent_options src)\<rparr> \<or>
     r \<noteq> 0 \<and> \<not> reliable w \<and> q = src\<lparr>d_options := []\<rparr>) \<and>
    (\<exists>as. w' = w\<lparr>w_allocs := as\<rparr>) \<and> (reliable w \<longrightarrow> reliable w'))"
proof (cases "shd (w_allocs w)")
  case True
  let ?v = "w\<lparr>w_allocs := stl (w_allocs w)\<rparr>"
  obtain copied v where r: "foldM (copy_option src) [0..<unat (d_options_len src)] (Some [], ?v) = Some (copied, v)"
    "copied = None \<and> \<not> reliable ?v \<or> copied = Some (map trimmed (sent_options src))"
    "\<exists>as. v = ?v\<lparr>w_allocs := as\<rparr>" "reliable ?v \<longrightarrow> reliable v"
    using copy_options_loop [OF wf order_refl, of ?v] unfolding ok_iff sent_options_def copy_inv_def by auto
  then obtain as where v: "v = w\<lparr>w_allocs := as\<rparr>" by auto
  have rel: "reliable w \<longrightarrow> reliable (w\<lparr>w_allocs := as\<rparr>)" using r(4) v by simp
  from r(2) show ?thesis
  proof
    assume "copied = None \<and> \<not> reliable ?v"
    then have "dhcp_packet_copy src w = Some ((- ENOMEM, src\<lparr>d_options := []\<rparr>), v)" "\<not> reliable w"
      using True r(1) by (auto simp: dhcp_packet_copy_def calloc_def)
    then show ?thesis using v by (simp only: ok_Some prod.case) (auto simp: ENOMEM_def)
  next
    assume "copied = Some (map trimmed (sent_options src))"
    then have "dhcp_packet_copy src w = Some ((0, src\<lparr>d_options := map trimmed (sent_options src)\<rparr>), v)"
      using True r(1) by (simp add: dhcp_packet_copy_def calloc_def)
    then show ?thesis using v rel by (simp only: ok_Some prod.case) blast
  qed
next
  case False
  then have "dhcp_packet_copy src w = Some ((1, src\<lparr>d_options := []\<rparr>), w\<lparr>w_allocs := stl (w_allocs w)\<rparr>)"
    "\<not> reliable w"
    using reliable_now(1) [of w] by (auto simp: dhcp_packet_copy_def calloc_def)
  then show ?thesis by (simp only: ok_Some prod.case) auto
qed

text \<open>The lookup takes the first matching packet out of the list.\<close>

definition answers :: "u32 \<Rightarrow> u8 list \<Rightarrow> dhcp_packet \<Rightarrow> bool" where
  "answers xid chaddr p \<longleftrightarrow> d_xid p = xid \<and> memcmp (d_chaddr p) chaddr = 0"

lemma dhcp_packet_list_find_eq:
  "dhcp_packet_list_find ps xid chaddr =
    (find (answers xid chaddr) ps,
     takeWhile (\<lambda>p. \<not> answers xid chaddr p) ps @ tl (dropWhile (\<lambda>p. \<not> answers xid chaddr p) ps))"
  by (induction ps) (auto simp: answers_def split: prod.splits)

lemma dhcp_packet_list_find_set:
  "dhcp_packet_list_find ps xid chaddr = (r, qs) \<Longrightarrow> set qs \<subseteq> set ps \<and> (\<forall>p. r = Some p \<longrightarrow> p \<in> set ps)"
  by (induction ps arbitrary: qs) (auto split: if_splits prod.splits)

end
