(* ===== verification/Hook.thy ===== *)
theory Hook
  imports Lease
begin

text \<open>
  hook.c: the command run on lease events. A hook that is due is one event of the trace,
  with the arguments given to the shell; whether the fork succeeds is not visible to the
  program. The child prints the hardware address with \<open>hwaddr2c\<close>, of which six bytes are
  read.
\<close>

definition HOOK_LEASE :: u8 where "HOOK_LEASE = 1"
definition HOOK_RELEASE :: u8 where "HOOK_RELEASE = 2"
definition HOOK_INFORM :: u8 where "HOOK_INFORM = 3"
definition HOOK_LEARNING_PHASE_END :: u8 where "HOOK_LEARNING_PHASE_END = 4"

lemmas hook_types = HOOK_LEASE_def HOOK_RELEASE_def HOOK_INFORM_def HOOK_LEARNING_PHASE_END_def

definition hook_address :: "u8 \<Rightarrow> in_addr \<Rightarrow> u8 list \<Rightarrow> world \<Rightarrow> world" where
  "hook_address type address chaddr w =
     (case c_hook_command w of
        None \<Rightarrow> w
      | Some _ \<Rightarrow>
          let action = (if type = HOOK_LEASE then Some ''lease''
                        else if type = HOOK_RELEASE then Some ''release'' else None)
          in case action of
              None \<Rightarrow> w
            | Some action \<Rightarrow> w\<lparr>w_out := w_out w @ [Hook_address action address chaddr]\<rparr>)"

definition hook :: "u8 \<Rightarrow> world \<Rightarrow> world" where
  "hook type w =
     (case c_hook_command w of
        None \<Rightarrow> w
      | Some _ \<Rightarrow>
          let action = (if type = HOOK_LEARNING_PHASE_END then Some ''endlearning'' else None)
          in case action of
              None \<Rightarrow> w
            | Some action \<Rightarrow> w\<lparr>w_out := w_out w @ [Hook_event action]\<rparr>)"

text \<open>A hook changes the trace only.\<close>

lemma hook_address_out: "\<exists>out. hook_address t a c w = w\<lparr>w_out := out\<rparr>"
  by (cases "c_hook_command w") (auto simp: hook_address_def Let_def intro: exI [of _ "w_out w"])

lemma hook_out: "\<exists>out. hook t w = w\<lparr>w_out := out\<rparr>"
  by (cases "c_hook_command w") (auto simp: hook_def Let_def intro: exI [of _ "w_out w"])

end
