(* ===== verification/Dhcp.thy ===== *)
theory Dhcp
  imports Block Dhcp_Packet Hook
begin

text \<open>
  dhcp.c: the handlers of the DHCP messages of the clients, and of the requests that other
  nodes forward. A lease is named by the position of its block and its index in it; reading
  or writing a lease of a block without lease array is undefined.
\<close>

definition DHCP_OFFER_TIMEOUT :: u16 where "DHCP_OFFER_TIMEOUT = 12"
definition DHCP_LEASE_SERVER_DELTA :: u16 where "DHCP_LEASE_SERVER_DELTA = 10"

definition DHCPDISCOVER :: u8 where "DHCPDISCOVER = 1"
definition DHCPOFFER :: u8 where "DHCPOFFER = 2"
definition DHCPREQUEST :: u8 where "DHCPREQUEST = 3"
definition DHCPACK :: u8 where "DHCPACK = 5"
definition DHCPNAK :: u8 where "DHCPNAK = 6"
definition DHCPRELEASE :: u8 where "DHCPRELEASE = 7"
definition DHCPINFORM :: u8 where "DHCPINFORM = 8"

lemmas dhcp_types = DHCPDISCOVER_def DHCPOFFER_def DHCPREQUEST_def DHCPACK_def DHCPNAK_def
  DHCPRELEASE_def DHCPINFORM_def

subsection \<open>Answers\<close>

definition zero_addr :: in_addr where
  "zero_addr = [0, 0, 0, 0]"

definition build_initial_packet :: "dhcp_packet \<Rightarrow> world \<Rightarrow> dhcp_packet option \<times> world" where
  "build_initial_packet from_client w =
     (let (mem, w) = calloc w in
      if \<not> mem then (None, w)
      else (Some \<lparr>d_op = 2, d_htype = d_htype from_client, d_hlen = d_hlen from_client,
             d_hops = d_hops from_client, d_xid = d_xid from_client, d_secs = 0,
             d_flags = d_flags from_client, d_chaddr = d_chaddr from_client,
             d_sname = replicate 64 0, d_file = replicate 128 0, d_options_len = 0, d_timeout = 0,
             d_ciaddr = d_ciaddr from_client, d_yiaddr = zero_addr, d_siaddr = zero_addr,
             d_giaddr = d_giaddr from_client, d_options = []\<rparr>, w))"

text \<open>\<open>_dhcp_default_options\<close>: the error code or 0, and the packet.\<close>

definition dhcp_default_options ::
  "u8 \<Rightarrow> dhcp_packet \<Rightarrow> dhcp_packet \<Rightarrow> bool \<Rightarrow> world \<Rightarrow> ((int \<times> dhcp_packet) \<times> world) option" where
  "dhcp_default_options msg_type packet request include_lease_time w = do {
     ((num_options, fullfil), w) \<leftarrow>
       fill_options (d_options request) (d_options_len request) (c_options w) 3 w;
     if num_options < 0 then Some ((num_options, packet), w)
     else do {
       let len = (word_of_int num_options :: u8);
       (_, os) \<leftarrow> set_option fullfil len DHCP_CODE_MESSAGE_TYPE 1 [msg_type];
       (_, os) \<leftarrow> (if include_lease_time
                then set_option_from_store (c_options w) os len DHCP_CODE_ADDRESS_LEASE_TIME
                else Some (0, os));
       (_, os) \<leftarrow> set_option_from_store (c_options w) os len DHCP_CODE_SERVER_IDENTIFIER;
       Some ((0, packet\<lparr>d_options_len := len, d_options := os\<rparr>), w) } }"

text \<open>Sending with its statistics.\<close>

definition send_answer :: "stat \<Rightarrow> dhcp_packet \<Rightarrow> world \<Rightarrow> (int \<times> world) option" where
  "send_answer kind packet w = do {
     let w = statistics_record STAT_DHCP_SEND_PKG 1 w;
     let w = statistics_record kind 1 w;
     (bytes_send, w) \<leftarrow> dhcp_packet_send packet w;
     Some (bytes_send, statistics_record STAT_DHCP_SEND_BYTE bytes_send w) }"

definition dhcp_nack :: "dhcp_packet \<Rightarrow> world \<Rightarrow> (int \<times> world) option" where
  "dhcp_nack from_client w = do {
     let (packet, w) = build_initial_packet from_client w;
     case packet of
       None \<Rightarrow> Some (1, w)
     | Some packet \<Rightarrow> do {
         let (mem, w) = calloc w;
         if \<not> mem then Some (1, w)
         else do {
           (_, os) \<leftarrow> set_option [zero_option] 1 DHCP_CODE_MESSAGE_TYPE 1 [DHCPNAK];
           (_, w) \<leftarrow> send_answer STAT_DHCP_SEND_NAK (packet\<lparr>d_options_len := 1, d_options := os\<rparr>) w;
           Some (0, w) } } }"

text \<open>The end of a lease granted at \<open>now\<close>.\<close>

definition lease_until :: "int \<Rightarrow> world \<Rightarrow> int option" where
  "lease_until now w = do {
     t \<leftarrow> find_in_option_store_address_lease_time (c_options w);
     Some (now + uint t + uint DHCP_LEASE_SERVER_DELTA) }"

definition dhcp_ack :: "dhcp_packet \<Rightarrow> nat \<Rightarrow> u32 \<Rightarrow> world \<Rightarrow> (int \<times> world) option" where
  "dhcp_ack request i lease_index w = do {
     let (now, w) = time_null w;
     let (packet, w) = build_initial_packet request w;
     case packet of
       None \<Rightarrow> Some (1, w)
     | Some packet \<Rightarrow> do {
         l \<leftarrow> get_lease i (unat lease_index) w;
         lease_end \<leftarrow> lease_until now w;
         w \<leftarrow> put_lease i (unat lease_index) (l\<lparr>l_chaddr := d_chaddr request, l_xid := d_xid request,
           l_state := LEASED, l_lease_end := lease_end\<rparr>) w;
         b \<leftarrow> get_block i w;
         let packet = packet\<lparr>d_yiaddr := addr_add (b_subnet b) lease_index\<rparr>;
         ((r, packet), w) \<leftarrow> dhcp_default_options DHCPACK packet request True w;
         if r \<noteq> 0 then Some (1, w)
         else do {
           (_, w) \<leftarrow> send_answer STAT_DHCP_SEND_ACK packet w;
           Some (0, hook_address HOOK_LEASE (d_yiaddr packet) (d_chaddr packet) w) } } }"

subsection \<open>Discover\<close>

definition dhcp_hdl_discover :: "dhcp_packet \<Rightarrow> world \<Rightarrow> (int \<times> world) option" where
  "dhcp_hdl_discover discover w = do {
     let (now, w) = time_null w;
     lease_block \<leftarrow> block_find_free_leases w;
     case lease_block of
       None \<Rightarrow> Some (3, w)
     | Some i \<Rightarrow> do {
         b \<leftarrow> get_block i w;
         lease_index \<leftarrow> dhcp_get_free_lease b;
         let (packet, w) = build_initial_packet discover w;
         case packet of
           None \<Rightarrow> Some (1, w)
         | Some packet \<Rightarrow> do {
             l \<leftarrow> get_lease i (unat lease_index) w;
             w \<leftarrow> put_lease i (unat lease_index) (l\<lparr>l_chaddr := d_chaddr discover, l_xid := d_xid discover,
               l_state := OFFERED, l_lease_end := now + uint DHCP_OFFER_TIMEOUT\<rparr>) w;
             let packet = packet\<lparr>d_yiaddr := addr_add (b_subnet b) lease_index\<rparr>;
             ((r, packet), w) \<leftarrow> dhcp_default_options DHCPOFFER packet discover True w;
             if r \<noteq> 0 then Some (1, w)
             else do {
               (bytes_send, w) \<leftarrow> send_answer STAT_DHCP_SEND_OFFER packet w;
               w \<leftarrow> (if bytes_send > 0 then do {
                      b \<leftarrow> get_block i w;
                      Some (put_block i (b\<lparr>b_needless_since := 0\<rparr>) w) }
                    else Some w);
               Some (0, w) } } } }"

subsection \<open>Requests of other nodes\<close>

definition dhcp_rhdl_request :: "u32 \<Rightarrow> world \<Rightarrow> (int \<times> world) option" where
  "dhcp_rhdl_request address w = do {
     let (now, w) = time_null w;
     (found, lease_block, lease_index) \<leftarrow>
       find_lease_from_address (store32 (w_little_endian w) address) w;
     if found = 0 then do {
       i \<leftarrow> lease_block;
       l \<leftarrow> get_lease i (unat lease_index) w;
       lease_end \<leftarrow> lease_until now w;
       w \<leftarrow> put_lease i (unat lease_index) (l\<lparr>l_lease_end := lease_end\<rparr>) w;
       Some (0, w) }
     else if found = 1 then Some (1, w)
     else Some (2, w) }"

text \<open>
  The address a client asks for: the four bytes behind the option's payload pointer, else
  \<open>ciaddr\<close> unless it is zero.
\<close>

definition requested_address :: "dhcp_packet \<Rightarrow> in_addr option option" where
  "requested_address request = do {
     address \<leftarrow> find_option_requested_address (d_options request) (d_options_len request);
     case address of
       Some payload \<Rightarrow> do { a \<leftarrow> take_opt 4 payload; Some (Some a) }
     | None \<Rightarrow> Some (if d_ciaddr request \<noteq> zero_addr then Some (d_ciaddr request) else None) }"

definition dhcp_rhdl_ack :: "dhcp_packet \<Rightarrow> world \<Rightarrow> (int \<times> world) option" where
  "dhcp_rhdl_ack request w = do {
     address \<leftarrow> requested_address request;
     (found, lease_block, lease_index) \<leftarrow>
       find_lease_from_address (case address of Some a \<Rightarrow> a | None \<Rightarrow> zero_addr) w;
     if found \<noteq> 1 then Some (1, w)
     else do {
       i \<leftarrow> lease_block;
       dhcp_ack request i lease_index w } }"

subsection \<open>Request\<close>

text \<open>The request as a message to the owner of block \<open>i\<close>; a copy waits for the answer.\<close>

definition send_renew :: "dhcp_packet \<Rightarrow> in_addr \<Rightarrow> nat \<Rightarrow> world \<Rightarrow> (int \<times> world) option" where
  "send_renew request address i w = do {
     let payload = \<lparr>r_chaddr = d_chaddr request, r_address = load32 (w_little_endian w) address,
       r_xid = d_xid request, r_lease_seconds = 0\<rparr>;
     let (packet, w) = new_ddhcp_packet DDHCP_MSG_RENEWLEASE w;
     case packet of
       None \<Rightarrow> Some (- ENOMEM, w)
     | Some packet \<Rightarrow> do {
         let packet = packet\<lparr>m_body := Renew payload\<rparr>;
         (_, w) \<leftarrow> dhcp_packet_list_add request w;
         let w = statistics_record STAT_DIRECT_SEND_PKG 1 w;
         let w = statistics_record STAT_DIRECT_SEND_RENEWLEASE 1 w;
         b \<leftarrow> get_block i w;
         (bytes_send, w) \<leftarrow> send_packet_direct packet (b_owner_address b) w;
         Some (2, statistics_record STAT_DIRECT_SEND_BYTE bytes_send w) } }"

text \<open>A request for a lease of another node: register it and forward it to the owner.\<close>

definition forward_request ::
  "dhcp_packet \<Rightarrow> in_addr \<Rightarrow> int \<Rightarrow> nat \<Rightarrow> u32 \<Rightarrow> world \<Rightarrow> (int \<times> world) option" where
  "forward_request request address now i lease_index w = do {
     (r, w) \<leftarrow> block_alloc (Some i) w;
     w \<leftarrow> (if r \<noteq> 0 then do { (_, w) \<leftarrow> dhcp_nack request w; Some w } else Some w);
     l \<leftarrow> get_lease i (unat lease_index) w;
     lease_end \<leftarrow> lease_until now w;
     w \<leftarrow> put_lease i (unat lease_index) (l\<lparr>l_xid := d_xid request, l_state := OFFERED,
       l_lease_end := lease_end, l_chaddr := d_chaddr request\<rparr>) w;
     send_renew request address i w }"

text \<open>The search for an offer by transaction and hardware address.\<close>

definition offer_step ::
  "dhcp_packet \<Rightarrow> world \<Rightarrow> nat \<Rightarrow> (nat \<times> nat) option \<Rightarrow> (nat \<times> nat) option option" where
  "offer_step request w i found = (case found of
       Some r \<Rightarrow> Some (Some r)
     | None \<Rightarrow> do {
         b \<leftarrow> get_block i w;
         if b_state b = DDHCP_OURS then do {
           j \<leftarrow> find_idx (\<lambda>l. l_state l = OFFERED \<and> l_xid l = d_xid request
                 \<and> memcmp (d_chaddr request) (l_chaddr l) = 0) (block_leases b) [0..<unat (b_subnet_len b)];
           Some (map_option (Pair i) j) }
         else Some None })"

definition find_offer :: "dhcp_packet \<Rightarrow> world \<Rightarrow> (nat \<times> nat) option option" where
  "find_offer request w = foldM (offer_step request w) [0..<num_blocks w] None"

definition dhcp_hdl_request :: "dhcp_packet \<Rightarrow> world \<Rightarrow> (int \<times> world) option" where
  "dhcp_hdl_request request w = do {
     let (now, w) = time_null w;
     address \<leftarrow> requested_address request;
     case address of
       Some a \<Rightarrow> do {
         (found, lease_block, lease_index) \<leftarrow> find_lease_from_address a w;
         if found \<noteq> 2 then do {
           i \<leftarrow> lease_block;
           b \<leftarrow> get_block i w;
           if b_state b = DDHCP_CLAIMED then forward_request request a now i lease_index w
           else if b_state b = DDHCP_OURS then do {
             l \<leftarrow> get_lease i (unat lease_index) w;
             if (l_state l \<noteq> OFFERED \<or> l_xid l \<noteq> d_xid request)
               \<and> memcmp (d_chaddr request) (l_chaddr l) \<noteq> 0 \<and> l_state l \<noteq> FREE
             then do { (_, w) \<leftarrow> dhcp_nack request w; Some (2, w) }
             else dhcp_ack request i lease_index w }
           else do {
             n \<leftarrow> block_num_owned w;
             w \<leftarrow> (if n > 0 then do { (_, w) \<leftarrow> dhcp_nack request w; Some w } else Some w);
             Some (2, w) } }
         else do { (_, w) \<leftarrow> dhcp_nack request w; Some (2, w) } }
     | None \<Rightarrow> do {
         offer \<leftarrow> find_offer request w;
         case offer of
           Some (i, j) \<Rightarrow> dhcp_ack request i (of_nat j) w
         | None \<Rightarrow> do { (_, w) \<leftarrow> dhcp_nack request w; Some (2, w) } } }"

subsection \<open>Release and inform\<close>

definition dhcp_hdl_release :: "dhcp_packet \<Rightarrow> world \<Rightarrow> world option" where
  "dhcp_hdl_release packet w = do {
     (found, lease_block, lease_index) \<leftarrow> find_lease_from_address (d_ciaddr packet) w;
     if found = 0 then do {
       i \<leftarrow> lease_block;
       l \<leftarrow> get_lease i (unat lease_index) w;
       if memcmp (d_chaddr packet) (l_chaddr l) = 0 then do {
         w \<leftarrow> dhcp_release_lease_static i (unat lease_index) w;
         Some (hook_address HOOK_RELEASE (d_yiaddr packet) (d_chaddr packet) w) }
       else Some w }
     else Some w }"

definition dhcp_hdl_inform :: "dhcp_packet \<Rightarrow> world \<Rightarrow> world option" where
  "dhcp_hdl_inform request w = do {
     _ \<leftarrow> find_lease_from_address (d_ciaddr request) w;
     let (packet, w) = build_initial_packet request w;
     case packet of
       None \<Rightarrow> Some w
     | Some packet \<Rightarrow> do {
         ((r, packet), w) \<leftarrow> dhcp_default_options DHCPACK packet request False w;
         if r \<noteq> 0 then Some w
         else do {
           (_, w) \<leftarrow> send_answer STAT_DHCP_SEND_ACK packet w;
           Some (hook_address HOOK_INFORM (d_ciaddr packet) (d_chaddr packet) w) } } }"

subsection \<open>Dispatch\<close>

definition dhcp_process :: "u8 list \<Rightarrow> int \<Rightarrow> world \<Rightarrow> (int \<times> world) option" where
  "dhcp_process buffer len w = do {
     (ret, w) \<leftarrow> ntoh_dhcp_packet buffer len w;
     case ret of
       Inl _ \<Rightarrow> Some (0, w)
     | Inr packet \<Rightarrow> do {
         message_type \<leftarrow> dhcp_packet_message_type packet;
         if message_type = DHCPDISCOVER then do {
           let w = statistics_record STAT_DHCP_RECV_DISCOVER 1 w;
           (r, w) \<leftarrow> dhcp_hdl_discover packet w;
           Some (if r = 1 then 1 else 0, w) }
         else if message_type = DHCPREQUEST then do {
           let w = statistics_record STAT_DHCP_RECV_REQUEST 1 w;
           (_, w) \<leftarrow> dhcp_hdl_request packet w;
           Some (0, w) }
         else if message_type = DHCPRELEASE then do {
           let w = statistics_record STAT_DHCP_RECV_RELEASE 1 w;
           w \<leftarrow> dhcp_hdl_release packet w;
           Some (0, w) }
         else if message_type = DHCPINFORM then do {
           let w = statistics_record STAT_DHCP_RECV_INFORM 1 w;
           w \<leftarrow> dhcp_hdl_inform packet w;
           Some (0, w) }
         else Some (0, w) } }"

end
