(* ===== verification/Block_Inv.thy ===== *)
theory Block_Inv
  imports Block
begin

text \<open>
  The operations of block.c keep the invariant of the state and have no undefined behaviour
  in a well-formed state, and what they may change in each block. \<open>evolves P w w'\<close> says
  that \<open>w'\<close> is well-formed, has the parameters of \<open>w\<close>, and that every block \<open>k\<close> went
  from \<open>b\<close> to \<open>b'\<close> with \<open>P k b b'\<close>.
\<close>

definition evolves ::
  "(nat \<Rightarrow> ddhcp_block \<Rightarrow> ddhcp_block \<Rightarrow> bool) \<Rightarrow> world \<Rightarrow> world \<Rightarrow> bool" where
  "evolves P w w' \<longleftrightarrow> keeps w w' \<and> (\<forall>k < num_blocks w. P k (c_blocks w ! k) (c_blocks w' ! k))"

lemma evolvesD:
  assumes "evolves P w w'"
  shows "wf_state w'" "keeps w w'" "num_blocks w' = num_blocks w" "c_block_size w' = c_block_size w"
    "k < num_blocks w \<Longrightarrow> P k (c_blocks w ! k) (c_blocks w' ! k)"
  using assms keeps_size [of w w'] by (auto simp: evolves_def keeps_def)

lemma evolves_refl: "wf_state w \<Longrightarrow> (\<And>k b. P k b b) \<Longrightarrow> evolves P w w"
  by (simp add: evolves_def keeps_refl)

lemma evolves_trans:
  assumes "evolves P u v" "evolves Q v w" "\<And>k a b c. P k a b \<Longrightarrow> Q k b c \<Longrightarrow> R k a c"
  shows "evolves R u w"
  using assms keeps_trans evolvesD(3) [OF assms(1)] unfolding evolves_def by metis

lemma evolves_trans_at:
  assumes "evolves P u v" "evolves Q v w"
    "\<And>k. P k (c_blocks u ! k) (c_blocks v ! k) \<Longrightarrow> Q k (c_blocks v ! k) (c_blocks w ! k) \<Longrightarrow>
      R k (c_blocks u ! k) (c_blocks w ! k)"
  shows "evolves R u w"
  using assms keeps_trans evolvesD(3) [OF assms(1)] unfolding evolves_def by metis

lemma evolves_mono:
  "evolves P w w' \<Longrightarrow> (\<And>k b b'. P k b b' \<Longrightarrow> Q k b b') \<Longrightarrow> evolves Q w w'"
  by (auto simp: evolves_def)

lemma evolves_mono_at:
  "evolves P w w' \<Longrightarrow>
    (\<And>k. P k (c_blocks w ! k) (c_blocks w' ! k) \<Longrightarrow> Q k (c_blocks w ! k) (c_blocks w' ! k)) \<Longrightarrow>
    evolves Q w w'"
  by (simp add: evolves_def)

lemma evolves_put:
  assumes "wf_state w" "\<And>k b. k \<noteq> i \<Longrightarrow> P k b b" "i < num_blocks w \<Longrightarrow> wf_block w i b'"
    "i < num_blocks w \<Longrightarrow> P i (c_blocks w ! i) b'"
  shows "evolves P w (put_block i b' w)"
proof -
  have "P k (c_blocks w ! k) ((c_blocks w)[i := b'] ! k)" if "k < num_blocks w" for k
    using assms inv_length [of w] that by (cases "k = i") simp_all
  then show ?thesis
    using assms inv_put_block [of w i b'] by (simp add: evolves_def keeps_def)
qed

text \<open>A change of the environment, the trace or the statistics.\<close>

definition env_change :: "world \<Rightarrow> world \<Rightarrow> bool" where
  "env_change w w' \<longleftrightarrow> same_params w w' \<and> c_blocks w' = c_blocks w \<and>
     c_claiming_blocks w' = c_claiming_blocks w \<and>
     c_claiming_blocks_amount w' = c_claiming_blocks_amount w \<and> c_options w' = c_options w"

lemma env_change_refl [simp]: "env_change w w"
  by (simp add: env_change_def)

lemma env_change_trans: "env_change u v \<Longrightarrow> env_change v w \<Longrightarrow> env_change u w"
  by (auto simp: env_change_def intro: same_params_trans)

lemma env_change_update [simp]:
  "env_change w (w\<lparr>w_times := ts\<rparr>)" "env_change w (w\<lparr>w_rands := rs\<rparr>)"
  "env_change w (w\<lparr>w_allocs := al\<rparr>)" "env_change w (w\<lparr>w_sends := sn\<rparr>)"
  "env_change w (w\<lparr>w_sends := sn, w_out := out\<rparr>)"
  "env_change w (w\<lparr>c_statistics := st\<rparr>)" "env_change w (w\<lparr>w_out := out\<rparr>)"
  "env_change w (w\<lparr>c_needless_marks := m\<rparr>)" "env_change w (w\<lparr>c_dhcp_packet_cache := pc\<rparr>)"
  by (simp_all add: env_change_def same_params_def)

lemma env_change_calls [simp]:
  "env_change w (snd (time_null w))" "env_change w (snd (calloc w))"
  "env_change w (snd (rand_u32 w))" "env_change w (snd (sendto e w))"
  "env_change w (statistics_record t n w)"
  by (simp_all add: time_null_def calloc_def rand_u32_def sendto_def statistics_record_def)

lemma env_change_inv: "env_change w w' \<Longrightarrow> wf_state w \<Longrightarrow> wf_state w'"
  using inv_cong by (auto simp: env_change_def)

lemma env_change_evolves: "env_change w w' \<Longrightarrow> wf_state w \<Longrightarrow> (\<And>k b. P k b b) \<Longrightarrow> evolves P w w'"
  using env_change_inv [of w w'] by (auto simp: evolves_def keeps_def env_change_def)

lemma env_change_size: "env_change w w' \<Longrightarrow> num_blocks w' = num_blocks w"
  by (simp add: env_change_def same_params_def)

lemmas env_defs = time_null_def calloc_def rand_u32_def sendto_def statistics_record_def

subsection \<open>Sending\<close>

lemma new_ddhcp_packet_cases:
  obtains (none) w' where "new_ddhcp_packet c w = (None, w')" "env_change w w'"
  | (some) w' p where "new_ddhcp_packet c w = (Some p, w')" "env_change w w'"
      "p = \<lparr>m_node_id = c_node_id w, m_prefix = c_prefix w, m_prefix_len = c_prefix_len w,
         m_blocksize = c_block_size w, m_command = c, m_count = 0, m_sender = None, m_body = No_body\<rparr>"
proof (cases "shd (w_allocs w)")
  case True
  show thesis
    by (rule some [of _ "w\<lparr>w_allocs := stl (w_allocs w)\<rparr>", OF _ _ refl])
      (simp_all add: new_ddhcp_packet_def calloc_def True)
next
  case False
  show thesis
    by (rule none [of "w\<lparr>w_allocs := stl (w_allocs w)\<rparr>"])
      (simp_all add: new_ddhcp_packet_def calloc_def False)
qed

text \<open>A packet is sent as its bytes, or the allocation fails and nothing leaves.\<close>

lemma send_packet_ok:
  assumes "0 \<le> packet_size (m_command p) (uint (m_count p)) \<Longrightarrow> hton_packet p \<noteq> None"
  shows "ok (send_packet dest p w) (\<lambda>(n, w'). env_change w w' \<and>
    (w_out w' = w_out w \<and> n = -1 \<or>
     (\<exists>bs. hton_packet p = Some bs \<and> w_out w' = w_out w @ [dest bs])))"
proof (cases "\<not> shd (w_allocs w) \<or> packet_size (m_command p) (uint (m_count p)) < 0")
  case True
  then show ?thesis by (auto simp: send_packet_def calloc_def)
next
  case False
  then obtain bs where "hton_packet p = Some bs" using assms by auto
  with False show ?thesis
    by (simp add: send_packet_def calloc_def sendto_def env_change_def same_params_def)
qed

lemma send_packet_done:
  assumes "shd (w_allocs w)" "0 \<le> packet_size (m_command p) (uint (m_count p))" "hton_packet p = Some bs"
  shows "send_packet dest p w = Some (sendto (dest bs) (w\<lparr>w_allocs := stl (w_allocs w)\<rparr>))"
  using assms by (simp add: send_packet_def calloc_def Let_def)

lemma wf_packet_hton: "wf_mcast p \<Longrightarrow> hton_packet p \<noteq> None"
proof -
  assume "wf_mcast p"
  moreover have "wf_body (m_command p) (unat (m_count p)) (m_body p) \<Longrightarrow>
      hton_body (m_command p) (unat (m_count p)) (m_body p) \<noteq> None"
    using hton_body_size by fastforce
  ultimately show ?thesis by (auto simp: hton_packet_def wf_mcast_def)
qed

subsection \<open>Allocating, owning and freeing\<close>

definition freed :: "ddhcp_block \<Rightarrow> ddhcp_block" where
  "freed b = b\<lparr>b_node_id := zero_node_id, b_state := DDHCP_FREE, b_addresses := None,
     b_needless_since := (if b_addresses b = None then b_needless_since b else 0)\<rparr>"

lemma freed_None:
  "b_addresses b = None \<Longrightarrow> freed b = b\<lparr>b_node_id := zero_node_id, b_state := DDHCP_FREE\<rparr>"
  by (rule ddhcp_block.equality) (simp_all add: freed_def)

lemma wf_freed: "wf_block w i b \<Longrightarrow> wf_block w i (freed b)"
  by (simp add: wf_block_def freed_def zero_node_id_def)

lemma block_free_eq:
  assumes "wf_state w" "i < num_blocks w"
  shows "block_free i w = Some (put_block i (freed (c_blocks w ! i)) w)"
proof -
  have "b_state (c_blocks w ! i) \<noteq> DDHCP_BLOCKED"
    using inv_block [OF assms] by (simp add: wf_block_def)
  then show ?thesis
    using assms
    by (cases "b_addresses (c_blocks w ! i)")
      (simp_all add: block_free_def inv_length freed_None, simp add: freed_def)
qed

lemma inv_block_free: "wf_state w \<Longrightarrow> wf_state (put_block i (freed (c_blocks w ! i)) w)"
  using inv_block by (intro inv_put_block wf_freed)

text \<open>The claim list, its counter and the option store are untouched.\<close>

definition same_claims :: "world \<Rightarrow> world \<Rightarrow> bool" where
  "same_claims w w' \<longleftrightarrow> c_claiming_blocks w' = c_claiming_blocks w \<and>
     c_claiming_blocks_amount w' = c_claiming_blocks_amount w \<and> c_options w' = c_options w"

lemma same_claims_refl [simp]: "same_claims w w"
  by (simp add: same_claims_def)

lemma same_claims_trans: "same_claims u v \<Longrightarrow> same_claims v w \<Longrightarrow> same_claims u w"
  by (simp add: same_claims_def)

lemma same_claims_put [simp]: "same_claims w (put_block i b w')  = same_claims w w'"
  by (simp add: same_claims_def put_block_def)

lemma env_change_claims: "env_change w w' \<Longrightarrow> same_claims w w'"
  by (simp add: env_change_def same_claims_def)

definition new_leases :: "u8 \<Rightarrow> dhcp_lease list" where
  "new_leases n = replicate (unat n) zero_lease"

lemma wf_zero_lease [simp]: "wf_lease zero_lease"
  by (simp add: wf_lease_def zero_lease_def zero_chaddr_def)

lemma block_alloc_cases:
  assumes "wf_state w" "i < num_blocks w"
  obtains (allocated) "b_addresses (c_blocks w ! i) \<noteq> None" "block_alloc (Some i) w = Some (0, w)"
  | (failed) w' where "b_addresses (c_blocks w ! i) = None"
      "block_alloc (Some i) w = Some (1, w')" "env_change w w'" "calm w w'" "\<not> reliable w"
  | (new) w' where "b_addresses (c_blocks w ! i) = None" "env_change w w'" "calm w w'"
      "block_alloc (Some i) w =
        Some (0, put_block i ((c_blocks w ! i)\<lparr>b_addresses := Some (new_leases (c_block_size w))\<rparr>) w')"
proof -
  have len: "i < length (c_blocks w)" using assms by (simp add: inv_length)
  have size: "b_subnet_len (c_blocks w ! i) = c_block_size w"
    using inv_block [OF assms] by (simp add: wf_block_def)
  let ?w = "w\<lparr>w_allocs := stl (w_allocs w)\<rparr>"
  consider "b_addresses (c_blocks w ! i) \<noteq> None"
    | "b_addresses (c_blocks w ! i) = None" "\<not> shd (w_allocs w)"
    | "b_addresses (c_blocks w ! i) = None" "shd (w_allocs w)" by blast
  then show thesis
  proof cases
    case 1
    then show thesis using len by (intro allocated) (simp_all add: block_alloc_def)
  next
    case 2
    then show thesis using len reliable_now(1) [of w]
      by (intro failed [of ?w]) (auto simp: block_alloc_def calloc_def)
  next
    case 3
    then show thesis using len size
      by (intro new [of ?w])
        (simp_all add: block_alloc_def calloc_def new_leases_def zero_lease_def)
  qed
qed

definition owned :: "world \<Rightarrow> int \<Rightarrow> ddhcp_block \<Rightarrow> ddhcp_block" where
  "owned w now b = b\<lparr>b_state := DDHCP_OURS, b_first_claimed := now, b_node_id := c_node_id w,
     b_addresses := Some (case b_addresses b of None \<Rightarrow> new_leases (c_block_size w) | Some ls \<Rightarrow> ls)\<rparr>"

lemma owned_cong: "same_params w w' \<Longrightarrow> owned w' = owned w"
  by (simp add: owned_def same_params_def fun_eq_iff cong: option.case_cong)

lemma owned_Some:
  "b_addresses b = Some ls \<Longrightarrow>
    owned w now b = b\<lparr>b_state := DDHCP_OURS, b_first_claimed := now, b_node_id := c_node_id w\<rparr>"
  by (rule ddhcp_block.equality) (simp_all add: owned_def)

lemma owned_None:
  "b_addresses b = None \<Longrightarrow>
    owned w now b = b\<lparr>b_addresses := Some (new_leases (c_block_size w)), b_state := DDHCP_OURS,
      b_first_claimed := now, b_node_id := c_node_id w\<rparr>"
  by (rule ddhcp_block.equality) (simp_all add: owned_def)

lemma wf_owned: "wf_state w \<Longrightarrow> wf_block w i b \<Longrightarrow> wf_block w i (owned w now b)"
  by (cases "b_addresses b")
    (auto simp: wf_block_def owned_def new_leases_def wf_state_def wf_params_def)

definition own_rel :: "world \<Rightarrow> nat \<Rightarrow> nat \<Rightarrow> ddhcp_block \<Rightarrow> ddhcp_block \<Rightarrow> bool" where
  "own_rel w i k b b' \<longleftrightarrow> (if k = i then \<exists>now. b' = owned w now b else b' = b)"

lemma block_own_ok:
  assumes inv: "wf_state w" and i: "i < num_blocks w"
  shows "ok (block_own (Some i) w) (\<lambda>(r, w').
    (r = 1 \<and> env_change w w' \<and> \<not> reliable w \<or> r = 0 \<and> evolves (own_rel w i) w w') \<and>
    same_claims w w' \<and> calm w w')"
proof -
  let ?b = "c_blocks w ! i"
  have own: "evolves (own_rel w i) w (put_block i (owned w now ?b) v)"
    if v: "env_change w v" for v now
  proof -
    have "evolves (own_rel w i) v (put_block i (owned w now ?b) v)"
      using inv i v inv_block [OF inv i] wf_owned [OF inv inv_block [OF inv i]]
      by (intro evolves_put) (auto simp: own_rel_def env_change_def wf_block_cong env_change_inv)
    then show ?thesis
      using v env_change_size [OF v] by (auto simp: evolves_def keeps_def env_change_def intro: same_params_trans)
  qed
  have len: "i < length (c_blocks w)" using inv i by (simp add: inv_length)
  from inv i show ?thesis
  proof (cases rule: block_alloc_cases)
    case allocated
    then show ?thesis
      using own [of "w\<lparr>w_times := stl (w_times w)\<rparr>" "shd (w_times w)"] len
      by (auto simp: block_own_def time_null_def owned_Some same_claims_def put_block_def)
  next
    case (failed w')
    then show ?thesis by (simp add: block_own_def env_change_claims)
  next
    case (new w')
    let ?v = "w'\<lparr>w_times := stl (w_times w')\<rparr>"
    have "env_change w ?v" using new(2) by (auto simp: env_change_def same_params_def)
    moreover have "c_blocks w' = c_blocks w" "c_node_id w' = c_node_id w"
      using new(2) by (simp_all add: env_change_def same_params_def)
    ultimately show ?thesis
      using own [of ?v "shd (w_times w')"] len new env_change_claims [OF new(2)]
      by (auto simp: block_own_def time_null_def owned_None same_claims_def put_block_def)
  qed
qed

subsection \<open>The claiming process: blocks already announced\<close>

lemma inv_claiming:
  assumes "wf_state w"
  shows "distinct (c_claiming_blocks w)" "i \<in> set (c_claiming_blocks w) \<Longrightarrow> i < num_blocks w"
    "length (c_claiming_blocks w) \<le> 255"
    "c_claiming_blocks_amount w = of_nat (length (c_claiming_blocks w))"
  using assms by (auto simp: wf_state_def wf_claiming_def)

lemma amount_unat: "wf_state w \<Longrightarrow> unat (c_claiming_blocks_amount w) = length (c_claiming_blocks w)"
  using inv_claiming(3,4) [of w] by (simp add: unat_of_nat)

lemma amount_uint: "wf_state w \<Longrightarrow> uint (c_claiming_blocks_amount w) = int (length (c_claiming_blocks w))"
  using amount_unat [of w] by (metis of_nat_unat)

lemma wf_state_set_claims:
  assumes "wf_state w" "distinct cl" "\<forall>i \<in> set cl. i < num_blocks w" "length cl \<le> 255" "n = of_nat (length cl)"
  shows "wf_state (w\<lparr>c_claiming_blocks := cl, c_claiming_blocks_amount := n\<rparr>)"
  using assms
  by (simp add: wf_state_def wf_claiming_def wf_blocks_def wf_params_def wf_block_def block_subnet_def)

lemma evolves_set_claims:
  assumes "wf_state (w\<lparr>c_claiming_blocks := cl, c_claiming_blocks_amount := n\<rparr>)" "\<And>k b. P k b b"
  shows "evolves P w (w\<lparr>c_claiming_blocks := cl, c_claiming_blocks_amount := n\<rparr>)"
  using assms by (simp add: evolves_def keeps_def same_params_def)

lemma wf_claim_list_del:
  assumes "wf_state w" "i \<in> set (c_claiming_blocks w)"
  shows "wf_state (claim_list_del i w)"
  unfolding claim_list_del_def
proof (rule wf_state_set_claims [OF assms(1)])
  note cl = inv_claiming [OF assms(1)]
  show "distinct (remove1 i (c_claiming_blocks w))" using cl by simp
  show "\<forall>j \<in> set (remove1 i (c_claiming_blocks w)). j < num_blocks w"
    using cl set_remove1_subset [of i "c_claiming_blocks w"] by auto
  show "length (remove1 i (c_claiming_blocks w)) \<le> 255"
    using cl(3) le_trans [OF diff_le_self] by (auto simp: length_remove1)
  obtain n where "length (c_claiming_blocks w) = Suc n"
    using assms(2) by (cases "c_claiming_blocks w") auto
  then show "c_claiming_blocks_amount w - 1 = of_nat (length (remove1 i (c_claiming_blocks w)))"
    using cl assms(2) by (simp add: length_remove1)
qed

definition stays :: "world \<Rightarrow> nat \<Rightarrow> bool" where
  "stays w i \<longleftrightarrow> b_state (c_blocks w ! i) = DDHCP_CLAIMING \<and> b_claiming_counts (c_blocks w ! i) \<noteq> 3"

text \<open>A visited block with three announcements is owned, or forgotten when memory is short.\<close>

definition sweep_rel :: "world \<Rightarrow> nat set \<Rightarrow> nat \<Rightarrow> ddhcp_block \<Rightarrow> ddhcp_block \<Rightarrow> bool" where
  "sweep_rel w S k b b' \<longleftrightarrow> b' = b \<or>
     k \<in> S \<and> b_claiming_counts b = 3 \<and> ((\<exists>now. b' = owned w now b) \<or> b' = b\<lparr>b_claiming_counts := 0\<rparr>)"

definition ripe :: "world \<Rightarrow> nat \<Rightarrow> bool" where
  "ripe w i \<longleftrightarrow> b_claiming_counts (c_blocks w ! i) = 3"

text \<open>When memory suffices, every block with three announcements is owned and counted.\<close>

definition sweep_live :: "world \<Rightarrow> int \<Rightarrow> nat list \<Rightarrow> int \<Rightarrow> world \<Rightarrow> bool" where
  "sweep_live w0 num0 ys num w \<longleftrightarrow> calm w0 w \<and>
     (reliable w0 \<longrightarrow> num = num0 - int (length (filter (ripe w0) ys)) \<and>
       (\<forall>k \<in> set ys. ripe w0 k \<longrightarrow> b_state (c_blocks w ! k) = DDHCP_OURS))"

definition sweep_inv :: "world \<Rightarrow> int \<Rightarrow> nat list \<Rightarrow> int \<times> world \<Rightarrow> bool" where
  "sweep_inv w0 num0 ys = (\<lambda>(num, w). evolves (sweep_rel w0 (set ys)) w0 w \<and> num \<le> num0 \<and>
     c_options w = c_options w0 \<and> sweep_live w0 num0 ys num w \<and>
     c_claiming_blocks w = filter (stays w0) ys @ drop (length ys) (c_claiming_blocks w0))"

lemma sweep_rel_mono: "sweep_rel w S k b b' \<Longrightarrow> S \<subseteq> T \<Longrightarrow> sweep_rel w T k b b'"
  by (auto simp: sweep_rel_def)

lemma evolves_keep_blocks:
  assumes "evolves P u v" "wf_state w" "same_params v w" "c_blocks w = c_blocks v"
  shows "evolves P u w"
  using assms by (auto simp: evolves_def keeps_def intro: same_params_trans)

lemma claim_list_del_simps [simp]:
  "c_blocks (claim_list_del i w) = c_blocks w" "c_options (claim_list_del i w) = c_options w"
  "same_params w (claim_list_del i w)"
  "c_claiming_blocks (claim_list_del i w) = remove1 i (c_claiming_blocks w)"
  by (simp_all add: claim_list_del_def same_params_def)

lemma sweep_live_del [simp]: "sweep_live w0 num0 ys num (claim_list_del i w) = sweep_live w0 num0 ys num w"
  unfolding sweep_live_def by (simp add: claim_list_del_def)

lemma sweep_live_snoc:
  assumes "sweep_live w0 num0 ys num w" "calm w v"
    "\<forall>k \<in> set ys. b_state (c_blocks v ! k) = b_state (c_blocks w ! k)"
    "reliable w0 \<longrightarrow> num' = (if ripe w0 i then num - 1 else num) \<and>
       (ripe w0 i \<longrightarrow> b_state (c_blocks v ! i) = DDHCP_OURS)"
  shows "sweep_live w0 num0 (ys @ [i]) num' v"
  using assms calm_trans [of w0 w v] by (auto simp: sweep_live_def)

lemma sweep_del:
  assumes L: "c_claiming_blocks w0 = ys @ i # zs" and inv0: "wf_state w0"
    and ev: "evolves (sweep_rel w0 (set (ys @ [i]))) w0 w" and num: "num \<le> num0"
    and cl: "c_claiming_blocks w = filter (stays w0) ys @ i # zs" "c_options w = c_options w0"
    and leaves: "\<not> stays w0 i" and live: "sweep_live w0 num0 (ys @ [i]) num w"
  shows "sweep_inv w0 num0 (ys @ [i]) (num, claim_list_del i w)"
proof -
  have "i \<notin> set ys" using inv_claiming(1) [OF inv0] L by auto
  then have "remove1 i (c_claiming_blocks w) = filter (stays w0) (ys @ [i]) @ zs"
    using cl leaves by (simp add: remove1_append)
  moreover have "evolves (sweep_rel w0 (set (ys @ [i]))) w0 (claim_list_del i w)"
    using evolvesD(1) [OF ev] cl
    by (intro evolves_keep_blocks [OF ev] wf_claim_list_del) auto
  ultimately show ?thesis
    using L num cl live by (simp add: sweep_inv_def)
qed

lemma claim_step_ok:
  assumes L: "c_claiming_blocks w0 = ys @ i # zs" and inv0: "wf_state w0"
    and s: "sweep_inv w0 num0 ys s"
  shows "ok (claim_step i s) (sweep_inv w0 num0 (ys @ [i]))"
proof -
  obtain num w where [simp]: "s = (num, w)" by (cases s)
  have ev: "evolves (sweep_rel w0 (set ys)) w0 w" and num: "num \<le> num0"
    and cl: "c_claiming_blocks w = filter (stays w0) ys @ i # zs" and opt: "c_options w = c_options w0"
    and live: "sweep_live w0 num0 ys num w"
    using s L by (auto simp: sweep_inv_def)
  note w = evolvesD(1-4) [OF ev]
  have i: "i < num_blocks w0" "i < num_blocks w" "i < length (c_blocks w)"
    using inv_claiming(2) [OF inv0] L w inv_length [OF w(1)] by auto
  have "i \<notin> set ys" using inv_claiming(1) [OF inv0] L by auto
  then have bi: "c_blocks w ! i = c_blocks w0 ! i"
    using evolvesD(5) [OF ev i(1)] by (auto simp: sweep_rel_def)
  have ev': "evolves (sweep_rel w0 (set (ys @ [i]))) w0 w"
    using ev by (rule evolves_mono) (auto elim: sweep_rel_mono)
  have own: "owned w = owned w0" using w(2) by (simp add: keeps_def owned_cong)
  note del = sweep_del [OF L inv0] and snoc = sweep_live_snoc [OF live]
  have yl: "\<forall>k \<in> set ys. k < num_blocks w \<and> k \<noteq> i"
    using inv_claiming(2) [OF inv0] L w(3) \<open>i \<notin> set ys\<close> by auto
  show ?thesis
  proof (cases "b_claiming_counts (c_blocks w0 ! i) = 3")
    case True
    have leaves: "\<not> stays w0 i" using True by (simp add: stays_def)
    have *: "ok (do {
         (num, w) \<leftarrow> (if r > 0 then do {
            b \<leftarrow> get_block i v;
            Some (num, put_block i (b\<lparr>b_claiming_counts := 0\<rparr>) v) }
          else Some (num - 1, v));
         Some (num, claim_list_del i w) }) (sweep_inv w0 num0 (ys @ [i]))"
      if v: "r = (1::int) \<and> env_change w v \<and> \<not> reliable w \<or> r = 0 \<and> evolves (own_rel w i) w v"
        "same_claims w v" "calm w v" for r v
    proof (cases "r = 0")
      case r: True
      with v have eo: "evolves (own_rel w i) w v" by auto
      have "b_state (c_blocks v ! k) = b_state (c_blocks w ! k)" if "k \<in> set ys" for k
        using evolvesD(5) [OF eo, of k] yl that by (auto simp: own_rel_def)
      moreover have "b_state (c_blocks v ! i) = DDHCP_OURS"
        using evolvesD(5) [OF eo i(2)] by (auto simp: own_rel_def owned_def)
      ultimately have lv: "sweep_live w0 num0 (ys @ [i]) (num - 1) v"
        using True v(3) by (intro snoc) (auto simp: ripe_def)
      from eo have "evolves (sweep_rel w0 (set (ys @ [i]))) w0 v"
        using \<open>i \<notin> set ys\<close> bi True own
        by (elim evolves_trans_at [OF ev])
          (auto simp: own_rel_def sweep_rel_def split: if_splits)
      then show ?thesis
        using r num cl opt v(2) lv by (auto simp: same_claims_def intro!: del [OF _ _ _ _ leaves])
    next
      case False
      then have r: "r = 1" and env: "env_change w v" and nr: "\<not> reliable w" using v by auto
      have "\<not> reliable w0" using nr live by (auto simp: sweep_live_def calm_def)
      have vi: "c_blocks v ! i = c_blocks w0 ! i" "i < num_blocks v" "i < length (c_blocks v)" "wf_state v"
        using env i bi env_change_inv [OF env w(1)] by (auto simp: env_change_def same_params_def)
      let ?v = "put_block i ((c_blocks v ! i)\<lparr>b_claiming_counts := 0\<rparr>) v"
      have lv: "sweep_live w0 num0 (ys @ [i]) num ?v"
        using \<open>\<not> reliable w0\<close> v(3) env yl by (intro snoc) (auto simp: env_change_def)
      have e1: "evolves (sweep_rel w0 (set ys)) w0 v"
        using ev env by (intro evolves_keep_blocks [OF ev vi(4)]) (simp_all add: env_change_def)
      have e2: "evolves (\<lambda>k b b'. b' = (if k = i then b\<lparr>b_claiming_counts := 0\<rparr> else b)) v ?v"
        using vi inv_block [OF vi(4,2)] by (intro evolves_put) (auto simp: wf_block_def)
      have "evolves (sweep_rel w0 (set (ys @ [i]))) w0 ?v"
        using True \<open>i \<notin> set ys\<close> vi(1)
        by (intro evolves_trans_at [OF e1 e2]) (auto simp: sweep_rel_def split: if_splits)
      then show ?thesis
        using r num cl opt v(2) vi lv
        by (auto simp: same_claims_def put_block_def intro!: del [OF _ _ _ _ leaves])
    qed
    obtain r v where own_eq: "block_own (Some i) w = Some (r, v)"
      and v: "r = 1 \<and> env_change w v \<and> \<not> reliable w \<or> r = 0 \<and> evolves (own_rel w i) w v"
        "same_claims w v" "calm w v"
      using block_own_ok [OF w(1) i(2)] by (auto simp: ok_iff)
    show ?thesis
      using * [OF v] True i bi by (simp add: claim_step_def own_eq)
  next
    case False
    have lv: "sweep_live w0 num0 (ys @ [i]) num w" using False by (intro snoc) (simp_all add: ripe_def)
    show ?thesis
    proof (cases "b_state (c_blocks w0 ! i) = DDHCP_CLAIMING")
      case True
      with False show ?thesis
        using ev' cl num opt L i bi lv
        by (simp add: claim_step_def sweep_inv_def stays_def)
    next
      case ncl: False
      then show ?thesis
        using del [OF ev' num cl opt _ lv] False i bi
        by (simp add: claim_step_def stays_def)
    qed
  qed
qed


lemma sweep_ok:
  assumes "wf_state w"
  shows "ok (foldM claim_step (c_claiming_blocks w) (num, w))
    (sweep_inv w num (c_claiming_blocks w))"
proof (rule foldM_prefix_ok [where I = "sweep_inv w num"])
  show "sweep_inv w num [] (num, w)"
    using assms by (auto simp: sweep_inv_def sweep_live_def sweep_rel_def intro: evolves_refl)
qed (rule claim_step_ok [OF _ assms])

subsection \<open>The claiming process: new blocks\<close>

lemma free_blocks_eq:
  assumes "wf_state w"
  shows "free_blocks w = Some (filter (\<lambda>i. b_state (c_blocks w ! i) = DDHCP_FREE) [0..<num_blocks w])"
proof -
  have "foldM (\<lambda>i fb. do { b \<leftarrow> get_block i w; Some (if b_state b = DDHCP_FREE then fb @ [i] else fb) })
      [0..<n] [] = Some (filter (\<lambda>i. b_state (c_blocks w ! i) = DDHCP_FREE) [0..<n])"
    if "n \<le> num_blocks w" for n
    using that inv_length [OF assms] by (induction n) (simp_all add: foldM_append)
  then show ?thesis by (simp add: free_blocks_def)
qed

lemma pick_free_nth: "unat r < length fb \<Longrightarrow> pick_free fb r = Some (fb ! unat r)"
proof (induction fb r rule: pick_free.induct)
  case (1 r)
  then show ?case by simp
next
  case (2 i "is" r)
  show ?case
  proof (cases "r = 0")
    case False
    then have "unat r = Suc (unat (r - 1))"
      by (simp add: unat_minus_one unat_gt_0 word_neq_0_conv)
    with 2 False show ?thesis by simp
  qed simp
qed

text \<open>A block is chosen exactly when there is one, and it is free.\<close>

lemma block_find_free_cases:
  assumes "wf_state w"
  obtains (none) w' where "block_find_free w = Some (None, w')" "env_change w w'" "calm w w'"
      "\<forall>i < num_blocks w. b_state (c_blocks w ! i) \<noteq> DDHCP_FREE"
  | (some) w' i where "block_find_free w = Some (Some i, w')" "env_change w w'"
      "i < num_blocks w" "b_state (c_blocks w ! i) = DDHCP_FREE" "calm w w'"
proof -
  define fb where "fb = filter (\<lambda>i. b_state (c_blocks w ! i) = DDHCP_FREE) [0..<num_blocks w]"
  have eq: "free_blocks w = Some fb" using assms by (simp add: free_blocks_eq fb_def)
  have mem: "i \<in> set fb \<Longrightarrow> i < num_blocks w \<and> b_state (c_blocks w ! i) = DDHCP_FREE" for i
    by (auto simp: fb_def)
  let ?n = "of_nat (length fb) :: u32"
  have "length fb \<le> num_blocks w"
    using length_filter_le [of _ "[0..<num_blocks w]"] by (simp add: fb_def)
  then have n: "unat ?n = length fb" using unat_u32_less [of "c_number_of_blocks w"] by (simp add: unat_of_nat)
  show thesis
  proof (cases "fb = []")
    case True
    then have "\<forall>i < num_blocks w. b_state (c_blocks w ! i) \<noteq> DDHCP_FREE"
      by (auto simp: fb_def filter_empty_conv)
    with True show thesis
      by (intro none [of w]) (simp_all add: block_find_free_def eq)
  next
    case False
    define r where "r = shd (w_rands w) mod ?n"
    have pos: "0 < ?n" using False n by (simp add: word_less_nat_alt)
    then have r: "unat r < length fb"
      using n by (metis r_def word_mod_less_divisor word_less_nat_alt)
    then have "block_find_free w = Some (Some (fb ! unat r), w\<lparr>w_rands := stl (w_rands w)\<rparr>)"
      using pos pick_free_nth [OF r] by (simp add: block_find_free_def eq rand_u32_def Let_def r_def)
    then show thesis
      using mem [OF nth_mem [OF r]] by (intro some) auto
  qed
qed

definition find_rel :: "world \<Rightarrow> int \<Rightarrow> nat \<Rightarrow> ddhcp_block \<Rightarrow> ddhcp_block \<Rightarrow> bool" where
  "find_rel w now k b b' \<longleftrightarrow> b' = b \<or> b_state b = DDHCP_FREE \<and>
     b' = b\<lparr>b_state := DDHCP_CLAIMING, b_claiming_counts := 0,
       b_timeout := now + uint (c_tentative_timeout w)\<rparr>"

text \<open>Every listed block is being claimed.\<close>

definition listed :: "world \<Rightarrow> bool" where
  "listed w \<longleftrightarrow> (\<forall>i \<in> set (c_claiming_blocks w). b_state (c_blocks w ! i) = DDHCP_CLAIMING)"

definition find_inv :: "world \<Rightarrow> int \<Rightarrow> nat \<Rightarrow> world \<Rightarrow> bool" where
  "find_inv w0 now n w \<longleftrightarrow> evolves (find_rel w0 now) w0 w \<and> listed w \<and>
     c_options w = c_options w0 \<and> calm w0 w \<and>
     (\<exists>new. c_claiming_blocks w = c_claiming_blocks w0 @ new \<and> length new \<le> n \<and>
        (\<forall>k \<in> set new. k < num_blocks w0 \<and> b_state (c_blocks w0 ! k) = DDHCP_FREE) \<and>
        (length new = n \<or> (\<forall>k < num_blocks w0. b_state (c_blocks w ! k) \<noteq> DDHCP_FREE)))"

lemma claim_find_ok:
  assumes s: "find_inv w0 now n w" and len: "length (c_claiming_blocks w0) + n < 255"
  shows "ok (claim_find now w) (find_inv w0 now (Suc n))"
proof -
  have ev: "evolves (find_rel w0 now) w0 w" and ls: "listed w"
    and opt: "c_options w = c_options w0" and calm: "calm w0 w"
    using s by (auto simp: find_inv_def)
  obtain new where cl: "c_claiming_blocks w = c_claiming_blocks w0 @ new" "length new \<le> n"
    "\<forall>k \<in> set new. k < num_blocks w0 \<and> b_state (c_blocks w0 ! k) = DDHCP_FREE"
    "length new = n \<or> (\<forall>k < num_blocks w0. b_state (c_blocks w ! k) \<noteq> DDHCP_FREE)"
    using s by (auto simp: find_inv_def)
  note inv = evolvesD(1) [OF ev]
  from inv show ?thesis
  proof (cases rule: block_find_free_cases)
    case (none w')
    have "evolves (find_rel w0 now) w0 w'"
      using none(2) env_change_inv [OF none(2) inv] by (intro evolves_keep_blocks [OF ev]) (auto simp: env_change_def)
    moreover have "\<forall>k < num_blocks w0. b_state (c_blocks w' ! k) \<noteq> DDHCP_FREE"
      using none(2,4) evolvesD(3) [OF ev] by (auto simp: env_change_def)
    ultimately show ?thesis
      using none ls cl opt calm_trans [OF calm none(3)]
      by (auto simp: claim_find_def find_inv_def env_change_def listed_def)
  next
    case (some w' i)
    have inv': "wf_state w'" using some(2) inv by (rule env_change_inv)
    have same: "c_blocks w' = c_blocks w" "c_claiming_blocks w' = c_claiming_blocks w"
      "c_options w' = c_options w" "num_blocks w' = num_blocks w" "c_tentative_timeout w' = c_tentative_timeout w0"
      using some(2) evolvesD(2) [OF ev] by (auto simp: env_change_def same_params_def keeps_def)
    let ?b = "(c_blocks w ! i)\<lparr>b_state := DDHCP_CLAIMING, b_claiming_counts := 0,
       b_timeout := now + uint (c_tentative_timeout w0)\<rparr>"
    let ?v = "put_block i ?b w'"
    let ?u = "?v\<lparr>c_claiming_blocks := c_claiming_blocks w @ [i],
        c_claiming_blocks_amount := c_claiming_blocks_amount w' + 1\<rparr>"
    have e1: "evolves (find_rel w0 now) w0 w'"
      using some(2) inv' by (intro evolves_keep_blocks [OF ev]) (auto simp: env_change_def)
    have free: "b_addresses (c_blocks w ! i) = None"
      using inv_block [OF inv some(3)] some(4) by (cases "b_addresses (c_blocks w ! i)") (auto simp: wf_block_def)
    have e2: "evolves (\<lambda>k b b'. b' = (if k = i then ?b else b)) w' ?v"
      using inv_block [OF inv' , of i] inv' some(3,4) same free
      by (intro evolves_put) (auto simp: wf_block_def)
    have i: "i \<notin> set (c_claiming_blocks w)" using ls some(4) by (auto simp: listed_def)
    have e3: "evolves (find_rel w0 now) w0 ?v"
      using some(4) same by (intro evolves_trans_at [OF e1 e2]) (auto simp: find_rel_def split: if_splits)
    have "wf_state ?u"
      using evolvesD(1) [OF e3] i some(3) cl len same inv_claiming [OF inv']
      by (intro wf_state_set_claims) (auto simp: put_block_def)
    then have "evolves (find_rel w0 now) w0 ?u"
      by (intro evolves_keep_blocks [OF e3]) (simp_all add: same_params_def)
    moreover have "listed ?u"
      using ls i some(3) inv_length [OF inv'] same by (auto simp: listed_def nth_list_update put_block_def)
    moreover have "claim_find now w = Some ?u"
      using some same inv_length [OF inv'] by (simp add: claim_find_def put_block_def)
    moreover have "i < num_blocks w0" "b_state (c_blocks w0 ! i) = DDHCP_FREE"
      using some(3,4) evolvesD(3) [OF ev] evolvesD(5) [OF ev, of i] by (auto simp: find_rel_def)
    moreover have "length new = n" using cl(4) some(3,4) evolvesD(3) [OF ev] by auto
    moreover have "calm w0 ?u" using calm_trans [OF calm some(5)] by simp
    ultimately show ?thesis
      using cl(1,3) opt same by (auto simp: find_inv_def put_block_def)
  qed
qed

lemma claim_finds_ok:
  assumes "wf_state w" "listed w" "length (c_claiming_blocks w) + n \<le> 255"
  shows "ok (foldM (\<lambda>_. claim_find now) [0..<n] w) (find_inv w now n)"
proof (rule foldM_upt_ok [where I = "find_inv w now"])
  show "find_inv w now 0 w"
    using assms by (auto simp: find_inv_def find_rel_def intro: evolves_refl)
qed (use assms in \<open>auto intro: claim_find_ok\<close>)

end
