(* ===== verification/Dhcp_Answer.thy ===== *)
theory Dhcp_Answer
  imports Dhcp Block_Inv
begin

text \<open>
  The answers of the DHCP part: which options they carry, and that building and sending one
  has no undefined behaviour for a readable request and a well-formed option store.
\<close>

subsection \<open>The environment and the cache\<close>

definition quiet :: "world \<Rightarrow> world \<Rightarrow> bool" where
  "quiet w w' \<longleftrightarrow> env_change w w' \<and> c_dhcp_packet_cache w' = c_dhcp_packet_cache w"

lemma quiet_refl [simp]: "quiet w w"
  by (simp add: quiet_def)

lemma quiet_trans: "quiet u v \<Longrightarrow> quiet v w \<Longrightarrow> quiet u w"
  by (auto simp: quiet_def intro: env_change_trans)

lemma quiet_env: "quiet w w' \<Longrightarrow> env_change w w'"
  by (simp add: quiet_def)

lemma quiet_update [simp]:
  "quiet w (w\<lparr>w_times := ts\<rparr>)" "quiet w (w\<lparr>w_allocs := al\<rparr>)" "quiet w (w\<lparr>w_out := out\<rparr>)"
  "quiet w (statistics_record s n w)"
  by (simp_all add: quiet_def statistics_record_def)

lemma quiet_hook: "quiet w (hook_address t a c w)"
  using hook_address_out [of t a c w] by (auto simp: quiet_def)

subsection \<open>Options\<close>

lemma readable_zero [simp]: "readable zero_option"
  by (simp add: readable_def zero_option_def)

lemma wf_store_readable: "wf_store s \<Longrightarrow> find_in_option_store s c = Some x \<Longrightarrow> readable x"
  using wf_store_find [of s c x] by (simp add: wf_option_def readable_def)

lemma set_option_readable:
  assumes "wf_options os len" "\<forall>x \<in> set os. readable x" "unat pl \<le> length payload"
  shows "ok (set_option os len code pl payload)
    (\<lambda>(r, os'). wf_options os' len \<and> (\<forall>x \<in> set os'. readable x))"
proof -
  have "\<forall>x \<in> set (os[i := \<lparr>o_code = code, o_len = pl, o_payload = payload\<rparr>]). readable x" for i
    using assms(2,3) set_update_subset_insert [of os i] by (force simp: readable_def)
  then show ?thesis
    using assms(1,2)
    by (auto simp: set_option_def find_idx_find wf_options_def split: option.splits)
qed

lemma set_option_from_store_readable:
  assumes "wf_options os len" "\<forall>x \<in> set os. readable x" "wf_store s"
  shows "ok (set_option_from_store s os len code)
    (\<lambda>(r, os'). wf_options os' len \<and> (\<forall>x \<in> set os'. readable x))"
  using assms wf_store_readable [OF assms(3), of code]
  by (auto simp: set_option_from_store_def readable_def [of "the _"] split: option.splits
      intro!: set_option_readable) (auto simp: readable_def)

lemma fill_options_ok:
  assumes wf: "wf_dhcp_packet request" and st: "wf_store store"
  shows "ok (fill_options (d_options request) (d_options_len request) store 3 w) (\<lambda>((n, os), w').
    w' = w\<lparr>w_allocs := stl (w_allocs w)\<rparr> \<and>
    (n = - ENOMEM \<and> \<not> shd (w_allocs w) \<or>
      0 \<le> n \<and> n \<le> int (length os) \<and> (\<forall>x \<in> set os. readable x)))"
proof (cases "shd (w_allocs w)")
  case mem: True
  have len: "wf_options (d_options request) (d_options_len request)"
    using wf by (simp add: wf_options_def wf_dhcp_packet_def)
  show ?thesis
  proof (cases "find (\<lambda>x. o_code x = DHCP_CODE_PARAMETER_REQUEST_LIST) (sent_options request)")
    case None
    then have "find_option (d_options request) (d_options_len request) DHCP_CODE_PARAMETER_REQUEST_LIST = Some None"
      using find_option_eq [OF len] by (simp add: sent_options_def)
    from fill_options_none [OF this mem] show ?thesis by simp
  next
    case (Some req)
    then have f: "find_option (d_options request) (d_options_len request)
        DHCP_CODE_PARAMETER_REQUEST_LIST = Some (Some req)"
      using find_option_eq [OF len] by (simp add: sent_options_def)
    have "req \<in> set (sent_options request)" using Some by (auto simp: find_Some_iff)
    then have r: "unat (o_len req) \<le> length (o_payload req)"
      using wf by (simp add: wf_dhcp_packet_def sent_options_def readable_def)
    let ?found = "requested_options store (take (unat (o_len req)) (o_payload req))"
    have "\<forall>x \<in> set ?found. readable x"
      using wf_store_readable [OF st] by (auto simp: requested_options_def map_filter_def)
    moreover have le: "length ?found \<le> unat (o_len req)"
      using length_requested_options [of store "take (unat (o_len req)) (o_payload req)"] by simp
    moreover have "int (length ?found) \<le> uint (o_len req)"
      using le by (metis of_nat_le_iff of_nat_unat)
    ultimately show ?thesis
      using fill_options_found [OF f r mem, of store 3] by (auto simp: Let_def)
  qed
next
  case False
  have "wf_options (d_options request) (d_options_len request)"
    using wf by (simp add: wf_options_def wf_dhcp_packet_def)
  with False show ?thesis
    by (auto simp: fill_options_def find_option_parameter_request_list_def find_option_eq calloc_def
        split: option.splits prod.splits)
qed

lemma dhcp_default_options_ok:
  assumes "wf_dhcp_packet request" "wf_store (c_options w)" "wf_dhcp_header packet"
  shows "ok (dhcp_default_options msg packet request lt w) (\<lambda>((r, q), w').
    w' = w\<lparr>w_allocs := stl (w_allocs w)\<rparr> \<and>
    (r = - ENOMEM \<and> \<not> shd (w_allocs w) \<or> r = 0 \<and> wf_dhcp_packet q \<and>
      (\<exists>n os. q = packet\<lparr>d_options_len := n, d_options := os\<rparr>)))"
proof -
  obtain n os where fill: "fill_options (d_options request) (d_options_len request) (c_options w) 3 w =
      Some ((n, os), w\<lparr>w_allocs := stl (w_allocs w)\<rparr>)"
    and n: "n = - ENOMEM \<and> \<not> shd (w_allocs w) \<or> 0 \<le> n \<and> n \<le> int (length os) \<and> (\<forall>x \<in> set os. readable x)"
    using fill_options_ok [OF assms(1,2), of w] by (auto simp: ok_iff)
  show ?thesis
  proof (cases "n < 0")
    case True
    then show ?thesis using n fill by (simp add: dhcp_default_options_def)
  next
    case False
    then have rd: "\<forall>x \<in> set os. readable x" and le: "nat n \<le> length os" using n by (auto simp: ENOMEM_def)
    let ?len = "word_of_int n :: u8"
    have "unat ?len \<le> nat n"
      using False by (simp add: unsigned_of_int take_bit_eq_mod nat_le_iff zmod_le_nonneg_dividend)
    then have wo: "wf_options os ?len" using le by (simp add: wf_options_def)
    obtain r1 os1 where s1: "set_option os ?len DHCP_CODE_MESSAGE_TYPE 1 [msg] = Some (r1, os1)"
      "wf_options os1 ?len" "\<forall>x \<in> set os1. readable x"
      using set_option_readable [OF wo rd, of 1 "[msg]" DHCP_CODE_MESSAGE_TYPE] by (auto simp: ok_iff)
    obtain r2 os2 where s2: "(if lt then set_option_from_store (c_options w) os1 ?len DHCP_CODE_ADDRESS_LEASE_TIME
        else Some (0, os1)) = Some (r2, os2)" "wf_options os2 ?len" "\<forall>x \<in> set os2. readable x"
      using set_option_from_store_readable [OF s1(2,3) assms(2), of DHCP_CODE_ADDRESS_LEASE_TIME] s1
      by (cases lt) (auto simp: ok_iff)
    obtain r3 os3 where s3: "set_option_from_store (c_options w) os2 ?len DHCP_CODE_SERVER_IDENTIFIER = Some (r3, os3)"
      "wf_options os3 ?len" "\<forall>x \<in> set os3. readable x"
      using set_option_from_store_readable [OF s2(2,3) assms(2), of DHCP_CODE_SERVER_IDENTIFIER]
      by (auto simp: ok_iff)
    have "wf_dhcp_packet (packet\<lparr>d_options_len := ?len, d_options := os3\<rparr>)"
      using assms(3) s3 by (auto simp: wf_dhcp_packet_def wf_dhcp_header_def wf_options_def dest: in_set_takeD)
    then show ?thesis
      using False fill s1(1) s2(1) s3(1) by (cases lt) (auto simp: dhcp_default_options_def Let_def)
  qed
qed


subsection \<open>The exact options of an answer\<close>

definition message_option :: "u8 \<Rightarrow> dhcp_option" where
  "message_option msg = \<lparr>o_code = DHCP_CODE_MESSAGE_TYPE, o_len = 1, o_payload = [msg]\<rparr>"

text \<open>The three slots behind the requested options.\<close>

fun answer_tail :: "dhcp_option option \<Rightarrow> dhcp_option option \<Rightarrow> u8 \<Rightarrow> dhcp_option list" where
  "answer_tail (Some l) (Some s) msg = [s, l, message_option msg]"
| "answer_tail (Some l) None msg = [zero_option, l, message_option msg]"
| "answer_tail None (Some s) msg = [zero_option, s, message_option msg]"
| "answer_tail None None msg = [zero_option, zero_option, message_option msg]"

text \<open>The options a request asks for and the store has.\<close>

definition asked_options :: "dhcp_packet \<Rightarrow> dhcp_option list \<Rightarrow> dhcp_option list" where
  "asked_options request store =
     (case find (\<lambda>x. o_code x = DHCP_CODE_PARAMETER_REQUEST_LIST) (sent_options request) of
        None \<Rightarrow> []
      | Some req \<Rightarrow> requested_options store (take (unat (o_len req)) (o_payload req)))"

lemma fill_options_asked:
  assumes wf: "wf_dhcp_packet request" and mem: "shd (w_allocs w)"
  shows "\<exists>n. fill_options (d_options request) (d_options_len request) store 3 w =
    Some ((int (length (asked_options request store)) + 3,
        asked_options request store @ [zero_option, zero_option, zero_option] @ replicate n zero_option),
      w\<lparr>w_allocs := stl (w_allocs w)\<rparr>)"
proof -
  have len: "wf_options (d_options request) (d_options_len request)"
    using wf by (simp add: wf_options_def wf_dhcp_packet_def)
  show ?thesis
  proof (cases "find (\<lambda>x. o_code x = DHCP_CODE_PARAMETER_REQUEST_LIST) (sent_options request)")
    case None
    then have "find_option (d_options request) (d_options_len request) DHCP_CODE_PARAMETER_REQUEST_LIST = Some None"
      using find_option_eq [OF len] by (simp add: sent_options_def)
    moreover have "replicate 3 zero_option = [zero_option, zero_option, zero_option]"
      by (simp add: numeral_3_eq_3)
    ultimately show ?thesis
      using None fill_options_none [OF _ mem, of _ _ store 3]
      by (intro exI [of _ 0]) (simp add: asked_options_def)
  next
    case (Some req)
    then have f: "find_option (d_options request) (d_options_len request)
        DHCP_CODE_PARAMETER_REQUEST_LIST = Some (Some req)"
      using find_option_eq [OF len] by (simp add: sent_options_def)
    have "req \<in> set (sent_options request)" using Some by (auto simp: find_Some_iff)
    then have r: "unat (o_len req) \<le> length (o_payload req)"
      using wf by (simp add: wf_dhcp_packet_def sent_options_def readable_def)
    let ?found = "requested_options store (take (unat (o_len req)) (o_payload req))"
    have le: "length ?found \<le> unat (o_len req)"
      using length_requested_options [of store "take (unat (o_len req)) (o_payload req)"] by simp
    have "unat (o_len req) + 3 - length ?found = 3 + (unat (o_len req) - length ?found)" using le by simp
    then have "replicate (unat (o_len req) + 3 - length ?found) zero_option =
        [zero_option, zero_option, zero_option] @ replicate (unat (o_len req) - length ?found) zero_option"
      by (simp add: numeral_3_eq_3)
    then show ?thesis
      using fill_options_found [OF f r mem, of store 3] Some
      by (intro exI [of _ "unat (o_len req) - length ?found"]) (simp add: asked_options_def Let_def)
  qed
qed

text \<open>A slot behind which no entry matches is the one that is set.\<close>

lemma set_option_slot:
  assumes "unat len = length (xs @ [z] @ ys)" "o_code z = 0 \<or> o_code z = code"
    "\<forall>y \<in> set ys. o_code y \<noteq> code \<and> o_code y \<noteq> 0"
  shows "set_option (xs @ [z] @ ys @ zs) len code pl payload =
    Some (0, xs @ [\<lparr>o_code = code, o_len = pl, o_payload = payload\<rparr>] @ ys @ zs)"
proof -
  let ?os = "xs @ [z] @ ys @ zs" and ?P = "\<lambda>x. o_code x = code \<or> o_code x = 0"
  have n: "unat len = length xs + Suc (length ys)" using assms(1) by simp
  have f: "find (\<lambda>i. ?P (?os ! i)) (rev [0..<unat len]) = Some (length xs)"
  proof -
    have "[0..<unat len] = [0..<length xs] @ length xs # [Suc (length xs)..<unat len]"
      unfolding n using upt_add_eq_append [of 0 "length xs" "Suc (length ys)"]
      by (simp add: upt_conv_Cons del: upt_Suc)
    then have "rev [0..<unat len] = rev [Suc (length xs)..<unat len] @ [length xs] @ rev [0..<length xs]"
      by simp
    moreover have "\<not> ?P (?os ! i)" if i: "Suc (length xs) \<le> i" "i < unat len" for i
    proof -
      obtain k where k: "i = Suc (length xs) + k" using i(1) le_Suc_ex by blast
      then have "k < length ys" "?os ! i = ys ! k" using i(2) n by (simp_all add: nth_append)
      then show ?thesis using assms(3) nth_mem [of k ys] by auto
    qed
    then have "find (\<lambda>i. ?P (?os ! i)) (rev [Suc (length xs)..<unat len]) = None"
      by (auto simp: find_None_iff)
    ultimately show ?thesis using assms(2) by (auto simp: find_app nth_append)
  qed
  have fi: "find_idx ?P ?os (rev [0..<unat len]) = Some (find (\<lambda>i. ?P (?os ! i)) (rev [0..<unat len]))"
    using n by (intro find_idx_find) auto
  show ?thesis
    unfolding set_option_def fi f by (simp add: list_update_append)
qed


lemma dhcp_default_options_eq:
  assumes wf: "wf_dhcp_packet request" and st: "wf_store (c_options w)" and mem: "shd (w_allocs w)"
    and n: "length (asked_options request (c_options w)) \<le> 252"
  shows "\<exists>z. dhcp_default_options msg packet request lt w =
    (let found = asked_options request (c_options w);
         os = found @ answer_tail (if lt then find_in_option_store (c_options w) DHCP_CODE_ADDRESS_LEASE_TIME else None)
           (find_in_option_store (c_options w) DHCP_CODE_SERVER_IDENTIFIER) msg
     in Some ((0, packet\<lparr>d_options_len := of_nat (length os), d_options := os @ replicate z zero_option\<rparr>),
          w\<lparr>w_allocs := stl (w_allocs w)\<rparr>))"
proof -
  define found where "found = asked_options request (c_options w)"
  let ?L = DHCP_CODE_ADDRESS_LEASE_TIME and ?S = DHCP_CODE_SERVER_IDENTIFIER
  let ?z = zero_option
  define len :: u8 where "len = of_nat (length found + 3)"
  obtain z where fill: "fill_options (d_options request) (d_options_len request) (c_options w) 3 w =
    Some ((int (length found) + 3, found @ [?z, ?z, ?z] @ replicate z ?z), w\<lparr>w_allocs := stl (w_allocs w)\<rparr>)"
    using fill_options_asked [OF wf mem] unfolding found_def by blast
  have len: "unat len = length found + 3" "(word_of_int (int (length found) + 3) :: u8) = len"
    using n by (simp_all add: len_def found_def [symmetric] unat_of_nat of_nat_inverse add.commute)
  have zc: "o_code ?z = 0" by (simp add: zero_option_def)
  have s1: "set_option (found @ [?z, ?z, ?z] @ replicate z ?z) len DHCP_CODE_MESSAGE_TYPE 1 [msg]
      = Some (0, found @ [?z, ?z, message_option msg] @ replicate z ?z)"
    using set_option_slot [of len "found @ [?z, ?z]" ?z "[]" DHCP_CODE_MESSAGE_TYPE "replicate z ?z" 1 "[msg]"] len zc
    by (simp add: message_option_def)
  have s2: "set_option (found @ [?z, ?z, message_option msg] @ replicate z ?z) len c l p
      = Some (0, found @ [?z, \<lparr>o_code = c, o_len = l, o_payload = p\<rparr>, message_option msg] @ replicate z ?z)"
    if "c \<noteq> DHCP_CODE_MESSAGE_TYPE" for c l p
    using set_option_slot [of len "found @ [?z]" ?z "[message_option msg]" c "replicate z ?z" l p] len zc that
    by (simp add: message_option_def dhcp_codes)
  have s3: "set_option (found @ [?z, x, message_option msg] @ replicate z ?z) len c l p
      = Some (0, found @ [\<lparr>o_code = c, o_len = l, o_payload = p\<rparr>, x, message_option msg] @ replicate z ?z)"
    if "c \<noteq> DHCP_CODE_MESSAGE_TYPE" "o_code x \<noteq> c" "o_code x \<noteq> 0" for c l p x
    using set_option_slot [of len found ?z "[x, message_option msg]" c "replicate z ?z" l p] len zc that
    by (simp add: message_option_def dhcp_codes)
  have codes: "?L \<noteq> DHCP_CODE_MESSAGE_TYPE" "?S \<noteq> DHCP_CODE_MESSAGE_TYPE" "?L \<noteq> ?S" "?L \<noteq> 0" "?S \<noteq> ?L"
    by (simp_all add: dhcp_codes)
  have opt: "\<lparr>o_code = c, o_len = o_len x, o_payload = o_payload x\<rparr> = x"
    if "find_in_option_store (c_options w) c = Some x" for c x
    using find_in_option_store_set [OF that] by (cases x) simp
  have lens: "length (answer_tail l s msg) = 3" for l s by (cases "(l, s, msg)" rule: answer_tail.cases) simp_all
  have store: "set_option_from_store (c_options w) os len c = (case find_in_option_store (c_options w) c of
      None \<Rightarrow> Some (1, os) | Some x \<Rightarrow> set_option os len c (o_len x) (o_payload x))" for os c
    unfolding set_option_from_store_def by (rule refl)
  have code: "o_code x = c" if "find_in_option_store (c_options w) c = Some x" for x c
    using find_in_option_store_set [OF that] by simp
  let ?ol = "if lt then find_in_option_store (c_options w) ?L else None"
  let ?os = "found @ answer_tail ?ol (find_in_option_store (c_options w) ?S) msg"
  have "dhcp_default_options msg packet request lt w = do {
      (_, os) \<leftarrow> (if lt then set_option_from_store (c_options w) (found @ [?z, ?z, message_option msg] @ replicate z ?z) len ?L
         else Some (0, found @ [?z, ?z, message_option msg] @ replicate z ?z));
      (_, os) \<leftarrow> set_option_from_store (c_options w) os len ?S;
      Some ((0, packet\<lparr>d_options_len := len, d_options := os\<rparr>), w\<lparr>w_allocs := stl (w_allocs w)\<rparr>) }"
    using fill len(2) s1 by (cases lt) (simp_all add: dhcp_default_options_def Let_def)
  also have "\<dots> = Some ((0, packet\<lparr>d_options_len := len, d_options := ?os @ replicate z ?z\<rparr>),
      w\<lparr>w_allocs := stl (w_allocs w)\<rparr>)"
    using s2 s3 codes opt code
    by (cases lt; cases "find_in_option_store (c_options w) ?L"; cases "find_in_option_store (c_options w) ?S")
      (simp_all add: store)
  finally show ?thesis
    unfolding found_def [symmetric] Let_def by (intro exI [of _ z]) (simp add: lens len_def)
qed

text \<open>The message type of an answer is the one intended.\<close>

lemma answer_message_type:
  assumes "\<forall>x \<in> set xs. o_code x \<noteq> DHCP_CODE_MESSAGE_TYPE"
    "\<And>x. l = Some x \<or> s = Some x \<Longrightarrow> o_code x \<noteq> DHCP_CODE_MESSAGE_TYPE" "length xs \<le> 252"
  shows "dhcp_packet_message_type (p\<lparr>d_options_len := of_nat (length (xs @ answer_tail l s msg)),
      d_options := (xs @ answer_tail l s msg) @ zs\<rparr>) = Some msg"
proof -
  have "\<exists>a b. answer_tail l s msg = [a, b, message_option msg] \<and>
      o_code a \<noteq> DHCP_CODE_MESSAGE_TYPE \<and> o_code b \<noteq> DHCP_CODE_MESSAGE_TYPE"
    using assms(2) by (cases "(l, s, msg)" rule: answer_tail.cases) (auto simp: zero_option_def dhcp_codes)
  then obtain a b where ab: "answer_tail l s msg = [a, b, message_option msg]"
    "o_code a \<noteq> DHCP_CODE_MESSAGE_TYPE" "o_code b \<noteq> DHCP_CODE_MESSAGE_TYPE" by blast
  let ?os = "(xs @ [a, b, message_option msg]) @ zs" and ?n = "length xs + 3"
  have n: "unat (of_nat ?n :: u8) = ?n" using assms(3) by (intro of_nat_inverse) simp_all
  have "find (\<lambda>i. o_code (?os ! i) = DHCP_CODE_MESSAGE_TYPE) [0..<?n] = Some (length xs + 2)"
  proof -
    have "o_code (?os ! j) \<noteq> DHCP_CODE_MESSAGE_TYPE" if "j < length xs + 2" for j
      using that assms(1) ab nth_mem [of j xs] by (auto simp: nth_append nth_Cons' split: if_splits)
    moreover have "o_code (?os ! (length xs + 2)) = DHCP_CODE_MESSAGE_TYPE"
      by (simp add: nth_append message_option_def)
    ultimately show ?thesis by (simp add: find_upt_eq_Some)
  qed
  moreover have "\<forall>i \<in> set [0..<?n]. i < length ?os" by simp
  ultimately show ?thesis
    using n find_idx_find [of "[0..<?n]" ?os "\<lambda>x. o_code x = DHCP_CODE_MESSAGE_TYPE"]
    by (simp add: dhcp_packet_message_type_def ab(1) nth_append message_option_def numeral_3_eq_3 del: upt_Suc)
qed

text \<open>
  The options of an answer of type \<open>msg\<close>: what the client asked for and the store has,
  then the server identifier, the lease time unless it is left out, and the type. A client
  that gets more than 252 options makes the count of options wrap around.
\<close>

definition answer_options :: "u8 \<Rightarrow> bool \<Rightarrow> dhcp_packet \<Rightarrow> dhcp_option list \<Rightarrow> dhcp_option list" where
  "answer_options msg lt request store = asked_options request store @
     answer_tail (if lt then find_in_option_store store DHCP_CODE_ADDRESS_LEASE_TIME else None)
       (find_in_option_store store DHCP_CODE_SERVER_IDENTIFIER) msg"

definition answer_for :: "u8 \<Rightarrow> bool \<Rightarrow> dhcp_packet \<Rightarrow> dhcp_option list \<Rightarrow> dhcp_packet \<Rightarrow> bool" where
  "answer_for msg lt request store p \<longleftrightarrow> d_xid p = d_xid request \<and> d_chaddr p = d_chaddr request \<and>
     (length (asked_options request store) \<le> 252 \<longrightarrow> sent_options p = answer_options msg lt request store)"

lemma length_answer_tail [simp]: "length (answer_tail l s msg) = 3"
  by (cases "(l, s, msg)" rule: answer_tail.cases) simp_all

lemma dhcp_default_options_sent:
  assumes "wf_dhcp_packet request" "wf_store (c_options w)" "wf_dhcp_header packet"
    "d_xid packet = d_xid request" "d_chaddr packet = d_chaddr request"
  shows "ok (dhcp_default_options msg packet request lt w) (\<lambda>((r, q), w').
    w' = w\<lparr>w_allocs := stl (w_allocs w)\<rparr> \<and>
    (r = - ENOMEM \<and> \<not> shd (w_allocs w) \<or> r = 0 \<and> wf_dhcp_packet q \<and>
      (\<exists>n os. q = packet\<lparr>d_options_len := n, d_options := os\<rparr>) \<and>
      answer_for msg lt request (c_options w) q))"
proof -
  obtain r q where opt: "dhcp_default_options msg packet request lt w = Some ((r, q), w\<lparr>w_allocs := stl (w_allocs w)\<rparr>)"
    and q: "r = - ENOMEM \<and> \<not> shd (w_allocs w) \<or> r = 0 \<and> wf_dhcp_packet q \<and>
      (\<exists>n os. q = packet\<lparr>d_options_len := n, d_options := os\<rparr>)"
    using dhcp_default_options_ok [OF assms(1-3), of msg lt] by (auto simp: ok_iff)
  let ?os = "answer_options msg lt request (c_options w)"
  have "sent_options q = ?os"
    if r: "r = 0" and n: "length (asked_options request (c_options w)) \<le> 252"
  proof -
    have mem: "shd (w_allocs w)"
    proof (rule ccontr)
      assume "\<not> shd (w_allocs w)"
      moreover have "\<exists>x. find_option_parameter_request_list (d_options request) (d_options_len request) = Some x"
        using assms(1) by (simp add: find_option_parameter_request_list_def find_option_eq wf_options_def
            wf_dhcp_packet_def)
      ultimately show False
        using opt r by (auto simp: dhcp_default_options_def fill_options_def calloc_def ENOMEM_def)
    qed
    obtain z where "dhcp_default_options msg packet request lt w = Some ((0, packet\<lparr>d_options_len := of_nat (length ?os),
        d_options := ?os @ replicate z zero_option\<rparr>), w\<lparr>w_allocs := stl (w_allocs w)\<rparr>)"
      using dhcp_default_options_eq [OF assms(1,2) mem n, of msg packet lt]
      by (auto simp: Let_def answer_options_def)
    then have "q = packet\<lparr>d_options_len := of_nat (length ?os), d_options := ?os @ replicate z zero_option\<rparr>"
      using opt by simp
    moreover have "unat (of_nat (length ?os) :: u8) = length ?os"
      using n by (intro of_nat_inverse) (simp_all add: answer_options_def)
    ultimately show ?thesis by (simp add: sent_options_def)
  qed
  then show ?thesis
    using opt q assms(4,5) by (auto simp: answer_for_def)
qed

text \<open>An option code the client names in its parameter request list.\<close>

definition asks_for :: "dhcp_packet \<Rightarrow> u8 \<Rightarrow> bool" where
  "asks_for request c \<longleftrightarrow>
     (case find (\<lambda>x. o_code x = DHCP_CODE_PARAMETER_REQUEST_LIST) (sent_options request) of
        None \<Rightarrow> False
      | Some req \<Rightarrow> c \<in> set (take (unat (o_len req)) (o_payload req)))"

lemma asked_options_codes:
  "x \<in> set (asked_options request store) \<Longrightarrow>
    asks_for request (o_code x) \<and> find_in_option_store store (o_code x) = Some x"
proof -
  assume x: "x \<in> set (asked_options request store)"
  then obtain req where req: "find (\<lambda>x. o_code x = DHCP_CODE_PARAMETER_REQUEST_LIST) (sent_options request) = Some req"
    by (cases "find (\<lambda>x. o_code x = DHCP_CODE_PARAMETER_REQUEST_LIST) (sent_options request)")
      (simp_all add: asked_options_def)
  then have "x \<in> set (requested_options store (take (unat (o_len req)) (o_payload req)))"
    using x by (simp add: asked_options_def)
  then obtain c where "c \<in> set (take (unat (o_len req)) (o_payload req))" "find_in_option_store store c = Some x"
    by (force simp: requested_options_def map_filter_def)
  then show "asks_for request (o_code x) \<and> find_in_option_store store (o_code x) = Some x"
    using req find_in_option_store_set [of store c x] by (simp add: asks_for_def)
qed

lemma asked_options_complete:
  assumes "asks_for request c" "find_in_option_store store c = Some x"
  shows "x \<in> set (asked_options request store)"
proof -
  obtain req where "find (\<lambda>x. o_code x = DHCP_CODE_PARAMETER_REQUEST_LIST) (sent_options request) = Some req"
    "c \<in> set (take (unat (o_len req)) (o_payload req))"
    using assms(1)
    by (cases "find (\<lambda>x. o_code x = DHCP_CODE_PARAMETER_REQUEST_LIST) (sent_options request)")
      (simp_all add: asks_for_def)
  then show ?thesis
    using assms(2) by (force simp: asked_options_def requested_options_def map_filter_def)
qed

text \<open>Without lease time: an answer then has one only where the client asked for it.\<close>

lemma no_lease_time_added:
  "(\<exists>x \<in> set (answer_options msg False request store). o_code x = DHCP_CODE_ADDRESS_LEASE_TIME) \<longleftrightarrow>
    asks_for request DHCP_CODE_ADDRESS_LEASE_TIME \<and> find_in_option_store store DHCP_CODE_ADDRESS_LEASE_TIME \<noteq> None"
proof -
  have "x \<in> set (asked_options request store)"
    if "x \<in> set (answer_options msg False request store)" "o_code x = DHCP_CODE_ADDRESS_LEASE_TIME" for x
    using that find_in_option_store_set [of store DHCP_CODE_SERVER_IDENTIFIER]
    by (cases "find_in_option_store store DHCP_CODE_SERVER_IDENTIFIER")
      (auto simp: answer_options_def message_option_def zero_option_def dhcp_codes)
  moreover have "set (asked_options request store) \<subseteq> set (answer_options msg False request store)"
    by (simp add: answer_options_def)
  ultimately show ?thesis
    using asked_options_codes [of _ request store] find_in_option_store_set [of store DHCP_CODE_ADDRESS_LEASE_TIME]
      asked_options_complete [of request DHCP_CODE_ADDRESS_LEASE_TIME store]
    by (cases "find_in_option_store store DHCP_CODE_ADDRESS_LEASE_TIME") fastforce+
qed

end
