(* ===== verification/Block_Ops.thy ===== *)
theory Block_Ops
  imports Block_Inv
begin

text \<open>
  The remaining operations of block.c against their specifications: the counts and choices
  over all blocks, the release of unneeded blocks, and the timeouts.
\<close>

subsection \<open>Counting and choosing\<close>

lemma inv_ours:
  assumes "wf_state w" "i < num_blocks w" "b_state (c_blocks w ! i) = DDHCP_OURS"
  obtains ls where "b_addresses (c_blocks w ! i) = Some ls" "scannable (c_blocks w ! i)"
    "scanned (c_blocks w ! i) = ls" "length ls = unat (c_block_size w)" "\<forall>l \<in> set ls. wf_lease l"
proof -
  have wf: "wf_block w i (c_blocks w ! i)" using assms(1,2) by (rule inv_block)
  then obtain ls where ls: "b_addresses (c_blocks w ! i) = Some ls"
    using wf_block_ours assms(3) by blast
  show thesis
    using wf_block_scannable [OF wf] wf_block_leases [OF wf] ls by (intro that [OF ls]) auto
qed

definition free_leases :: "ddhcp_block \<Rightarrow> nat" where
  "free_leases b = (if b_state b = DDHCP_OURS then count_state FREE (block_leases b) else 0)"

lemma block_num_free_leases_eq:
  assumes inv: "wf_state w"
  shows "block_num_free_leases w = Some (of_nat (sum_list (map free_leases (c_blocks w))))"
proof -
  let ?step = "\<lambda>i n. do {
        b \<leftarrow> get_block i w;
        if b_state b = DDHCP_OURS then do { m \<leftarrow> dhcp_num_free b; Some (n + m) } else Some n }"
  have "foldM ?step [0..<n] (0 :: u32)
      = Some (of_nat (sum_list (map free_leases (take n (c_blocks w)))))" if "n \<le> num_blocks w" for n
    using that
  proof (induction n)
    case 0
    then show ?case by simp
  next
    case (Suc n)
    have n: "n < length (c_blocks w)" using Suc.prems inv_length [OF inv] by simp
    have "?step n s = Some (s + of_nat (free_leases (c_blocks w ! n)))" for s
    proof (cases "b_state (c_blocks w ! n) = DDHCP_OURS")
      case True
      with Suc.prems obtain ls where "b_addresses (c_blocks w ! n) = Some ls" "scannable (c_blocks w ! n)"
        "scanned (c_blocks w ! n) = ls"
        using inv_ours [OF inv, of n] by auto
      with True n show ?thesis by (simp add: dhcp_num_free_eq free_leases_def)
    qed (use n in \<open>simp add: free_leases_def\<close>)
    with Suc n show ?case by (simp add: foldM_append take_Suc_conv_app_nth)
  qed
  from this [OF order_refl] show ?thesis
    using inv_length [OF inv] by (simp add: block_num_free_leases_def)
qed

text \<open>The loop of \<open>block_num_owned\<close> looks at the first block only.\<close>

lemma block_num_owned_eq:
  assumes "wf_state w"
  shows "block_num_owned w =
    Some (if 0 < num_blocks w \<and> b_state (c_blocks w ! 0) = DDHCP_OURS then c_number_of_blocks w else 0)"
proof -
  let ?step = "\<lambda>i n. do {
        b \<leftarrow> get_block 0 w;
        Some (if b_state b = DDHCP_OURS then n + 1 else n) }"
  have "foldM ?step [0..<n] (0 :: u32)
      = Some (if 0 < n \<and> b_state (c_blocks w ! 0) = DDHCP_OURS then of_nat n else 0)"
    if "n \<le> num_blocks w" for n
    using that inv_length [OF assms] by (induction n) (auto simp: foldM_append add.commute)
  then show ?thesis by (simp add: block_num_owned_def)
qed

text \<open>A search over the blocks that keeps the best candidate seen so far.\<close>

definition best :: "(nat \<Rightarrow> bool) \<Rightarrow> (nat \<Rightarrow> int) \<Rightarrow> nat \<Rightarrow> nat option \<Rightarrow> bool" where
  "best P key n r = (case r of
       None \<Rightarrow> \<forall>i < n. \<not> P i
     | Some i \<Rightarrow> i < n \<and> P i \<and> (\<forall>j < n. P j \<longrightarrow> key i < key j \<or> key i = key j \<and> i \<le> j))"

lemma best_Suc:
  assumes "best P key n r"
  shows "best P key (Suc n) (if P n then (case r of Some s \<Rightarrow> if key n < key s then Some n else r | None \<Rightarrow> Some n) else r)"
  using assms by (fastforce simp: best_def less_Suc_eq split: option.splits)

lemma search_best:
  assumes "\<And>i r. i < n \<Longrightarrow> best P key i r \<Longrightarrow> step i r =
      Some (if P i then (case r of Some s \<Rightarrow> if key i < key s then Some i else r | None \<Rightarrow> Some i) else r)"
  shows "ok (foldM step [0..<n] None) (best P key n)"
proof (rule foldM_upt_ok [where I = "best P key"])
  show "best P key 0 None" by (simp add: best_def)
qed (use assms best_Suc in \<open>auto simp: best_Suc\<close>)

text \<open>The blocks a lease can be taken from, and the blocks nothing is leased from.\<close>

definition has_lease :: "world \<Rightarrow> nat \<Rightarrow> bool" where
  "has_lease w i \<longleftrightarrow> b_state (c_blocks w ! i) = DDHCP_OURS \<and>
     (\<exists>l \<in> set (block_leases (c_blocks w ! i)). l_state l = FREE)"

definition idle :: "world \<Rightarrow> nat \<Rightarrow> bool" where
  "idle w i \<longleftrightarrow> b_state (c_blocks w ! i) = DDHCP_OURS \<and>
     (\<forall>l \<in> set (block_leases (c_blocks w ! i)). l_state l = FREE)"

lemma best_less: "best P key n (Some s) \<Longrightarrow> s < n"
  by (simp add: best_def)

lemma find_free_leases_step_eq:
  assumes inv: "wf_state w" and i: "i < num_blocks w" and r: "\<And>s. r = Some s \<Longrightarrow> s < num_blocks w"
  shows "find_free_leases_step w i r = Some (if has_lease w i then (case r of
      Some s \<Rightarrow> if b_first_claimed (c_blocks w ! i) < b_first_claimed (c_blocks w ! s) then Some i else r
    | None \<Rightarrow> Some i) else r)"
proof (cases "b_state (c_blocks w ! i) = DDHCP_OURS")
  case True
  then obtain ls where "b_addresses (c_blocks w ! i) = Some ls" "scannable (c_blocks w ! i)"
    "scanned (c_blocks w ! i) = ls"
    using inv_ours [OF inv i] by blast
  then show ?thesis
    using True i r inv_length [OF inv]
    by (auto simp: find_free_leases_step_def has_lease_def dhcp_has_free_eq count_state_pos split: option.splits)
qed (use i inv_length [OF inv] in \<open>simp add: find_free_leases_step_def has_lease_def\<close>)

text \<open>The longest owned block with a free lease, the first of them on a tie.\<close>

lemma block_find_free_leases_best:
  assumes inv: "wf_state w"
  shows "ok (block_find_free_leases w)
    (best (has_lease w) (\<lambda>i. b_first_claimed (c_blocks w ! i)) (num_blocks w))"
  unfolding block_find_free_leases_def
proof (rule search_best)
  fix i r
  assume i: "i < num_blocks w" and "best (has_lease w) (\<lambda>i. b_first_claimed (c_blocks w ! i)) i r"
  then have "s < num_blocks w" if "r = Some s" for s
    using that best_less [of _ _ i s] by fastforce
  then show "find_free_leases_step w i r = Some (if has_lease w i then (case r of
      Some s \<Rightarrow> if b_first_claimed (c_blocks w ! i) < b_first_claimed (c_blocks w ! s) then Some i else r
    | None \<Rightarrow> Some i) else r)"
    by (rule find_free_leases_step_eq [OF inv i])
qed

lemma count_state_full: "count_state s ls = length ls \<longleftrightarrow> (\<forall>l \<in> set ls. l_state l = s)"
proof
  assume full: "count_state s ls = length ls"
  then show "\<forall>l \<in> set ls. l_state l = s"
    using length_filter_less [of _ ls "\<lambda>l. l_state l = s"] by (auto simp: count_state_def)
qed (simp add: count_state_def)

lemma all_free_count:
  assumes "scannable b" "scanned b = ls" "unat n = length ls"
  shows "dhcp_num_free b = Some m \<Longrightarrow> m = ucast (n :: u8) \<longleftrightarrow> (\<forall>l \<in> set ls. l_state l = FREE)"
proof -
  assume "dhcp_num_free b = Some m"
  then have m: "m = of_nat (count_state FREE ls)" using assms by (simp add: dhcp_num_free_eq)
  have le: "count_state FREE ls \<le> length ls" "length ls < 256"
    using count_state_le assms(3) unat_u8_less [of n] by auto
  have "unat m = count_state FREE ls" using m le by (simp add: unat_of_nat)
  moreover have "unat (ucast n :: u32) = length ls"
    using assms(3) le by (simp add: unsigned_ucast_eq take_bit_nat_eq_self)
  ultimately show ?thesis
    by (simp add: word_unat_eq_iff count_state_full)
qed

lemma drop_unused_step_eq:
  assumes inv: "wf_state w" and i: "i < num_blocks w" and r: "\<And>s. r = Some s \<Longrightarrow> s < num_blocks w"
  shows "drop_unused_step w i r = Some (if idle w i then (case r of
      Some s \<Rightarrow> if - b_first_claimed (c_blocks w ! i) < - b_first_claimed (c_blocks w ! s) then Some i else r
    | None \<Rightarrow> Some i) else r)"
proof (cases "b_state (c_blocks w ! i) = DDHCP_OURS")
  case True
  then obtain ls where ls: "b_addresses (c_blocks w ! i) = Some ls" "scannable (c_blocks w ! i)"
    "scanned (c_blocks w ! i) = ls" "length ls = unat (c_block_size w)"
    using inv_ours [OF inv i] by blast
  then obtain m where m: "dhcp_num_free (c_blocks w ! i) = Some m" by (simp add: dhcp_num_free_eq)
  show ?thesis
    using True i r ls inv_length [OF inv] all_free_count [OF ls(2,3) _ m, of "c_block_size w"] m
    by (auto simp: drop_unused_step_def idle_def split: option.splits)
qed (use i inv_length [OF inv] in \<open>simp add: drop_unused_step_def idle_def\<close>)

lemma drop_unused_best:
  assumes inv: "wf_state w"
  shows "ok (foldM (drop_unused_step w) [0..<num_blocks w] None)
    (best (idle w) (\<lambda>i. - b_first_claimed (c_blocks w ! i)) (num_blocks w))"
proof (rule search_best)
  fix i r
  assume i: "i < num_blocks w" and "best (idle w) (\<lambda>i. - b_first_claimed (c_blocks w ! i)) i r"
  then have "s < num_blocks w" if "r = Some s" for s
    using that best_less [of _ _ i s] by fastforce
  then show "drop_unused_step w i r = Some (if idle w i then (case r of
      Some s \<Rightarrow> if - b_first_claimed (c_blocks w ! i) < - b_first_claimed (c_blocks w ! s) then Some i else r
    | None \<Rightarrow> Some i) else r)"
    by (rule drop_unused_step_eq [OF inv i])
qed

text \<open>
  The youngest idle block is marked, or freed when it has been marked for
  \<open>block_needless_timeout\<close> seconds.
\<close>

definition drop_rel :: "world \<Rightarrow> int \<Rightarrow> nat option \<Rightarrow> nat \<Rightarrow> ddhcp_block \<Rightarrow> ddhcp_block \<Rightarrow> bool" where
  "drop_rel w now r k b b' \<longleftrightarrow>
     (if r \<noteq> Some k then b' = b
      else if b_needless_since b = 0 then b' = b\<lparr>b_needless_since := now\<rparr>
      else if b_needless_since b \<le> now - uint (c_block_needless_timeout w) then b' = freed b
      else b' = b)"

lemma block_drop_unused_ok:
  assumes inv: "wf_state w"
  shows "ok (block_drop_unused w) (\<lambda>w'. \<exists>r. same_claims w w' \<and> calm w w' \<and>
    best (idle w) (\<lambda>i. - b_first_claimed (c_blocks w ! i)) (num_blocks w) r \<and>
    evolves (drop_rel w (shd (w_times w)) r) w w')"
proof -
  obtain r where r: "foldM (drop_unused_step w) [0..<num_blocks w] None = Some r"
    "best (idle w) (\<lambda>i. - b_first_claimed (c_blocks w ! i)) (num_blocks w) r"
    using drop_unused_best [OF inv] by (auto simp: ok_iff)
  show ?thesis
  proof (cases r)
    case None
    then show ?thesis
      using r inv by (auto simp: block_drop_unused_def drop_rel_def intro!: exI [of _ None] evolves_refl)
  next
    case (Some i)
    let ?w = "w\<lparr>w_times := stl (w_times w)\<rparr>"
    let ?now = "shd (w_times w)"
    have i: "i < num_blocks w" using r(2) Some best_less by blast
    have inv1: "wf_state ?w" using inv by simp
    have wfb: "wf_block ?w i (c_blocks w ! i)" using inv_block [OF inv1, of i] i by simp
    have put: "evolves (drop_rel w ?now r) w (put_block i b' ?w)"
      if "drop_rel w ?now r i (c_blocks w ! i) b'" "wf_block ?w i b'" for b'
    proof -
      have "evolves (drop_rel w ?now r) ?w (put_block i b' ?w)"
        using that Some inv1 by (intro evolves_put) (auto simp: drop_rel_def)
      then show ?thesis
        by (rule_tac evolves_trans [OF env_change_evolves [OF _ inv, where P = "\<lambda>k b b'. b' = b"]]) auto
    qed
    note mark = env_change_update(8)
    have keep: "evolves P w (v\<lparr>c_needless_marks := m\<rparr>)" if "evolves P w v" for P v m
      using that evolvesD(1) [OF that] by (intro evolves_keep_blocks [OF that]) simp_all
    have free: "block_free i ?w = Some (put_block i (freed (c_blocks w ! i)) ?w)"
      using block_free_eq [OF inv1, of i] i by simp
    consider "b_needless_since (c_blocks w ! i) = 0"
      | "b_needless_since (c_blocks w ! i) \<noteq> 0"
        "b_needless_since (c_blocks w ! i) \<le> ?now - uint (c_block_needless_timeout w)"
      | "b_needless_since (c_blocks w ! i) \<noteq> 0"
        "\<not> b_needless_since (c_blocks w ! i) \<le> ?now - uint (c_block_needless_timeout w)"
      by blast
    then show ?thesis
    proof cases
      case 1
      let ?b = "(c_blocks w ! i)\<lparr>b_needless_since := ?now\<rparr>"
      have "evolves (drop_rel w ?now r) w ((put_block i ?b ?w)\<lparr>c_needless_marks := 1\<rparr>)"
        using 1 Some wfb by (intro keep put) (auto simp: drop_rel_def wf_block_def)
      then show ?thesis
        using 1 r Some i inv_length [OF inv]
        by (auto simp: block_drop_unused_def time_null_def same_claims_def put_block_def intro!: exI [of _ r])
    next
      case 2
      have "evolves (drop_rel w ?now r) w
          ((put_block i (freed (c_blocks w ! i)) ?w)\<lparr>c_needless_marks := 0\<rparr>)"
        using 2 Some wfb by (intro keep put wf_freed) (auto simp: drop_rel_def)
      then show ?thesis
        using 2 r Some i inv_length [OF inv] free
        by (auto simp: block_drop_unused_def time_null_def same_claims_def put_block_def intro!: exI [of _ r])
    next
      case 3
      have "evolves (drop_rel w ?now r) w ?w"
        using 3 Some inv by (auto simp: evolves_def keeps_def drop_rel_def)
      then show ?thesis
        using 3 r Some i inv_length [OF inv]
        by (auto simp: block_drop_unused_def time_null_def same_claims_def intro!: exI [of _ r])
    qed
  qed
qed


text \<open>Every mark is cleared.\<close>

lemma block_unmark_needless_ok:
  assumes inv: "wf_state w"
  shows "ok (block_unmark_needless w) (\<lambda>w'. same_claims w w' \<and> calm w w' \<and> c_needless_marks w' = 0 \<and>
    evolves (\<lambda>k b b'. b' = b\<lparr>b_needless_since := 0\<rparr>) w w')"
proof -
  let ?Q = "\<lambda>n k b b'. b' = (if k < n then b\<lparr>b_needless_since := 0\<rparr> else b)"
  let ?I = "\<lambda>n v. same_claims w v \<and> calm w v \<and> evolves (?Q n) w v"
  have "ok (foldM unmark_step [0..<num_blocks w] w) (?I (num_blocks w))"
  proof (rule foldM_upt_ok [where I = ?I])
    show "?I 0 w" using inv by (auto intro: evolves_refl)
  next
    fix i v
    assume i: "i < num_blocks w" and "?I i v"
    then have v: "same_claims w v" "calm w v" and e1: "evolves (?Q i) w v" by auto
    note inv' = evolvesD(1) [OF e1]
    let ?b = "(c_blocks v ! i)\<lparr>b_needless_since := 0\<rparr>"
    have i': "i < num_blocks v" using i evolvesD(3) [OF e1] by simp
    have e2: "evolves (\<lambda>k b b'. b' = (if k = i then ?b else b)) v (put_block i ?b v)"
      using inv_block [OF inv' i'] inv' by (intro evolves_put) (auto simp: wf_block_def)
    have "evolves (?Q (Suc i)) w (put_block i ?b v)"
      by (intro evolves_trans_at [OF e1 e2]) (auto simp: less_Suc_eq split: if_splits)
    then show "ok (unmark_step i v) (?I (Suc i))"
      using v i' inv_length [OF inv'] by (simp add: unmark_step_def)
  qed
  then obtain v where v: "foldM unmark_step [0..<num_blocks w] w = Some v" "same_claims w v" "calm w v"
    and ev: "evolves (?Q (num_blocks w)) w v" by (auto simp: ok_iff)
  let ?v = "v\<lparr>c_needless_marks := 0\<rparr>"
  have "evolves (\<lambda>k b b'. b' = b\<lparr>b_needless_since := 0\<rparr>) w ?v"
    using ev by (auto simp: evolves_def keeps_def same_params_def)
  with v show ?thesis by (simp add: block_unmark_needless_def same_claims_def)
qed

subsection \<open>Timeouts\<close>

text \<open>
  One block after the pass, when its leases are checked at time \<open>t\<close>. A block of another
  node that still has leases from an earlier ownership is freed with its last lease.
\<close>

definition with_leases :: "ddhcp_block \<Rightarrow> dhcp_lease list \<Rightarrow> ddhcp_block" where
  "with_leases b ls = b\<lparr>b_addresses := Some ls\<rparr>"

definition checked :: "int \<Rightarrow> int \<Rightarrow> ddhcp_block \<Rightarrow> ddhcp_block" where
  "checked now t b =
     (if b_state b = DDHCP_FREE then b
      else if b_timeout b < now then freed b
      else case b_addresses b of
          None \<Rightarrow> b
        | Some ls \<Rightarrow>
            let ls' = map (expire t) ls
            in if b_state b \<noteq> DDHCP_OURS \<and> (\<forall>l \<in> set ls'. l_state l = FREE)
               then freed (with_leases b ls') else with_leases b ls')"

text \<open>Owned and stale blocks alike: the leases of one block are expired.\<close>

lemma expire_block:
  assumes inv: "wf_state w" and i: "i < num_blocks w" and ls: "b_addresses (c_blocks w ! i) = Some ls"
  defines "ls' \<equiv> map (expire (shd (w_times w))) ls"
  defines "v \<equiv> put_block i (with_leases (c_blocks w ! i) ls') (w\<lparr>w_times := stl (w_times w)\<rparr>)"
  shows "dhcp_check_timeouts i w = Some (int (count_state FREE ls'), v)" "wf_state v"
    "c_blocks v ! i = with_leases (c_blocks w ! i) ls'" "length ls' = unat (b_subnet_len (c_blocks w ! i))"
proof -
  have v: "v = set_leases i ls' (w\<lparr>w_times := stl (w_times w)\<rparr>)"
    by (simp add: v_def set_leases_def with_leases_def)
  show "dhcp_check_timeouts i w = Some (int (count_state FREE ls'), v)" "wf_state v"
    using dhcp_check_timeouts_inv [OF inv i ls] by (simp_all add: v ls'_def)
  show "length ls' = unat (b_subnet_len (c_blocks w ! i))"
    using inv_leases [OF inv i ls] by (simp add: ls'_def)
  show "c_blocks v ! i = with_leases (c_blocks w ! i) ls'"
    using i inv_length [OF inv] by (simp add: v_def)
qed

text \<open>The leases of a block are checked at one of the readings of the clock \<open>ts\<close>.\<close>

definition check_rel :: "int stream \<Rightarrow> int \<Rightarrow> nat \<Rightarrow> ddhcp_block \<Rightarrow> ddhcp_block \<Rightarrow> bool" where
  "check_rel ts now k b b' \<longleftrightarrow> (\<exists>t \<in> sset ts. b' = checked now t b)"

lemma check_rel_later: "check_rel ts now k b b' \<Longrightarrow> sset ts \<subseteq> sset ts' \<Longrightarrow> check_rel ts' now k b b'"
  by (auto simp: check_rel_def)

lemma freed_idem_state: "b_state (freed b) = DDHCP_FREE" "b_addresses (freed b) = None"
  by (simp_all add: freed_def)

lemma check_block_ok:
  assumes inv: "wf_state w" and i: "i < num_blocks w"
  shows "ok (check_block now i w) (\<lambda>w'. same_claims w w' \<and> calm w w' \<and> sset (w_times w') \<subseteq> sset (w_times w) \<and>
    evolves (\<lambda>k b b'. if k = i then check_rel (w_times w) now k b b' else b' = b) w w')"
proof -
  let ?b = "c_blocks w ! i" and ?P = "\<lambda>k b b'. if k = i then check_rel (w_times w) now k b b' else b' = b"
  have len: "i < length (c_blocks w)" using inv i inv_length by simp
  have wfb: "wf_block w i ?b" using inv i by (rule inv_block)
  have noblock: "b_state ?b \<noteq> DDHCP_BLOCKED" using wfb by (simp add: wf_block_def)
  have t: "shd (w_times w) \<in> sset (w_times w)" by (rule shd_sset)
  have put: "evolves ?P w (put_block i b' w)" if "b' = checked now (shd (w_times w)) ?b" "wf_block w i b'" for b'
    using inv that t by (intro evolves_put) (auto simp: check_rel_def)
  show ?thesis
  proof (cases "b_state ?b = DDHCP_FREE \<or> b_addresses ?b = None \<and> \<not> b_timeout ?b < now")
    case True
    then have "b_addresses ?b = None" using wfb by (cases "b_addresses ?b") (auto simp: wf_block_def)
    with True have "check_block now i w = Some w" "checked now (shd (w_times w)) ?b = ?b"
      using len wfb by (auto simp: check_block_def checked_def wf_block_def)
    then show ?thesis
      using inv t by (auto simp: evolves_def keeps_def check_rel_def intro!: bexI [of _ "shd (w_times w)"])
  next
    case notfree: False
    show ?thesis
    proof (cases "b_timeout ?b < now")
      case True
      then have "check_block now i w = Some (put_block i (freed ?b) w)"
        using notfree noblock len block_free_eq [OF inv i]
        by (simp add: check_block_def freed_idem_state)
      moreover have "evolves ?P w (put_block i (freed ?b) w)"
        using True notfree wf_freed [OF wfb] by (intro put) (auto simp: checked_def)
      ultimately show ?thesis by (simp add: same_claims_def) (simp add: put_block_def)
    next
      case False
      with notfree obtain ls where ls: "b_addresses ?b = Some ls" by auto
      define ls' where "ls' = map (expire (shd (w_times w))) ls"
      define v where "v = put_block i (with_leases ?b ls') (w\<lparr>w_times := stl (w_times w)\<rparr>)"
      note ex = expire_block [OF inv i ls, folded ls'_def, folded v_def]
      have calm: "calm w v" "sset (w_times v) \<subseteq> sset (w_times w)"
        using stl_sset [of _ "w_times w"] by (auto simp: v_def) (simp add: put_block_def)
      have out: "w_out v = w_out w" "same_claims w v" "same_params w v" "num_blocks v = num_blocks w"
        by (simp_all add: v_def put_block_def same_claims_def same_params_def)
      have e1: "evolves (\<lambda>k b b'. b' = (if k = i then with_leases ?b ls' else b)) w v"
        using ex(2) out(3) len by (auto simp: evolves_def keeps_def v_def nth_list_update)
      have full: "int (count_state FREE ls') = uint (b_subnet_len ?b) \<longleftrightarrow> (\<forall>l \<in> set ls'. l_state l = FREE)"
        using ex(4) count_state_full [of FREE ls'] by (metis of_nat_eq_iff of_nat_unat)
      show ?thesis
      proof (cases "b_state ?b \<noteq> DDHCP_OURS \<and> (\<forall>l \<in> set ls'. l_state l = FREE)")
        case True
        have i': "i < num_blocks v" using i out by simp
        have e2: "evolves (\<lambda>k b b'. b' = (if k = i then freed (with_leases ?b ls') else b)) v
            (put_block i (freed (with_leases ?b ls')) v)"
          using ex(2,3) inv_block [OF ex(2) i'] by (intro evolves_put) (auto intro: wf_freed)
        have "evolves ?P w (put_block i (freed (with_leases ?b ls')) v)"
          using True notfree False ls
          by (intro evolves_trans_at [OF e1 e2])
            (auto simp: check_rel_def checked_def ls'_def Let_def split: if_splits
              intro!: bexI [of _ "shd (w_times w)"] t)
        moreover have "check_block now i w = Some (put_block i (freed (with_leases ?b ls')) v)"
          using True full notfree False len ls ex(1,3) block_free_eq [OF ex(2) i']
          by (simp add: check_block_def)
        ultimately show ?thesis using out calm by simp (simp add: put_block_def)
      next
        case busy: False
        have "evolves ?P w v"
          using busy notfree False ls
          by (intro evolves_mono_at [OF e1])
            (auto simp: check_rel_def checked_def ls'_def Let_def split: if_splits
              intro!: bexI [of _ "shd (w_times w)"] t)
        moreover have "check_block now i w = Some v"
          using busy full notfree False len ls ex(1,3) by (auto simp: check_block_def)
        ultimately show ?thesis using out calm by simp
      qed
    qed
  qed
qed


lemma block_check_timeouts_ok:
  assumes inv: "wf_state w"
  shows "ok (block_check_timeouts w) (\<lambda>w'. same_claims w w' \<and> calm w w' \<and>
    evolves (check_rel (w_times w) (shd (w_times w))) w w')"
proof -
  let ?now = "shd (w_times w)" and ?w = "w\<lparr>w_times := stl (w_times w)\<rparr>"
  let ?Q = "\<lambda>n k b b'. if k < n then check_rel (w_times w) ?now k b b' else b' = b"
  let ?I = "\<lambda>n v. same_claims w v \<and> calm w v \<and> sset (w_times v) \<subseteq> sset (w_times w) \<and> evolves (?Q n) w v"
  have "ok (foldM (check_block ?now) [0..<num_blocks w] ?w) (?I (num_blocks w))"
  proof (rule foldM_upt_ok [where I = ?I])
    show "?I 0 ?w"
      using inv stl_sset [of _ "w_times w"] by (auto simp: evolves_def keeps_def same_claims_def)
  next
    fix i v
    assume i: "i < num_blocks w" and "?I i v"
    then have v: "same_claims w v" "calm w v" "sset (w_times v) \<subseteq> sset (w_times w)"
      and e1: "evolves (?Q i) w v" by auto
    have "i < num_blocks v" using i evolvesD(3) [OF e1] by simp
    from check_block_ok [OF evolvesD(1) [OF e1] this, of ?now]
    show "ok (check_block ?now i v) (?I (Suc i))"
    proof (rule ok_mono)
      fix u
      assume u: "same_claims v u \<and> calm v u \<and> sset (w_times u) \<subseteq> sset (w_times v) \<and>
        evolves (\<lambda>k b b'. if k = i then check_rel (w_times v) ?now k b b' else b' = b) v u"
      then have e2: "evolves (\<lambda>k b b'. if k = i then check_rel (w_times v) ?now k b b' else b' = b) v u" by simp
      have "evolves (?Q (Suc i)) w u"
        using check_rel_later [OF _ v(3)]
        by (intro evolves_trans_at [OF e1 e2]) (auto simp: less_Suc_eq split: if_splits)
      then show "?I (Suc i) u" using u v same_claims_trans calm_trans by blast
    qed
  qed
  then obtain v where v: "foldM (check_block ?now) [0..<num_blocks w] ?w = Some v"
    "same_claims w v" "calm w v" and ev: "evolves (?Q (num_blocks w)) w v"
    by (auto simp: ok_iff)
  have "evolves (check_rel (w_times w) ?now) w v" using ev by (auto simp: evolves_def)
  with v show ?thesis by (simp add: block_check_timeouts_def time_null_def)
qed

end
