(* ===== verification/Dhcp_Inv.thy ===== *)
theory Dhcp_Inv
  imports Dhcp_Answer Block_Ops
begin

text \<open>
  The handlers of dhcp.c: what each does to the leases, on every branch, and that they keep
  the invariant. \<open>lease_rel i j Q\<close> says that nothing changed but lease \<open>j\<close> of block
  \<open>i\<close>, as \<open>Q\<close> says, and possibly the needless mark of that block.
\<close>

subsection \<open>One lease\<close>

definition lease_rel ::
  "nat \<Rightarrow> nat \<Rightarrow> (dhcp_lease \<Rightarrow> dhcp_lease \<Rightarrow> bool) \<Rightarrow> nat \<Rightarrow> ddhcp_block \<Rightarrow> ddhcp_block \<Rightarrow> bool" where
  "lease_rel i j Q k b b' \<longleftrightarrow>
     (if k = i then \<exists>l' n. Q (block_leases b ! j) l' \<and> (n = b_needless_since b \<or> n = 0) \<and>
        b' = b\<lparr>b_needless_since := n, b_addresses := Some ((block_leases b)[j := l'])\<rparr>
      else b' = b)"

lemma lease_access:
  assumes "wf_state w" "i < num_blocks w" "b_addresses (c_blocks w ! i) = Some ls" "j < length ls"
  shows "get_lease i j w = Some (ls ! j)"
    "wf_lease l' \<Longrightarrow> put_lease i j l' w = Some (set_leases i (ls[j := l']) w)"
    "wf_lease l' \<Longrightarrow> wf_state (set_leases i (ls[j := l']) w)"
proof -
  have len: "i < length (c_blocks w)" using assms(1,2) by (simp add: inv_length)
  show "get_lease i j w = Some (ls ! j)" using assms(3,4) len by (simp add: get_lease_def)
  show "put_lease i j l' w = Some (set_leases i (ls[j := l']) w)"
    using assms(3,4) len by (simp add: put_lease_def set_leases_def)
  show "wf_state (set_leases i (ls[j := l']) w)" if "wf_lease l'"
    using assms inv_leases(2) [OF assms(1-3)] that
    by (intro inv_set_leases [where ls = ls]) (auto dest: set_update_subset_insert [THEN subsetD])
qed

lemma set_leases_simps [simp]:
  "c_claiming_blocks (set_leases i ls w) = c_claiming_blocks w"
  "c_claiming_blocks_amount (set_leases i ls w) = c_claiming_blocks_amount w"
  "c_options (set_leases i ls w) = c_options w" "w_out (set_leases i ls w) = w_out w"
  "c_dhcp_packet_cache (set_leases i ls w) = c_dhcp_packet_cache w"
  "w_allocs (set_leases i ls w) = w_allocs w" "c_number_of_blocks (set_leases i ls w) = c_number_of_blocks w"
  "w_times (set_leases i ls w) = w_times w" "w_sends (set_leases i ls w) = w_sends w"
  "c_block_size (set_leases i ls w) = c_block_size w" "c_prefix (set_leases i ls w) = c_prefix w"
  "c_hook_command (set_leases i ls w) = c_hook_command w" "w_little_endian (set_leases i ls w) = w_little_endian w"
  by (simp_all add: set_leases_def put_block_def)

lemma set_leases_evolves:
  assumes "wf_state w" "i < num_blocks w" "b_addresses (c_blocks w ! i) = Some ls" "j < length ls"
    "wf_lease l'" "Q (ls ! j) l'"
  shows "evolves (lease_rel i j Q) w (set_leases i (ls[j := l']) w)"
proof -
  have len: "i < length (c_blocks w)" using assms(1,2) by (simp add: inv_length)
  have "\<exists>l' n. Q (ls ! j) l' \<and> (n = b_needless_since (c_blocks w ! i) \<or> n = 0) \<and>
      (c_blocks w ! i)\<lparr>b_addresses := Some (ls[j := l'])\<rparr> =
      (c_blocks w ! i)\<lparr>b_needless_since := n, b_addresses := Some (ls[j := l'])\<rparr>"
    by (intro exI [of _ l'] exI [of _ "b_needless_since (c_blocks w ! i)"])
      (use assms(6) in \<open>auto intro: ddhcp_block.equality\<close>)
  then have "lease_rel i j Q i (c_blocks w ! i) (c_blocks (set_leases i (ls[j := l']) w) ! i)"
    using assms(3,6) len
    by (auto simp: lease_rel_def intro!: exI [of _ l'] exI [of _ "b_needless_since (c_blocks w ! i)"]
        ddhcp_block.equality)
  moreover have "c_blocks (set_leases i (ls[j := l']) w) ! k = c_blocks w ! k" if "k \<noteq> i" for k
    using that by (simp add: set_leases_def)
  ultimately show ?thesis
    using lease_access(3) [OF assms(1-5)]
    by (auto simp: evolves_def keeps_def lease_rel_def)
qed

lemma lease_rel_mono: "lease_rel i j Q k b b' \<Longrightarrow> (\<And>l l'. Q l l' \<Longrightarrow> R l l') \<Longrightarrow> lease_rel i j R k b b'"
  by (simp add: lease_rel_def split: if_splits) blast

lemma evolves_env_l: "env_change u v \<Longrightarrow> wf_state u \<Longrightarrow> evolves P v w \<Longrightarrow> evolves P u w"
  by (rule evolves_trans [OF env_change_evolves [where P = "\<lambda>k b b'. b' = b"]]) auto

lemma evolves_env_r: "evolves P u v \<Longrightarrow> env_change v w \<Longrightarrow> evolves P u w"
  by (rule evolves_keep_blocks) (auto simp: env_change_def intro: env_change_inv dest: evolvesD(1))

subsection \<open>Sending an answer\<close>

lemma build_initial_packet_cases:
  assumes "wf_dhcp_header request"
  obtains (none) "build_initial_packet request w = (None, w\<lparr>w_allocs := stl (w_allocs w)\<rparr>)"
  | (some) p where "build_initial_packet request w = (Some p, w\<lparr>w_allocs := stl (w_allocs w)\<rparr>)"
      "wf_dhcp_header p" "d_xid p = d_xid request" "d_chaddr p = d_chaddr request"
      "d_ciaddr p = d_ciaddr request" "d_yiaddr p = zero_addr"
proof (cases "shd (w_allocs w)")
  case True
  let ?p = "the (fst (build_initial_packet request w))"
  have eq: "build_initial_packet request w = (Some ?p, w\<lparr>w_allocs := stl (w_allocs w)\<rparr>)"
    using True by (simp add: build_initial_packet_def calloc_def)
  show thesis
    by (rule some [OF eq])
      (use assms True in \<open>simp_all add: build_initial_packet_def calloc_def wf_dhcp_header_def zero_addr_def\<close>)
next
  case False
  then show thesis by (intro none) (simp add: build_initial_packet_def calloc_def)
qed

text \<open>What sending a packet leaves in the trace: its length on the standard output and the datagram.\<close>

definition dhcp_output :: "dhcp_packet \<Rightarrow> io list" where
  "dhcp_output p = [length_text (length (dhcp_packet_bytes p)), Dhcp_send (dhcp_destination p) (dhcp_packet_bytes p)]"

definition answered :: "world \<Rightarrow> dhcp_packet \<Rightarrow> world \<Rightarrow> bool" where
  "answered w p w' \<longleftrightarrow> w_out w' = w_out w @
     (if shd (w_allocs w) then dhcp_output p else [])"

lemma send_answer_ok:
  assumes "wf_dhcp_packet p"
  shows "ok (send_answer k p w) (\<lambda>(n, w'). quiet w w' \<and> answered w p w')"
  by (cases "shd (w_allocs w)")
    (simp_all add: dhcp_packet_send_eq [OF assms] send_answer_def statistics_record_def sendto_def
      quiet_def answered_def dhcp_output_def env_change_def same_params_def)

text \<open>The refusal carries the message type and nothing else.\<close>

definition nak_sent :: "dhcp_packet \<Rightarrow> world \<Rightarrow> world \<Rightarrow> bool" where
  "nak_sent request w w' \<longleftrightarrow>
     (\<exists>p. wf_dhcp_packet p \<and> d_xid p = d_xid request \<and> d_chaddr p = d_chaddr request \<and>
       sent_options p = [message_option DHCPNAK] \<and>
       w_out w' = w_out w @ dhcp_output p)"

definition refused :: "dhcp_packet \<Rightarrow> world \<Rightarrow> world \<Rightarrow> bool" where
  "refused request w w' \<longleftrightarrow> quiet w w' \<and>
     (nak_sent request w w' \<or> \<not> reliable w \<and> w_out w' = w_out w)"

lemma dhcp_nack_ok:
  assumes wf: "wf_dhcp_header request"
  shows "ok (dhcp_nack request w) (\<lambda>(r, w'). refused request w w')"
  using wf
proof (cases rule: build_initial_packet_cases [of request w])
  case none
  then have "\<not> reliable w" using reliable_now(1) [of w] by (auto simp: build_initial_packet_def calloc_def split: if_splits)
  with none show ?thesis by (simp add: dhcp_nack_def refused_def)
next
  case (some p)
  let ?p = "p\<lparr>d_options_len := 1, d_options := [message_option DHCPNAK]\<rparr>"
  let ?v = "w\<lparr>w_allocs := stl (stl (w_allocs w))\<rparr>"
  have wfp: "wf_dhcp_packet ?p"
    using some(2) by (simp add: wf_dhcp_packet_def wf_dhcp_header_def readable_def message_option_def)
  obtain n u where send: "send_answer STAT_DHCP_SEND_NAK ?p ?v = Some (n, u)" "quiet ?v u" "answered ?v ?p u"
    using send_answer_ok [OF wfp, of STAT_DHCP_SEND_NAK ?v] by (auto simp: ok_iff)
  have "nak_sent request w u \<or> \<not> reliable w \<and> w_out u = w_out w"
    using send(3) wfp some(3,4) reliable_allocs [of w]
    by (auto simp: nak_sent_def answered_def sent_options_def intro!: exI [of _ ?p])
  moreover have "quiet w u" using quiet_update(2) send(2) by (rule quiet_trans)
  moreover have "set_option [zero_option] 1 DHCP_CODE_MESSAGE_TYPE 1 [DHCPNAK] = Some (0, [message_option DHCPNAK])"
    by (simp add: set_option_def zero_option_def message_option_def)
  moreover have "\<not> reliable w" if "\<not> shd (stl (w_allocs w))" using that reliable_allocs [of w] by auto
  ultimately show ?thesis
    using some(1) send(1) by (auto simp: dhcp_nack_def calloc_def refused_def)
qed


subsection \<open>Granting a lease\<close>

lemma lease_until_ok: "wf_store (c_options w) \<Longrightarrow> \<exists>t. lease_until now w = Some t"
  using lease_time_ok [of "c_options w"] by (auto simp: lease_until_def)

definition granted :: "dhcp_packet \<Rightarrow> dhcp_lease \<Rightarrow> dhcp_lease \<Rightarrow> bool" where
  "granted request l l' \<longleftrightarrow>
     l_chaddr l' = d_chaddr request \<and> l_xid l' = d_xid request \<and> l_state l' = LEASED"

text \<open>
  The answer of type \<open>msg\<close> to a client: it names the address, carries the options the
  client asked for and nothing else leaves the server. A client may go without answer only
  when memory is short.
\<close>

definition answer_sent :: "u8 \<Rightarrow> bool \<Rightarrow> dhcp_packet \<Rightarrow> in_addr \<Rightarrow> io list \<Rightarrow> world \<Rightarrow> world \<Rightarrow> bool" where
  "answer_sent msg lt request address hooks w w' \<longleftrightarrow>
     (\<exists>p. wf_dhcp_packet p \<and> d_yiaddr p = address \<and> answer_for msg lt request (c_options w) p \<and>
       w_out w' = w_out w @ dhcp_output p @ hooks)"

definition told :: "u8 \<Rightarrow> bool \<Rightarrow> dhcp_packet \<Rightarrow> in_addr \<Rightarrow> io list \<Rightarrow> world \<Rightarrow> int \<Rightarrow> world \<Rightarrow> bool" where
  "told msg lt request address hooks w r w' \<longleftrightarrow>
     (r = 0 \<and> answer_sent msg lt request address hooks w w' \<or>
      \<not> reliable w \<and> (r = 0 \<and> w_out w' = w_out w @ hooks \<or> r = 1 \<and> w_out w' = w_out w))"

definition lease_hooks :: "world \<Rightarrow> in_addr \<Rightarrow> u8 list \<Rightarrow> io list" where
  "lease_hooks w address chaddr =
     (case c_hook_command w of None \<Rightarrow> [] | Some _ \<Rightarrow> [Hook_address ''lease'' address chaddr])"

lemma inv_store: "wf_state w \<Longrightarrow> wf_store (c_options w)"
  by (simp add: wf_state_def)

lemma hook_lease_out: "w_out (hook_address HOOK_LEASE a c w) = w_out w @ lease_hooks w a c"
  by (cases "c_hook_command w") (simp_all add: hook_address_def hook_types lease_hooks_def)

lemma lease_hooks_cong: "same_params w w' \<Longrightarrow> lease_hooks w' = lease_hooks w"
  by (simp add: lease_hooks_def same_params_def fun_eq_iff)

text \<open>
  \<open>dhcp_ack\<close> on a lease that exists: nothing changes when no memory is left for the
  answer, else the lease is granted and the answer names its address.
\<close>

lemma dhcp_ack_ok:
  assumes inv: "wf_state w" and i: "i < num_blocks w" and ls: "b_addresses (c_blocks w ! i) = Some ls"
    and j: "j < length ls" and wf: "wf_dhcp_packet request"
  shows "ok (dhcp_ack request i (of_nat j) w) (\<lambda>(r, w').
    c_dhcp_packet_cache w' = c_dhcp_packet_cache w \<and> same_claims w w' \<and>
    (r = 1 \<and> \<not> reliable w \<and> quiet w w' \<and> w_out w' = w_out w \<or>
     evolves (lease_rel i j (granted request)) w w' \<and>
       told DHCPACK True request (lease_address w i j)
         (lease_hooks w (lease_address w i j) (d_chaddr request)) w r w'))"
proof -
  have hd: "wf_dhcp_header request" using wf by (simp add: wf_dhcp_packet_def)
  have "length ls = unat (c_block_size w)" using inv_leases(1) [OF inv i ls] .
  then have ju: "unat (of_nat j :: u32) = j"
    using j unat_u8_less [of "c_block_size w"] by (intro of_nat_inverse) simp_all
  let ?w1 = "w\<lparr>w_times := stl (w_times w)\<rparr>" and ?now = "shd (w_times w)"
  let ?w2 = "?w1\<lparr>w_allocs := stl (w_allocs w)\<rparr>"
  from hd show ?thesis
  proof (cases rule: build_initial_packet_cases [of request ?w1])
    case none
    then have "\<not> reliable w" using reliable_now(1) [of w] by (auto simp: build_initial_packet_def calloc_def split: if_splits)
    with none show ?thesis
      by (simp add: dhcp_ack_def time_null_def quiet_def env_change_def same_params_def same_claims_def)
  next
    case (some p)
    have env: "env_change w ?w2" by (simp add: env_change_def same_params_def)
    have inv2: "wf_state ?w2" using env inv by (rule env_change_inv)
    obtain t where t: "lease_until ?now ?w2 = Some t"
      using lease_until_ok [of ?w2 ?now] inv_store [OF inv2] by auto
    let ?l = "(ls ! j)\<lparr>l_chaddr := d_chaddr request, l_xid := d_xid request,
           l_state := LEASED, l_lease_end := t\<rparr>"
    have wl: "wf_lease ?l" using hd by (simp add: wf_lease_def wf_dhcp_header_def)
    let ?w3 = "set_leases i (ls[j := ?l]) ?w2"
    have acc: "get_lease i j ?w2 = Some (ls ! j)" "put_lease i j ?l ?w2 = Some ?w3" "wf_state ?w3"
      using lease_access [OF inv2, of i ls j] wl i ls j by simp_all
    have e3: "evolves (lease_rel i j (granted request)) ?w2 ?w3"
      using inv2 i ls j wl by (intro set_leases_evolves) (auto simp: granted_def)
    then have e3: "evolves (lease_rel i j (granted request)) w ?w3"
      using evolves_env_l [OF env inv] by blast
    have i3: "i < length (c_blocks w)" using inv i by (simp add: inv_length)
    have sub: "b_subnet (c_blocks ?w3 ! i) = block_subnet w i"
      using inv_block [OF inv i] i3 by (simp add: wf_block_def)
    let ?p = "p\<lparr>d_yiaddr := lease_address w i j\<rparr>"
    have hp: "wf_dhcp_header ?p" using some(2) by (simp add: wf_dhcp_header_def lease_address_def)
    obtain r q where opt: "dhcp_default_options DHCPACK ?p request True ?w3 =
        Some ((r, q), ?w3\<lparr>w_allocs := stl (w_allocs ?w3)\<rparr>)"
      and q: "r = - ENOMEM \<and> \<not> reliable w \<or> r = 0 \<and> wf_dhcp_packet q \<and>
        (\<exists>n os. q = ?p\<lparr>d_options_len := n, d_options := os\<rparr>) \<and> answer_for DHCPACK True request (c_options w) q"
      using dhcp_default_options_sent [OF wf inv_store [OF acc(3)] hp, of DHCPACK True] some(3,4)
        reliable_allocs [of w] by (auto simp: ok_iff)
    let ?w4 = "?w3\<lparr>w_allocs := stl (w_allocs ?w3)\<rparr>"
    have e4: "evolves (lease_rel i j (granted request)) w ?w4"
      using e3 by (rule evolves_env_r) simp
    have fr: "c_dhcp_packet_cache ?w4 = c_dhcp_packet_cache w" "same_claims w ?w4" "w_out ?w4 = w_out w"
      by (simp_all add: same_claims_def)
    show ?thesis
    proof (cases "r = 0")
      case False
      have "told DHCPACK True request (lease_address w i j) hs w 1 ?w4" for hs using False q by (simp add: told_def)
      then show ?thesis
        using False some(1) ju acc(1,2) t i3 sub opt e4 fr
        by (simp add: dhcp_ack_def time_null_def lease_address_def)
    next
      case True
      then have wq: "wf_dhcp_packet q" and qe: "\<exists>n os. q = ?p\<lparr>d_options_len := n, d_options := os\<rparr>"
        and af: "answer_for DHCPACK True request (c_options w) q"
        using q by (auto simp: ENOMEM_def)
      have qf: "d_yiaddr q = lease_address w i j" "d_chaddr q = d_chaddr request"
        using qe some by auto
      obtain n v where send: "send_answer STAT_DHCP_SEND_ACK q ?w4 = Some (n, v)" "quiet ?w4 v" "answered ?w4 q v"
        using send_answer_ok [OF wq, of STAT_DHCP_SEND_ACK ?w4] by (auto simp: ok_iff)
      let ?v = "hook_address HOOK_LEASE (d_yiaddr q) (d_chaddr q) v"
      have qv: "quiet ?w4 ?v" using send(2) quiet_hook by (rule quiet_trans)
      have e5: "evolves (lease_rel i j (granted request)) w ?v"
        using e4 quiet_env [OF qv] by (rule evolves_env_r)
      have "same_params w v"
        using evolvesD(2) [OF e4] quiet_env [OF send(2)] same_params_trans by (auto simp: keeps_def env_change_def)
      then have "w_out ?v = w_out v @ lease_hooks w (d_yiaddr q) (d_chaddr q)"
        using hook_lease_out lease_hooks_cong by simp
      then have "told DHCPACK True request (lease_address w i j)
          (lease_hooks w (lease_address w i j) (d_chaddr request)) w 0 ?v"
        using send(3) wq qf fr(3) af reliable_allocs [of w]
        by (auto simp: told_def answer_sent_def answered_def intro!: exI [of _ q] split: if_splits)
      moreover have "c_dhcp_packet_cache ?v = c_dhcp_packet_cache w" "same_claims w ?v"
        using qv fr env_change_claims [OF quiet_env [OF qv]] by (auto simp: quiet_def same_claims_def)
      ultimately show ?thesis
        using True some(1) ju acc(1,2) t i3 sub opt send(1) e5
        by (simp add: dhcp_ack_def time_null_def lease_address_def)
    qed
  qed
qed


subsection \<open>Discover\<close>

definition offered_to :: "dhcp_packet \<Rightarrow> int \<Rightarrow> dhcp_lease \<Rightarrow> dhcp_lease \<Rightarrow> bool" where
  "offered_to discover now l l' \<longleftrightarrow> l_state l = FREE \<and>
     l' = \<lparr>l_chaddr = d_chaddr discover, l_state = OFFERED, l_xid = d_xid discover,
       l_lease_end = now + uint DHCP_OFFER_TIMEOUT\<rparr>"

text \<open>The first free lease of the block owned longest is offered.\<close>

definition offers :: "dhcp_packet \<Rightarrow> world \<Rightarrow> nat \<Rightarrow> nat \<Rightarrow> int \<Rightarrow> world \<Rightarrow> bool" where
  "offers discover w i j r w' \<longleftrightarrow>
     i < num_blocks w \<and> j < unat (c_block_size w) \<and>
     best (has_lease w) (\<lambda>i. b_first_claimed (c_blocks w ! i)) (num_blocks w) (Some i) \<and>
     l_state (block_leases (c_blocks w ! i) ! j) = FREE \<and>
     (\<forall>k < j. l_state (block_leases (c_blocks w ! i) ! k) \<noteq> FREE) \<and>
     evolves (lease_rel i j (offered_to discover (shd (w_times w)))) w w' \<and>
     told DHCPOFFER True discover (lease_address w i j) [] w r w'"

lemma has_lease_env: "env_change w w' \<Longrightarrow> has_lease w' = has_lease w"
  by (simp add: has_lease_def env_change_def fun_eq_iff)

lemma lease_rel_unmark:
  assumes "lease_rel i j Q k a b" "c = (if k = i then b\<lparr>b_needless_since := 0\<rparr> else b)"
  shows "lease_rel i j Q k a c"
proof (cases "k = i")
  case True
  with assms(1) obtain l' n where "Q (block_leases a ! j) l'"
    "b = a\<lparr>b_needless_since := n, b_addresses := Some ((block_leases a)[j := l'])\<rparr>"
    by (auto simp: lease_rel_def)
  with True assms(2) show ?thesis
    by (auto simp: lease_rel_def intro!: exI [of _ l'] exI [of _ 0] ddhcp_block.equality)
qed (use assms in \<open>simp add: lease_rel_def\<close>)

lemma dhcp_hdl_discover_ok:
  assumes inv: "wf_state w" and wf: "wf_dhcp_packet discover"
  shows "ok (dhcp_hdl_discover discover w) (\<lambda>(r, w').
    c_dhcp_packet_cache w' = c_dhcp_packet_cache w \<and> same_claims w w' \<and>
    (r = 3 \<and> quiet w w' \<and> w_out w' = w_out w \<and> (\<forall>i < num_blocks w. \<not> has_lease w i) \<or>
     r = 1 \<and> \<not> reliable w \<and> quiet w w' \<and> w_out w' = w_out w \<or>
     (\<exists>i j. offers discover w i j r w')))"
proof -
  have hd: "wf_dhcp_header discover" using wf by (simp add: wf_dhcp_packet_def)
  let ?w1 = "w\<lparr>w_times := stl (w_times w)\<rparr>" and ?now = "shd (w_times w)"
  have env1: "env_change w ?w1" by simp
  have inv1: "wf_state ?w1" using env1 inv by (rule env_change_inv)
  obtain sel where sel: "block_find_free_leases ?w1 = Some sel"
    "best (has_lease w) (\<lambda>i. b_first_claimed (c_blocks w ! i)) (num_blocks w) sel"
    using block_find_free_leases_best [OF inv1] has_lease_env [OF env1] by (auto simp: ok_iff)
  show ?thesis
  proof (cases sel)
    case None
    then have "\<forall>i < num_blocks w. \<not> has_lease w i" using sel(2) by (simp add: best_def)
    then show ?thesis
      using None sel(1) by (simp add: dhcp_hdl_discover_def time_null_def same_claims_def)
  next
    case (Some i)
    then have i: "i < num_blocks w" "has_lease w i" using sel(2) by (simp_all add: best_def)
    then have il: "i < length (c_blocks w)" using inv by (simp add: inv_length)
    obtain ls where ls: "b_addresses (c_blocks w ! i) = Some ls" "scannable (c_blocks w ! i)"
      "scanned (c_blocks w ! i) = ls" "length ls = unat (c_block_size w)"
      using inv_ours [OF inv i(1)] i(2) by (auto simp: has_lease_def)
    have sl: "b_subnet_len (c_blocks w ! i) = c_block_size w" "b_subnet (c_blocks w ! i) = block_subnet w i"
      using inv_block [OF inv i(1)] by (simp_all add: wf_block_def)
    have "count_state FREE (scanned (c_blocks w ! i)) > 0"
      using i(2) ls by (simp add: count_state_pos has_lease_def)
    from dhcp_get_free_lease_Some [OF ls(2) this] obtain j where j: "j < length ls"
      "dhcp_get_free_lease (c_blocks w ! i) = Some (of_nat j)" "l_state (ls ! j) = FREE"
      "\<forall>k < j. l_state (ls ! k) \<noteq> FREE"
      using ls sl by auto
    have ju: "unat (of_nat j :: u32) = j"
      using j(1) ls(4) unat_u8_less [of "c_block_size w"] by (intro of_nat_inverse) simp_all
    let ?w2 = "?w1\<lparr>w_allocs := stl (w_allocs w)\<rparr>"
    from hd show ?thesis
    proof (cases rule: build_initial_packet_cases [of discover ?w1])
      case none
      then have "\<not> reliable w" using reliable_now(1) [of w] by (auto simp: build_initial_packet_def calloc_def split: if_splits)
      with none show ?thesis
        using Some sel(1) il j(2)
        by (simp add: dhcp_hdl_discover_def time_null_def quiet_def env_change_def same_params_def same_claims_def)
    next
      case (some p)
      have env: "env_change w ?w2" by (simp add: env_change_def same_params_def)
      have inv2: "wf_state ?w2" using env inv by (rule env_change_inv)
      let ?l = "(ls ! j)\<lparr>l_chaddr := d_chaddr discover, l_xid := d_xid discover,
               l_state := OFFERED, l_lease_end := ?now + uint DHCP_OFFER_TIMEOUT\<rparr>"
      let ?Q = "lease_rel i j (offered_to discover ?now)"
      have wl: "wf_lease ?l" using hd by (simp add: wf_lease_def wf_dhcp_header_def)
      let ?w3 = "set_leases i (ls[j := ?l]) ?w2"
      have acc: "get_lease i j ?w2 = Some (ls ! j)" "put_lease i j ?l ?w2 = Some ?w3" "wf_state ?w3"
        using lease_access [OF inv2, of i ls j] wl i ls j by simp_all
      have "evolves ?Q ?w2 ?w3"
        using inv2 i ls j wl by (intro set_leases_evolves) (auto simp: offered_to_def)
      then have e3: "evolves ?Q w ?w3" using evolves_env_l [OF env inv] by blast
      let ?p = "p\<lparr>d_yiaddr := lease_address w i j\<rparr>"
      have hp: "wf_dhcp_header ?p" using some(2) by (simp add: wf_dhcp_header_def lease_address_def)
      obtain r q where opt: "dhcp_default_options DHCPOFFER ?p discover True ?w3 =
          Some ((r, q), ?w3\<lparr>w_allocs := stl (w_allocs ?w3)\<rparr>)"
        and q: "r = - ENOMEM \<and> \<not> reliable w \<or> r = 0 \<and> wf_dhcp_packet q \<and>
          (\<exists>n os. q = ?p\<lparr>d_options_len := n, d_options := os\<rparr>) \<and> answer_for DHCPOFFER True discover (c_options w) q"
        using dhcp_default_options_sent [OF wf inv_store [OF acc(3)] hp, of DHCPOFFER True] some(3,4)
          reliable_allocs [of w] by (auto simp: ok_iff)
      let ?w4 = "?w3\<lparr>w_allocs := stl (w_allocs ?w3)\<rparr>"
      have e4: "evolves ?Q w ?w4" using e3 by (rule evolves_env_r) simp
      have fr: "c_dhcp_packet_cache ?w4 = c_dhcp_packet_cache w" "same_claims w ?w4" "w_out ?w4 = w_out w"
        by (simp_all add: same_claims_def)
      have off: "offers discover w i j s u" if "evolves ?Q w u" "told DHCPOFFER True discover (lease_address w i j) [] w s u" for s u
        using that i j ls sel(2) Some by (simp add: offers_def)
      show ?thesis
      proof (cases "r = 0")
        case False
        have "offers discover w i j 1 ?w4" using e4 False q by (intro off) (simp_all add: told_def)
        then show ?thesis
          using False some(1) Some sel(1) ju acc(1,2) il j(2) sl opt fr
          by (auto simp: dhcp_hdl_discover_def time_null_def lease_address_def)
      next
        case True
        then have wq: "wf_dhcp_packet q" and qe: "\<exists>n os. q = ?p\<lparr>d_options_len := n, d_options := os\<rparr>"
          and af: "answer_for DHCPOFFER True discover (c_options w) q"
          using q by (auto simp: ENOMEM_def)
        have qf: "d_yiaddr q = lease_address w i j" using qe some by auto
        obtain n v where send: "send_answer STAT_DHCP_SEND_OFFER q ?w4 = Some (n, v)" "quiet ?w4 v" "answered ?w4 q v"
          using send_answer_ok [OF wq, of STAT_DHCP_SEND_OFFER ?w4] by (auto simp: ok_iff)
        have so: "told DHCPOFFER True discover (lease_address w i j) [] w 0 v"
          using send(3) wq qf fr(3) af reliable_allocs [of w]
          by (auto simp: told_def answer_sent_def answered_def intro!: exI [of _ q] split: if_splits)
        have ev: "evolves ?Q w v" using e4 quiet_env [OF send(2)] by (rule evolves_env_r)
        have iv: "i < length (c_blocks v)" "i < num_blocks v"
          using evolvesD(1,3) [OF ev] i inv_length by auto
        let ?u = "put_block i ((c_blocks v ! i)\<lparr>b_needless_since := 0\<rparr>) v"
        have "evolves (\<lambda>k b c. c = (if k = i then b\<lparr>b_needless_since := 0\<rparr> else b)) v ?u"
          using evolvesD(1) [OF ev] inv_block [OF evolvesD(1) [OF ev] iv(2)]
          by (intro evolves_put) (auto simp: wf_block_def)
        then have eu: "evolves ?Q w ?u"
          by (rule evolves_trans [OF ev]) (rule lease_rel_unmark)
        have cv: "c_dhcp_packet_cache v = c_dhcp_packet_cache w" "same_claims w v"
          using send(2) fr env_change_claims [OF quiet_env [OF send(2)]] by (auto simp: quiet_def same_claims_def)
        have "offers discover w i j 0 v" "offers discover w i j 0 ?u"
          using off [OF ev so] off [OF eu] so by (simp_all add: told_def answer_sent_def put_block_def)
        then show ?thesis
          using True some(1) Some sel(1) ju acc(1,2) il j(2) sl opt send(1) iv cv
          by (auto simp: dhcp_hdl_discover_def time_null_def lease_address_def put_block_def same_claims_def)
      qed
    qed
  qed
qed

end
