(* ===== verification/Dhcp_Request.thy ===== *)
theory Dhcp_Request
  imports Dhcp_Inv
begin

text \<open>
  \<open>dhcp_hdl_request\<close>, the forwarding of a request to the owner of a block, and the
  messages that only touch a lease the client holds: release, inform and the renewals of
  other nodes.
\<close>

subsection \<open>The requested address\<close>

definition addressable :: "dhcp_packet \<Rightarrow> bool" where
  "addressable request \<longleftrightarrow>
     (\<forall>x \<in> set (sent_options request). o_code x = DHCP_CODE_REQUESTED_ADDRESS \<longrightarrow> 4 \<le> length (o_payload x))"

lemma requested_address_ok:
  assumes wf: "wf_dhcp_packet request" and ad: "addressable request"
  obtains a where "requested_address request = Some a" "\<And>x. a = Some x \<Longrightarrow> length x = 4"
proof -
  have "wf_options (d_options request) (d_options_len request)"
    using wf by (simp add: wf_options_def wf_dhcp_packet_def)
  then have f: "find_option (d_options request) (d_options_len request) DHCP_CODE_REQUESTED_ADDRESS =
      Some (find (\<lambda>x. o_code x = DHCP_CODE_REQUESTED_ADDRESS) (sent_options request))"
    by (simp add: find_option_eq sent_options_def)
  show thesis
  proof (cases "find (\<lambda>x. o_code x = DHCP_CODE_REQUESTED_ADDRESS) (sent_options request)")
    case None
    have "length (d_ciaddr request) = 4" using wf by (simp add: wf_dhcp_packet_def wf_dhcp_header_def)
    with None f show thesis
      by (intro that [of "if d_ciaddr request \<noteq> zero_addr then Some (d_ciaddr request) else None"])
        (auto simp: requested_address_def find_option_requested_address_def split: if_splits)
  next
    case (Some x)
    then have "4 \<le> length (o_payload x)" using ad by (auto simp: addressable_def find_Some_iff)
    with Some f show thesis
      by (intro that [of "Some (take 4 (o_payload x))"])
        (auto simp: requested_address_def find_option_requested_address_def)
  qed
qed

subsection \<open>Release, inform, renew\<close>

definition released :: "u8 list \<Rightarrow> dhcp_lease \<Rightarrow> dhcp_lease \<Rightarrow> bool" where
  "released chaddr l l' \<longleftrightarrow> l_chaddr l = chaddr \<and> l' = release_lease l"

text \<open>A lease is released by the client that holds it only.\<close>

lemma dhcp_hdl_release_ok:
  assumes inv: "wf_state w" and wf: "wf_dhcp_header p"
  shows "ok (dhcp_hdl_release p w) (\<lambda>w'.
    c_dhcp_packet_cache w' = c_dhcp_packet_cache w \<and> same_claims w w' \<and>
    (w' = w \<or> (\<exists>i j. i < num_blocks w \<and> j < unat (c_block_size w) \<and>
       b_state (c_blocks w ! i) = DDHCP_OURS \<and> d_ciaddr p = lease_address w i j \<and>
       evolves (lease_rel i j (released (d_chaddr p))) w w')))"
proof -
  have a: "length (d_ciaddr p) = 4" and c: "length (d_chaddr p) = 16"
    using wf by (simp_all add: wf_dhcp_header_def)
  from inv a show ?thesis
  proof (cases rule: find_lease_cases)
    case outside
    then show ?thesis by (simp add: dhcp_hdl_release_def)
  next
    case (inside i j)
    show ?thesis
    proof (cases "b_state (c_blocks w ! i) = DDHCP_OURS")
      case False
      then show ?thesis using inside by (simp add: dhcp_hdl_release_def)
    next
      case True
      obtain ls where ls: "b_addresses (c_blocks w ! i) = Some ls" "length ls = unat (c_block_size w)"
        "\<forall>l \<in> set ls. wf_lease l"
        using inv_ours [OF inv inside(1) True] by blast
      have j: "j < length ls" using inside(2) ls by simp
      have ju: "unat (of_nat j :: u32) = j"
        using inside(2) unat_u8_less [of "c_block_size w"] by (intro of_nat_inverse) simp_all
      note acc = lease_access(1) [OF inv inside(1) ls(1) j]
      note rel = dhcp_release_lease_static_ok [OF inv inside(1) ls(1) j]
      have eq: "memcmp (d_chaddr p) (l_chaddr (ls ! j)) = 0 \<longleftrightarrow> l_chaddr (ls ! j) = d_chaddr p"
        using memcmp_eq_0 [of "d_chaddr p" "l_chaddr (ls ! j)"] c ls(3) j
        by (auto simp: wf_lease_def)
      show ?thesis
      proof (cases "memcmp (d_chaddr p) (l_chaddr (ls ! j)) = 0")
        case False
        then show ?thesis using True inside acc ju by (simp add: dhcp_hdl_release_def)
      next
        case match: True
        let ?v = "set_leases i (ls[j := release_lease (ls ! j)]) w"
        let ?u = "hook_address HOOK_RELEASE (d_yiaddr p) (d_chaddr p) ?v"
        have "evolves (lease_rel i j (released (d_chaddr p))) w ?v"
          using inv inside(1) ls(1) j match eq by (intro set_leases_evolves) (auto simp: released_def)
        then have ev: "evolves (lease_rel i j (released (d_chaddr p))) w ?u"
          by (rule evolves_env_r) (rule quiet_env [OF quiet_hook])
        have q: "quiet ?v ?u" by (rule quiet_hook)
        then have "c_dhcp_packet_cache ?u = c_dhcp_packet_cache w" "same_claims w ?u"
          by (auto simp: quiet_def env_change_def same_claims_def)
        then show ?thesis
          using True match inside acc rel(1) ju ev
          by (auto simp: dhcp_hdl_release_def)
      qed
    qed
  qed
qed

text \<open>An inform changes no lease and is answered without lease time and address.\<close>

lemma dhcp_hdl_inform_ok:
  assumes inv: "wf_state w" and wf: "wf_dhcp_packet request"
  shows "ok (dhcp_hdl_inform request w) (\<lambda>w'. quiet w w' \<and>
    (answer_sent DHCPACK False request zero_addr [] w w' \<or> \<not> reliable w \<and> w_out w' = w_out w))"
proof -
  have hd: "wf_dhcp_header request" and a: "length (d_ciaddr request) = 4"
    using wf by (simp_all add: wf_dhcp_packet_def wf_dhcp_header_def)
  obtain f where f: "find_lease_from_address (d_ciaddr request) w = Some f"
    using inv a by (cases rule: find_lease_cases) auto
  from hd show ?thesis
  proof (cases rule: build_initial_packet_cases [of request w])
    case none
    then have "\<not> reliable w" using reliable_now(1) [of w] by (auto simp: build_initial_packet_def calloc_def split: if_splits)
    with none show ?thesis by (simp add: dhcp_hdl_inform_def f)
  next
    case (some p)
    let ?w = "w\<lparr>w_allocs := stl (w_allocs w)\<rparr>" and ?v = "w\<lparr>w_allocs := stl (stl (w_allocs w))\<rparr>"
    obtain r q where opt: "dhcp_default_options DHCPACK p request False ?w = Some ((r, q), ?v)"
      and q: "r = - ENOMEM \<and> \<not> reliable w \<or> r = 0 \<and> wf_dhcp_packet q \<and>
        (\<exists>n os. q = p\<lparr>d_options_len := n, d_options := os\<rparr>) \<and> answer_for DHCPACK False request (c_options w) q"
      using dhcp_default_options_sent [OF wf _ some(2,3,4), of ?w DHCPACK False] inv_store [OF inv]
        reliable_allocs [of w] by (auto simp: ok_iff)
    show ?thesis
    proof (cases "r = 0")
      case False
      then show ?thesis using some(1) f opt q by (simp add: dhcp_hdl_inform_def)
    next
      case True
      then have qf: "wf_dhcp_packet q" "d_yiaddr q = zero_addr" "answer_for DHCPACK False request (c_options w) q"
        using q some(6) by (auto simp: ENOMEM_def)
      from send_answer_ok [OF qf(1), of STAT_DHCP_SEND_ACK ?v] obtain n u
        where u: "send_answer STAT_DHCP_SEND_ACK q ?v = Some (n, u)" "quiet ?v u" "answered ?v q u" by (auto simp: ok_iff)
      let ?u = "hook_address HOOK_INFORM (d_ciaddr q) (d_chaddr q) u"
      have "w_out ?u = w_out u" by (cases "c_hook_command u") (simp_all add: hook_address_def hook_types)
      then have "answer_sent DHCPACK False request zero_addr [] w ?u \<or> \<not> reliable w \<and> w_out ?u = w_out w"
        using u(3) qf reliable_allocs [of w] by (auto simp: answer_sent_def answered_def intro!: exI [of _ q])
      moreover have "quiet w ?u"
        using quiet_trans [OF quiet_update(2) quiet_trans [OF u(2) quiet_hook]] .
      ultimately show ?thesis
        using True some(1) f opt u(1) by (simp add: dhcp_hdl_inform_def)
    qed
  qed
qed

definition prolonged :: "dhcp_lease \<Rightarrow> dhcp_lease \<Rightarrow> bool" where
  "prolonged l l' \<longleftrightarrow> (\<exists>t. l' = l\<lparr>l_lease_end := t\<rparr>)"

text \<open>
  A renewal of another node prolongs the lease it names and changes nothing else; the
  result says whether the block is ours.
\<close>

lemma dhcp_rhdl_request_ok:
  fixes address :: u32
  assumes inv: "wf_state w"
  defines "a \<equiv> store32 (w_little_endian w) address"
  shows "ok (dhcp_rhdl_request address w) (\<lambda>(r, w').
    c_dhcp_packet_cache w' = c_dhcp_packet_cache w \<and> same_claims w w' \<and> calm w w' \<and>
    (r = 2 \<and> quiet w w' \<and> (\<forall>i j. i < num_blocks w \<longrightarrow> j < unat (c_block_size w) \<longrightarrow> a \<noteq> lease_address w i j) \<or>
     (\<exists>i j. i < num_blocks w \<and> j < unat (c_block_size w) \<and> a = lease_address w i j \<and>
       (r = 1 \<and> quiet w w' \<and> b_state (c_blocks w ! i) \<noteq> DDHCP_OURS \<or>
        r = 0 \<and> b_state (c_blocks w ! i) = DDHCP_OURS \<and> evolves (lease_rel i j prolonged) w w'))))"
proof -
  let ?w = "w\<lparr>w_times := stl (w_times w)\<rparr>"
  have env: "env_change w ?w" by simp
  have inv1: "wf_state ?w" using inv by simp
  have la: "lease_address ?w = lease_address w" by (simp add: lease_address_def block_subnet_def fun_eq_iff)
  have la4: "length a = 4" by (simp add: a_def)
  from inv1 la4 show ?thesis
  proof (cases rule: find_lease_cases)
    case outside
    then show ?thesis
      by (simp add: dhcp_rhdl_request_def time_null_def a_def [symmetric] same_claims_def la)
  next
    case (inside i j)
    show ?thesis
    proof (cases "b_state (c_blocks w ! i) = DDHCP_OURS")
      case False
      then show ?thesis
        using inside by (auto simp: dhcp_rhdl_request_def time_null_def a_def [symmetric] same_claims_def la)
    next
      case True
      have i: "i < num_blocks w" using inside(1) by simp
      obtain ls where ls: "b_addresses (c_blocks w ! i) = Some ls" "length ls = unat (c_block_size w)"
        "\<forall>l \<in> set ls. wf_lease l"
        using inv_ours [OF inv i True] by blast
      have j: "j < length ls" using inside(2) ls by simp
      have ju: "unat (of_nat j :: u32) = j"
        using inside(2) unat_u8_less [of "c_block_size w"] by (intro of_nat_inverse) simp_all
      obtain t where t: "lease_until (shd (w_times w)) ?w = Some t"
        using lease_until_ok [of ?w] inv_store [OF inv1] by auto
      let ?l = "(ls ! j)\<lparr>l_lease_end := t\<rparr>"
      have wl: "wf_lease ?l" using ls(3) j by (simp add: wf_lease_def)
      have acc: "get_lease i j ?w = Some (ls ! j)" "put_lease i j ?l ?w = Some (set_leases i (ls[j := ?l]) ?w)"
        using lease_access [OF inv1, of i ls j] wl i ls j by simp_all
      have "evolves (lease_rel i j prolonged) ?w (set_leases i (ls[j := ?l]) ?w)"
        using inv1 i ls j wl by (intro set_leases_evolves) (auto simp: prolonged_def)
      then have "evolves (lease_rel i j prolonged) w (set_leases i (ls[j := ?l]) ?w)"
        using evolves_env_l [OF env inv] by blast
      moreover have "dhcp_rhdl_request address w = Some (0, set_leases i (ls[j := ?l]) ?w)"
        using True inside(4) acc ju t
        by (simp add: dhcp_rhdl_request_def time_null_def a_def [symmetric])
      ultimately show ?thesis
        using True i inside(2,3) la by (auto simp: same_claims_def) (simp_all add: set_leases_def)
    qed
  qed
qed


subsection \<open>Forwarding\<close>

definition alloc_leases :: "u8 \<Rightarrow> ddhcp_block \<Rightarrow> dhcp_lease list" where
  "alloc_leases n b = (case b_addresses b of None \<Rightarrow> new_leases n | Some ls \<Rightarrow> ls)"

definition registered :: "dhcp_packet \<Rightarrow> dhcp_lease \<Rightarrow> bool" where
  "registered request l \<longleftrightarrow>
     l_chaddr l = d_chaddr request \<and> l_xid l = d_xid request \<and> l_state l = OFFERED"

text \<open>Block \<open>i\<close> has a lease array now, in which lease \<open>j\<close> notes the client.\<close>

definition forward_rel :: "dhcp_packet \<Rightarrow> u8 \<Rightarrow> nat \<Rightarrow> nat \<Rightarrow> nat \<Rightarrow> ddhcp_block \<Rightarrow> ddhcp_block \<Rightarrow> bool" where
  "forward_rel request n i j k b b' \<longleftrightarrow>
     (if k = i then \<exists>l. registered request l \<and> b' = b\<lparr>b_addresses := Some ((alloc_leases n b)[j := l])\<rparr>
      else b' = b)"

definition renew_packet :: "dhcp_packet \<Rightarrow> in_addr \<Rightarrow> world \<Rightarrow> ddhcp_mcast_packet" where
  "renew_packet request a w = \<lparr>m_node_id = c_node_id w, m_prefix = c_prefix w, m_prefix_len = c_prefix_len w,
     m_blocksize = c_block_size w, m_command = DDHCP_MSG_RENEWLEASE, m_count = 0, m_sender = None,
     m_body = Renew \<lparr>r_chaddr = d_chaddr request, r_address = load32 (w_little_endian w) a,
       r_xid = d_xid request, r_lease_seconds = 0\<rparr>\<rparr>"

lemma wf_renew_packet: "wf_params w \<Longrightarrow> wf_dhcp_header request \<Longrightarrow> wf_mcast (renew_packet request a w)"
  by (simp add: wf_mcast_def renew_packet_def valid_renew_def wf_params_def wf_dhcp_header_def)

lemma renew_packet_cong: "same_params w w' \<Longrightarrow> renew_packet r a w' = renew_packet r a w"
  by (simp add: renew_packet_def same_params_def)

text \<open>
  Adding to the cache: nothing else changes. A copy that fails half way is stored all the
  same, with options that may not be read.
\<close>

definition stored :: "dhcp_packet \<Rightarrow> world \<Rightarrow> world \<Rightarrow> bool" where
  "stored request w w' \<longleftrightarrow>
     (\<exists>t. c_dhcp_packet_cache w' = c_dhcp_packet_cache w @
       [request\<lparr>d_options := map trimmed (sent_options request), d_timeout := t\<rparr>]) \<or>
     \<not> reliable w \<and> (c_dhcp_packet_cache w' = c_dhcp_packet_cache w \<or>
       (\<exists>t. c_dhcp_packet_cache w' = c_dhcp_packet_cache w @ [request\<lparr>d_options := [], d_timeout := t\<rparr>]))"

lemma stored_cong:
  "c_dhcp_packet_cache u = c_dhcp_packet_cache w \<Longrightarrow> reliable w \<longrightarrow> reliable u \<Longrightarrow>
    c_dhcp_packet_cache v = c_dhcp_packet_cache w' \<Longrightarrow> stored request u v \<Longrightarrow> stored request w w'"
  unfolding stored_def by metis

lemma dhcp_packet_list_add_ok:
  assumes "wf_dhcp_packet request"
  shows "ok (dhcp_packet_list_add request w) (\<lambda>(r, w'). env_change w w' \<and> w_out w' = w_out w \<and>
    stored request w w' \<and> (reliable w \<longrightarrow> reliable w'))"
proof (cases "shd (w_allocs w)")
  case False
  then show ?thesis
    using reliable_now(1) [of w]
    by (auto simp: dhcp_packet_list_add_def time_null_def calloc_def env_change_def same_params_def stored_def)
next
  case True
  let ?v = "w\<lparr>w_times := stl (w_times w), w_allocs := stl (w_allocs w)\<rparr>"
  obtain r q v where c: "dhcp_packet_copy request ?v = Some ((r, q), v)"
    "q = request\<lparr>d_options := map trimmed (sent_options request)\<rparr> \<or>
     \<not> reliable ?v \<and> q = request\<lparr>d_options := []\<rparr>"
    "\<exists>as. v = ?v\<lparr>w_allocs := as\<rparr>" "reliable ?v \<longrightarrow> reliable v"
    using dhcp_packet_copy_ok [OF assms, of ?v] unfolding ok_iff by auto
  have rel: "reliable w \<Longrightarrow> reliable ?v" using reliable_later(1) [of "w\<lparr>w_times := stl (w_times w)\<rparr>"] by simp
  let ?u = "v\<lparr>c_dhcp_packet_cache := c_dhcp_packet_cache v @ [q\<lparr>d_timeout := shd (w_times w) + 120\<rparr>]\<rparr>"
  have eq: "dhcp_packet_list_add request w = Some (0, ?u)"
    using True c(1) by (simp add: dhcp_packet_list_add_def time_null_def calloc_def)
  from c(3) obtain as where v: "v = w\<lparr>w_times := stl (w_times w), w_allocs := as\<rparr>" by auto
  have "env_change w ?u" "w_out ?u = w_out w" by (simp_all add: v env_change_def same_params_def)
  moreover have "stored request w ?u" using c(2) rel by (auto simp: v stored_def)
  moreover have "reliable w \<longrightarrow> reliable ?u" using rel c(4) by (simp add: reliable_def)
  ultimately show ?thesis using eq by simp
qed

lemma forward_rel_intro:
  assumes "c_blocks w' = (c_blocks w)[i := (c_blocks w ! i)\<lparr>b_addresses := Some ((alloc_leases (c_block_size w) (c_blocks w ! i))[j := l])\<rparr>]"
    "registered request l" "keeps w w'" "i < length (c_blocks w)"
  shows "evolves (forward_rel request (c_block_size w) i j) w w'"
  using assms by (auto simp: evolves_def forward_rel_def nth_list_update)

definition renew_sent :: "dhcp_packet \<Rightarrow> in_addr \<Rightarrow> nat \<Rightarrow> world \<Rightarrow> world \<Rightarrow> bool" where
  "renew_sent request a i w w' \<longleftrightarrow>
     (\<exists>bs. hton_packet (renew_packet request a w) = Some bs \<and>
       w_out w' = w_out w @ [Direct_send (b_owner_address (c_blocks w ! i)) bs])"

definition forwarded :: "dhcp_packet \<Rightarrow> in_addr \<Rightarrow> nat \<Rightarrow> nat \<Rightarrow> world \<Rightarrow> int \<Rightarrow> world \<Rightarrow> bool" where
  "forwarded request a i j w r w' \<longleftrightarrow> same_claims w w' \<and> stored request w w' \<and>
    evolves (forward_rel request (c_block_size w) i j) w w' \<and> (reliable w \<longrightarrow> reliable w') \<and>
    (r = 2 \<and> renew_sent request a i w w' \<or>
     \<not> reliable w \<and> (r = 2 \<or> r = - ENOMEM) \<and> w_out w' = w_out w)"

text \<open>A lease array would be needed and the allocator fails.\<close>

definition no_memory :: "world \<Rightarrow> nat \<Rightarrow> bool" where
  "no_memory w i \<longleftrightarrow> b_addresses (c_blocks w ! i) = None \<and> \<not> shd (w_allocs w)"

lemma alloc_leases_block:
  assumes inv: "wf_state w" and i: "i < num_blocks w" and st: "b_state (c_blocks w ! i) = DDHCP_CLAIMED"
    and mem: "\<not> no_memory w i"
  defines "ls \<equiv> alloc_leases (c_block_size w) (c_blocks w ! i)"
  shows "\<exists>v. block_alloc (Some i) w = Some (0, v) \<and> b_addresses (c_blocks v ! i) = Some ls \<and>
    c_blocks v = (c_blocks w)[i := (c_blocks w ! i)\<lparr>b_addresses := Some ls\<rparr>] \<and> same_claims w v \<and>
    same_params w v \<and> wf_state v \<and> w_out v = w_out w \<and> c_dhcp_packet_cache v = c_dhcp_packet_cache w \<and>
    (reliable w \<longrightarrow> reliable v)"
proof -
  have il: "i < length (c_blocks w)" using inv i by (simp add: inv_length)
  let ?b = "c_blocks w ! i"
  show ?thesis
  proof (cases "b_addresses ?b")
    case None
    then have ls: "ls = new_leases (c_block_size w)" by (simp add: ls_def alloc_leases_def)
    let ?w = "w\<lparr>w_allocs := stl (w_allocs w)\<rparr>"
    let ?v = "put_block i (?b\<lparr>b_addresses := Some ls\<rparr>) ?w"
    have sl: "b_subnet_len ?b = c_block_size w" using inv_block [OF inv i] by (simp add: wf_block_def)
    have "block_alloc (Some i) w = Some (0, ?v)"
      using None mem il sl by (simp add: no_memory_def block_alloc_def calloc_def ls new_leases_def zero_lease_def)
    moreover have "wf_state ?v"
      using inv inv_block [OF inv i] st
      by (intro inv_put_block) (auto simp: wf_block_def ls new_leases_def block_subnet_def)
    ultimately show ?thesis
      using il reliable_later(1) [of w]
      by (intro exI [of _ ?v]) (simp add: put_block_def same_claims_def same_params_def reliable_def)
  next
    case (Some l)
    then have ls: "ls = l" and "?b\<lparr>b_addresses := Some l\<rparr> = ?b"
      by (simp_all add: ls_def alloc_leases_def)
    then have "(c_blocks w)[i := ?b\<lparr>b_addresses := Some ls\<rparr>] = c_blocks w" by simp
    then show ?thesis
      using Some il inv ls by (intro exI [of _ w]) (simp add: block_alloc_def)
  qed
qed

text \<open>A datagram leaves exactly when memory for it is there.\<close>

lemma send_packet_exact:
  assumes "hton_packet p = Some bs" "\<not> packet_size (m_command p) (uint (m_count p)) < 0"
  shows "\<exists>n w'. send_packet dest p w = Some (n, w') \<and> env_change w w' \<and>
    c_dhcp_packet_cache w' = c_dhcp_packet_cache w \<and>
    w_out w' = w_out w @ (if shd (w_allocs w) then [dest bs] else []) \<and> (reliable w \<longrightarrow> reliable w')"
proof (cases "shd (w_allocs w)")
  case True
  let ?w = "w\<lparr>w_allocs := stl (w_allocs w), w_sends := stl (w_sends w), w_out := w_out w @ [dest bs]\<rparr>"
  have "reliable w \<longrightarrow> reliable ?w" by (auto simp: reliable_def dest: stl_sset)
  with True assms show ?thesis by (simp add: send_packet_def calloc_def sendto_def env_change_def same_params_def)
qed (use assms in \<open>simp add: send_packet_def calloc_def\<close>)

lemma send_renew_ok:
  assumes inv: "wf_state w" and i: "i < num_blocks w" and wf: "wf_dhcp_packet request"
  shows "ok (send_renew request a i w) (\<lambda>(r, w'). env_change w w' \<and> stored request w w' \<and> (reliable w \<longrightarrow> reliable w') \<and>
    (r = 2 \<and> renew_sent request a i w w' \<or>
     \<not> reliable w \<and> (r = 2 \<or> r = - ENOMEM) \<and> w_out w' = w_out w))"
proof (cases "shd (w_allocs w)")
  case False
  then show ?thesis
    using reliable_now(1) [of w] by (auto simp: send_renew_def new_ddhcp_packet_def calloc_def stored_def)
next
  case True
  have il: "i < length (c_blocks w)" using inv i by (simp add: inv_length)
  have wfr: "wf_mcast (renew_packet request a w)"
    using inv_params [OF inv] wf by (intro wf_renew_packet) (simp_all add: wf_dhcp_packet_def)
  then obtain bs where bs: "hton_packet (renew_packet request a w) = Some bs"
    using wf_packet_hton by blast
  have size: "\<not> packet_size (m_command (renew_packet request a w)) (uint (m_count (renew_packet request a w))) < 0"
    by (simp add: renew_packet_def packet_size_def ddhcp_msgs)
  let ?v = "w\<lparr>w_allocs := stl (w_allocs w)\<rparr>"
  obtain r u where u: "dhcp_packet_list_add request ?v = Some (r, u)" "env_change ?v u" "w_out u = w_out w"
    "stored request ?v u" "reliable ?v \<longrightarrow> reliable u"
    using dhcp_packet_list_add_ok [OF wf, of ?v] by (auto simp: ok_iff)
  let ?s = "statistics_record STAT_DIRECT_SEND_RENEWLEASE 1 (statistics_record STAT_DIRECT_SEND_PKG 1 u)"
  let ?dest = "Direct_send (b_owner_address (c_blocks w ! i))"
  have s: "env_change w ?s" "w_out ?s = w_out w" "c_dhcp_packet_cache ?s = c_dhcp_packet_cache u" "c_blocks ?s = c_blocks w"
    using u(2,3) by (simp_all add: statistics_record_def env_change_def same_params_def)
  have rs: "reliable w \<longrightarrow> reliable ?s" using u(5) reliable_later(1) [of w] by simp
  obtain n x where x: "send_packet ?dest (renew_packet request a w) ?s = Some (n, x)"
    "env_change ?s x" "c_dhcp_packet_cache x = c_dhcp_packet_cache ?s"
    "w_out x = w_out w @ (if shd (w_allocs ?s) then [?dest bs] else [])" "reliable ?s \<longrightarrow> reliable x"
    using send_packet_exact [OF bs size, of ?dest ?s] s(2) by auto
  let ?x = "statistics_record STAT_DIRECT_SEND_BYTE n x"
  have eq: "send_renew request a i w = Some (2, ?x)"
    using True u(1) x(1) s(4) il
    by (simp add: send_renew_def new_ddhcp_packet_def calloc_def renew_packet_def send_packet_direct_def)
  have "env_change w ?x"
    using env_change_trans [OF s(1) env_change_trans [OF x(2) env_change_calls(5)]] .
  moreover have "stored request w ?x"
    by (rule stored_cong [OF _ _ _ u(4)]) (use x(3) s(3) in \<open>simp_all add: statistics_record_def\<close>)
  moreover have "renew_sent request a i w ?x \<or> \<not> reliable w \<and> w_out ?x = w_out w"
    using x(4) bs rs reliable_now(1) [of ?s] by (auto simp: renew_sent_def statistics_record_def)
  moreover have "reliable w \<longrightarrow> reliable ?x" using rs x(5) by simp
  ultimately show ?thesis using eq by auto
qed

text \<open>The owner of the block gets the request, when memory for the leases of the block is left.\<close>

lemma forward_request_ok:
  assumes inv: "wf_state w" and i: "i < num_blocks w" and st: "b_state (c_blocks w ! i) = DDHCP_CLAIMED"
    and j: "j < unat (c_block_size w)" and wf: "wf_dhcp_packet request" and mem: "\<not> no_memory w i"
  shows "ok (forward_request request a now i (of_nat j) w) (\<lambda>(r, w'). forwarded request a i j w r w')"
    (is "ok _ ?post")
proof -
  have hd: "wf_dhcp_header request" using wf by (simp add: wf_dhcp_packet_def)
  have il: "i < length (c_blocks w)" using inv i by (simp add: inv_length)
  have ju: "unat (of_nat j :: u32) = j"
    using j unat_u8_less [of "c_block_size w"] by (intro of_nat_inverse) simp_all
  let ?n = "c_block_size w" and ?b = "c_blocks w ! i"
  let ?ls = "alloc_leases ?n ?b"
  have wfb: "wf_block w i ?b" using inv i by (rule inv_block)
  have lsl: "length ?ls = unat ?n" "\<forall>l \<in> set ?ls. wf_lease l"
    using wf_block_leases [OF wfb]
    by (auto simp: alloc_leases_def new_leases_def split: option.splits)
  obtain v where v: "block_alloc (Some i) w = Some (0, v)" "b_addresses (c_blocks v ! i) = Some ?ls"
    "c_blocks v = (c_blocks w)[i := ?b\<lparr>b_addresses := Some ?ls\<rparr>]" "same_claims w v" "same_params w v"
    "wf_state v" "w_out v = w_out w" "c_dhcp_packet_cache v = c_dhcp_packet_cache w" "reliable w \<longrightarrow> reliable v"
    using alloc_leases_block [OF inv i st mem] by blast
  have iv: "i < num_blocks v" "i < length (c_blocks v)"
    using i v(5) inv_length [OF v(6)] by (auto simp: same_params_def)
  obtain t where t: "lease_until now v = Some t" using lease_until_ok inv_store [OF v(6)] by blast
  let ?l = "(?ls ! j)\<lparr>l_xid := d_xid request, l_state := OFFERED,
       l_lease_end := t, l_chaddr := d_chaddr request\<rparr>"
  have wl: "wf_lease ?l" using hd by (simp add: wf_lease_def wf_dhcp_header_def)
  let ?u = "set_leases i (?ls[j := ?l]) v"
  have acc: "get_lease i j v = Some (?ls ! j)" "put_lease i j ?l v = Some ?u" "wf_state ?u"
    using lease_access [OF v(6) iv(1) v(2), of j] wl j lsl by simp_all
  have bu: "c_blocks ?u = (c_blocks w)[i := ?b\<lparr>b_addresses := Some (?ls[j := ?l])\<rparr>]"
    using v(3) il by (simp add: set_leases_def)
  have spu: "same_params w ?u" using v(5) same_params_set_leases by (rule same_params_trans)
  have eu: "evolves (forward_rel request ?n i j) w ?u"
    using acc(3) spu il by (intro forward_rel_intro [OF bu]) (auto simp: registered_def keeps_def)
  have fr: "same_claims w ?u" "w_out ?u = w_out w" "c_dhcp_packet_cache ?u = c_dhcp_packet_cache w"
    using v by (simp_all add: same_claims_def)
  have iu: "i < num_blocks ?u" using iv by simp
  have ou: "b_owner_address (c_blocks ?u ! i) = b_owner_address ?b" unfolding bu using il by simp
  have rel: "reliable w \<longrightarrow> reliable ?u" using v(9) by (simp add: reliable_def)
  have "ok (send_renew request a i ?u) ?post"
  proof (rule ok_mono [OF send_renew_ok [OF acc(3) iu wf]], clarsimp)
    fix r w'
    assume rw: "reliable ?u \<longrightarrow> reliable w'" and h: "env_change ?u w'" "stored request ?u w'"
      "r = 2 \<and> renew_sent request a i ?u w' \<or>
       \<not> reliable ?u \<and> (r = 2 \<or> r = - ENOMEM) \<and> w_out w' = w_out v"
    have "evolves (forward_rel request ?n i j) w w'" using eu h(1) by (rule evolves_env_r)
    moreover have "same_claims w w'" using fr(1) env_change_claims [OF h(1)] by (rule same_claims_trans)
    moreover have "stored request w w'" using fr(3) rel h(2) by (intro stored_cong [OF _ _ refl h(2)]) simp_all
    moreover have "renew_sent request a i ?u w' \<Longrightarrow> renew_sent request a i w w'"
      using v(7) ou renew_packet_cong [OF spu] by (simp add: renew_sent_def)
    ultimately show "forwarded request a i j w r w'"
      using h(3) v(7) rel rw by (auto simp: forwarded_def)
  qed
  then show ?thesis
    using v(1) acc(1,2) t ju by (simp add: forward_request_def)
qed

text \<open>Without memory the refusal is sent, and then the lease is written through NULL.\<close>

lemma forward_request_stuck:
  assumes inv: "wf_state w" and i: "i < num_blocks w" and hd: "wf_dhcp_header request" and mem: "no_memory w i"
  shows "forward_request request a now i j w = None"
proof -
  let ?w = "w\<lparr>w_allocs := stl (w_allocs w)\<rparr>"
  have il: "i < length (c_blocks w)" using inv i by (simp add: inv_length)
  obtain r u where u: "dhcp_nack request ?w = Some (r, u)" "refused request ?w u"
    using dhcp_nack_ok [OF hd, of ?w] by (auto simp: ok_iff)
  then have "c_blocks u = c_blocks w" by (simp add: refused_def quiet_def env_change_def)
  then have "get_lease i (unat j) u = None"
    using mem by (simp add: no_memory_def get_lease_def get_block_def nth_opt_def block_leases_def)
  then show ?thesis
    using mem il u(1) by (simp add: forward_request_def block_alloc_def calloc_def no_memory_def)
qed

end
