(* ===== verification/Dhcp_Decide.thy ===== *)
theory Dhcp_Decide
  imports Dhcp_Request
begin

text \<open>
  What the server promises a client that requests an address: \<open>decides\<close> is the policy,
  stated over blocks, leases and addresses, and \<open>performs\<close> is what each decision means for
  the state and the network. \<open>dhcp_hdl_request\<close> refines the two. The policy gives a lease
  of a client to no other client.
\<close>

subsection \<open>The search for an offer\<close>

definition offered_lease :: "dhcp_packet \<Rightarrow> dhcp_lease \<Rightarrow> bool" where
  "offered_lease request l \<longleftrightarrow>
     l_state l = OFFERED \<and> l_xid l = d_xid request \<and> l_chaddr l = d_chaddr request"

definition offer_at :: "dhcp_packet \<Rightarrow> world \<Rightarrow> nat \<Rightarrow> nat \<Rightarrow> bool" where
  "offer_at request w i j \<longleftrightarrow> i < num_blocks w \<and> j < unat (c_block_size w) \<and>
     b_state (c_blocks w ! i) = DDHCP_OURS \<and> offered_lease request (block_leases (c_blocks w ! i) ! j)"

lemma offer_step_ok:
  assumes inv: "wf_state w" and wf: "wf_dhcp_header request" and i: "i < num_blocks w"
  shows "ok (offer_step request w i None) (\<lambda>r. case r of
      None \<Rightarrow> \<forall>j. \<not> offer_at request w i j
    | Some (k, j) \<Rightarrow> k = i \<and> offer_at request w i j \<and> (\<forall>m < j. \<not> offer_at request w i m))"
proof (cases "b_state (c_blocks w ! i) = DDHCP_OURS")
  case False
  then show ?thesis
    using i inv_length [OF inv] by (simp add: offer_step_def offer_at_def)
next
  case True
  obtain ls where ls: "b_addresses (c_blocks w ! i) = Some ls" "length ls = unat (c_block_size w)"
    "\<forall>l \<in> set ls. wf_lease l"
    using inv_ours [OF inv i True] by blast
  have sl: "b_subnet_len (c_blocks w ! i) = c_block_size w"
    using inv_block [OF inv i] by (simp add: wf_block_def)
  let ?P = "\<lambda>l. l_state l = OFFERED \<and> l_xid l = d_xid request \<and> memcmp (d_chaddr request) (l_chaddr l) = 0"
  have eq: "?P (ls ! j) \<longleftrightarrow> offered_lease request (ls ! j)" if "j < length ls" for j
    using memcmp_eq_0 [of "d_chaddr request" "l_chaddr (ls ! j)"] that ls(3) wf
    by (auto simp: offered_lease_def wf_lease_def wf_dhcp_header_def)
  have at: "offer_at request w i j \<longleftrightarrow> j < length ls \<and> ?P (ls ! j)" for j
    using True i ls eq [of j] by (auto simp: offer_at_def)
  have f: "find_idx ?P ls [0..<length ls] = Some (find (\<lambda>j. ?P (ls ! j)) [0..<length ls])"
    by (intro find_idx_find) simp
  have step: "offer_step request w i None = Some (map_option (Pair i) (find (\<lambda>j. ?P (ls ! j)) [0..<length ls]))"
    using True i inv_length [OF inv] ls(1,2) sl f by (simp add: offer_step_def)
  show ?thesis
  proof (cases "find (\<lambda>j. ?P (ls ! j)) [0..<length ls]")
    case None
    then have "\<forall>j. \<not> offer_at request w i j" unfolding at find_upt_eq_None by blast
    then show ?thesis unfolding step None by simp
  next
    case (Some j)
    then have "offer_at request w i j \<and> (\<forall>m < j. \<not> offer_at request w i m)"
      unfolding at find_upt_eq_Some by auto
    then show ?thesis unfolding step Some by simp
  qed
qed

text \<open>The first offer to the client, in the order of the blocks and of their leases.\<close>

definition first_offer :: "dhcp_packet \<Rightarrow> world \<Rightarrow> nat \<Rightarrow> (nat \<times> nat) option \<Rightarrow> bool" where
  "first_offer request w n r = (case r of
       None \<Rightarrow> \<forall>i < n. \<forall>j. \<not> offer_at request w i j
     | Some (i, j) \<Rightarrow> i < n \<and> offer_at request w i j \<and> (\<forall>m < j. \<not> offer_at request w i m) \<and>
         (\<forall>k < i. \<forall>m. \<not> offer_at request w k m))"

lemma find_offer_ok:
  assumes inv: "wf_state w" and wf: "wf_dhcp_header request"
  shows "ok (find_offer request w) (first_offer request w (num_blocks w))"
  unfolding find_offer_def
proof (rule foldM_upt_ok [where I = "first_offer request w"])
  show "first_offer request w 0 None" by (simp add: first_offer_def)
next
  fix i r
  assume i: "i < num_blocks w" and r: "first_offer request w i r"
  show "ok (offer_step request w i r) (first_offer request w (Suc i))"
  proof (cases r)
    case None
    show ?thesis
      unfolding None
      by (rule ok_mono [OF offer_step_ok [OF inv wf i]])
        (use r None in \<open>auto simp: first_offer_def less_Suc_eq split: option.splits\<close>)
  next
    case (Some p)
    then show ?thesis
      using r by (auto simp: offer_step_def first_offer_def split: prod.splits)
  qed
qed

subsection \<open>The policy\<close>

datatype decision = Refuse | Ignore | Grant nat nat | Forward nat nat

definition may_have :: "dhcp_packet \<Rightarrow> dhcp_lease \<Rightarrow> bool" where
  "may_have request l \<longleftrightarrow> l_state l = FREE \<or> l_chaddr l = d_chaddr request \<or>
     l_state l = OFFERED \<and> l_xid l = d_xid request"

definition wants :: "dhcp_packet \<Rightarrow> world \<Rightarrow> nat \<Rightarrow> nat \<Rightarrow> bool" where
  "wants request w i j \<longleftrightarrow> i < num_blocks w \<and> j < unat (c_block_size w) \<and>
     requested_address request = Some (Some (lease_address w i j))"

text \<open>
  In the last case of an address the code refuses when it owns a block; its count sees the
  first block only.
\<close>

inductive decides :: "dhcp_packet \<Rightarrow> world \<Rightarrow> decision \<Rightarrow> bool" for request w where
  outside: "requested_address request = Some (Some a) \<Longrightarrow>
    (\<And>i j. i < num_blocks w \<Longrightarrow> j < unat (c_block_size w) \<Longrightarrow> a \<noteq> lease_address w i j) \<Longrightarrow>
    decides request w Refuse"
| foreign: "wants request w i j \<Longrightarrow> b_state (c_blocks w ! i) = DDHCP_CLAIMED \<Longrightarrow>
    decides request w (Forward i j)"
| own_free: "wants request w i j \<Longrightarrow> b_state (c_blocks w ! i) = DDHCP_OURS \<Longrightarrow>
    may_have request (block_leases (c_blocks w ! i) ! j) \<Longrightarrow> decides request w (Grant i j)"
| own_taken: "wants request w i j \<Longrightarrow> b_state (c_blocks w ! i) = DDHCP_OURS \<Longrightarrow>
    \<not> may_have request (block_leases (c_blocks w ! i) ! j) \<Longrightarrow> decides request w Refuse"
| unowned: "wants request w i j \<Longrightarrow>
    b_state (c_blocks w ! i) \<noteq> DDHCP_CLAIMED \<Longrightarrow> b_state (c_blocks w ! i) \<noteq> DDHCP_OURS \<Longrightarrow>
    decides request w (if b_state (c_blocks w ! 0) = DDHCP_OURS then Refuse else Ignore)"
| offer: "requested_address request = Some None \<Longrightarrow>
    first_offer request w (num_blocks w) (Some (i, j)) \<Longrightarrow> decides request w (Grant i j)"
| no_offer: "requested_address request = Some None \<Longrightarrow>
    first_offer request w (num_blocks w) None \<Longrightarrow> decides request w Refuse"

definition grants :: "dhcp_packet \<Rightarrow> nat \<Rightarrow> nat \<Rightarrow> world \<Rightarrow> int \<Rightarrow> world \<Rightarrow> bool" where
  "grants request i j w r w' \<longleftrightarrow> c_dhcp_packet_cache w' = c_dhcp_packet_cache w \<and> same_claims w w' \<and>
     (r = 1 \<and> \<not> reliable w \<and> quiet w w' \<and> w_out w' = w_out w \<or>
      evolves (lease_rel i j (granted request)) w w' \<and>
      told DHCPACK True request (lease_address w i j)
        (lease_hooks w (lease_address w i j) (d_chaddr request)) w r w')"

fun performs :: "dhcp_packet \<Rightarrow> decision \<Rightarrow> world \<Rightarrow> int \<Rightarrow> world \<Rightarrow> bool" where
  "performs request Refuse w r w' \<longleftrightarrow> r = 2 \<and> refused request w w'"
| "performs request Ignore w r w' \<longleftrightarrow> r = 2 \<and> quiet w w' \<and> w_out w' = w_out w"
| "performs request (Grant i j) w r w' \<longleftrightarrow> grants request i j w r w'"
| "performs request (Forward i j) w r w' \<longleftrightarrow> forwarded request (lease_address w i j) i j w r w'"

subsection \<open>A reading of the clock changes nothing\<close>

lemma time_cong [simp]:
  "env_change (w\<lparr>w_times := ts\<rparr>) w' = env_change w w'" "quiet (w\<lparr>w_times := ts\<rparr>) w' = quiet w w'"
  "same_claims (w\<lparr>w_times := ts\<rparr>) w' = same_claims w w'" "evolves P (w\<lparr>w_times := ts\<rparr>) w' = evolves P w w'"
  "lease_address (w\<lparr>w_times := ts\<rparr>) i j = lease_address w i j"
  "lease_hooks (w\<lparr>w_times := ts\<rparr>) = lease_hooks w"
  "renew_packet request a (w\<lparr>w_times := ts\<rparr>) = renew_packet request a w"
  "offer_at request (w\<lparr>w_times := ts\<rparr>) = offer_at request w"
  by (simp_all add: env_change_def same_params_def quiet_def same_claims_def evolves_def keeps_def
      lease_address_def block_subnet_def lease_hooks_def renew_packet_def offer_at_def fun_eq_iff)

lemma find_lease_time: "find_lease_from_address a (w\<lparr>w_times := ts\<rparr>) = find_lease_from_address a w"
  by (simp add: find_lease_from_address_def get_block_def cong: if_cong)

lemma performs_time [simp]: "performs request d (w\<lparr>w_times := ts\<rparr>) r w' = performs request d w r w'"
  by (cases d) (simp_all add: refused_def nak_sent_def grants_def told_def answer_sent_def forwarded_def
      stored_def renew_sent_def)

lemma grants_time: "grants request i j (w\<lparr>w_times := ts\<rparr>) r w' = grants request i j w r w'"
  using performs_time [where d = "Grant i j"] by (simp only: performs.simps)

lemma first_offer_time [simp]: "first_offer request (w\<lparr>w_times := ts\<rparr>) = first_offer request w"
  by (simp add: first_offer_def fun_eq_iff split: option.splits)

subsection \<open>The handler refines the policy\<close>

lemma decided:
  assumes "decides request w d" "ok m (\<lambda>(r, w'). performs request d w r w')"
  shows "ok m (\<lambda>(r, w'). \<exists>d. decides request w d \<and> performs request d w r w')"
  by (rule ok_mono [OF assms(2)]) (use assms(1) in auto)

lemma refuse_ok:
  assumes "wf_dhcp_header request"
  shows "ok (do { (_, w') \<leftarrow> dhcp_nack request w; Some (2, w') }) (\<lambda>(r, w'). performs request Refuse w r w')"
proof -
  obtain r u where "dhcp_nack request w = Some (r, u)" "refused request w u"
    using dhcp_nack_ok [OF assms, of w] by (auto simp: ok_iff)
  then show ?thesis by simp
qed

lemma memcmp_chaddr:
  assumes "wf_lease l" "wf_dhcp_header request"
  shows "memcmp (d_chaddr request) (l_chaddr l) = 0 \<longleftrightarrow> l_chaddr l = d_chaddr request"
  using assms memcmp_eq_0 [of "d_chaddr request" "l_chaddr l"] by (auto simp: wf_lease_def wf_dhcp_header_def)

lemma dhcp_ack_grants:
  assumes "wf_state w" "i < num_blocks w" "b_state (c_blocks w ! i) = DDHCP_OURS"
    "j < unat (c_block_size w)" "wf_dhcp_packet request"
  shows "ok (dhcp_ack request i (of_nat j) w) (\<lambda>(r, w'). grants request i j w r w')"
proof -
  obtain ls where "b_addresses (c_blocks w ! i) = Some ls" "length ls = unat (c_block_size w)"
    using inv_ours [OF assms(1-3)] by blast
  then show ?thesis
    using dhcp_ack_ok [OF assms(1,2), of ls j request] assms(4,5) unfolding grants_def by simp
qed

text \<open>A request for an address of the network.\<close>

definition request_at :: "dhcp_packet \<Rightarrow> in_addr \<Rightarrow> int \<Rightarrow> nat \<Rightarrow> nat \<Rightarrow> world \<Rightarrow> (int \<times> world) option" where
  "request_at request a now i j w = do {
     b \<leftarrow> get_block i w;
     if b_state b = DDHCP_CLAIMED then forward_request request a now i (of_nat j) w
     else if b_state b = DDHCP_OURS then do {
       l \<leftarrow> get_lease i (unat (of_nat j :: u32)) w;
       if (l_state l \<noteq> OFFERED \<or> l_xid l \<noteq> d_xid request)
         \<and> memcmp (d_chaddr request) (l_chaddr l) \<noteq> 0 \<and> l_state l \<noteq> FREE
       then do { (_, w) \<leftarrow> dhcp_nack request w; Some (2, w) }
       else dhcp_ack request i (of_nat j) w }
     else do {
       n \<leftarrow> block_num_owned w;
       w \<leftarrow> (if n > 0 then do { (_, w) \<leftarrow> dhcp_nack request w; Some w } else Some w);
       Some (2, w) } }"

lemma request_at_ok:
  assumes inv: "wf_state w" and wf: "wf_dhcp_packet request" and want: "wants request w i j"
    and mem: "b_state (c_blocks w ! i) = DDHCP_CLAIMED \<Longrightarrow> \<not> no_memory w i"
  shows "ok (request_at request (lease_address w i j) now i j w)
    (\<lambda>(r, w'). \<exists>d. decides request w d \<and> performs request d w r w')"
proof -
  have hd: "wf_dhcp_header request" using wf by (simp add: wf_dhcp_packet_def)
  have i: "i < num_blocks w" and j: "j < unat (c_block_size w)" using want by (simp_all add: wants_def)
  have il: "i < length (c_blocks w)" using inv i by (simp add: inv_length)
  have ju: "unat (of_nat j :: u32) = j"
    using j unat_u8_less [of "c_block_size w"] by (intro of_nat_inverse) simp_all
  consider (claimed) "b_state (c_blocks w ! i) = DDHCP_CLAIMED" | (own) "b_state (c_blocks w ! i) = DDHCP_OURS"
    | (other) "b_state (c_blocks w ! i) \<noteq> DDHCP_CLAIMED" "b_state (c_blocks w ! i) \<noteq> DDHCP_OURS" by blast
  then show ?thesis
  proof cases
    case claimed
    have "ok (forward_request request (lease_address w i j) now i (of_nat j) w)
        (\<lambda>(r, w'). performs request (Forward i j) w r w')"
      using forward_request_ok [OF inv i claimed j wf mem [OF claimed]] by simp
    then have "ok (request_at request (lease_address w i j) now i j w)
        (\<lambda>(r, w'). performs request (Forward i j) w r w')"
      using claimed il by (simp add: request_at_def)
    with foreign [OF want claimed] show ?thesis by (rule decided)
  next
    case own
    obtain ls where ls: "b_addresses (c_blocks w ! i) = Some ls" "length ls = unat (c_block_size w)"
      "\<forall>l \<in> set ls. wf_lease l"
      using inv_ours [OF inv i own] by blast
    then have jl: "j < length ls" and wl: "wf_lease (ls ! j)" using j by simp_all
    have l: "get_lease i j w = Some (ls ! j)" by (rule lease_access(1) [OF inv i ls(1) jl])
    have may: "may_have request (ls ! j) \<longleftrightarrow> \<not> ((l_state (ls ! j) \<noteq> OFFERED \<or> l_xid (ls ! j) \<noteq> d_xid request)
        \<and> memcmp (d_chaddr request) (l_chaddr (ls ! j)) \<noteq> 0 \<and> l_state (ls ! j) \<noteq> FREE)"
      using memcmp_chaddr [OF wl hd] by (auto simp: may_have_def)
    show ?thesis
    proof (cases "may_have request (ls ! j)")
      case True
      have "ok (request_at request (lease_address w i j) now i j w)
          (\<lambda>(r, w'). performs request (Grant i j) w r w')"
        using own il l ju True may dhcp_ack_grants [OF inv i own j wf] by (auto simp: request_at_def)
      moreover have "decides request w (Grant i j)" using True ls(1) by (intro own_free [OF want own]) simp
      ultimately show ?thesis by (intro decided)
    next
      case False
      have "ok (request_at request (lease_address w i j) now i j w)
          (\<lambda>(r, w'). performs request Refuse w r w')"
        using own il l ju False may refuse_ok [OF hd, of w] by (simp add: request_at_def)
      moreover have "decides request w Refuse" using False ls(1) by (intro own_taken [OF want own]) simp
      ultimately show ?thesis by (intro decided)
    qed
  next
    case other
    have num: "block_num_owned w = Some (if b_state (c_blocks w ! 0) = DDHCP_OURS then c_number_of_blocks w else 0)"
      using block_num_owned_eq [OF inv] i by simp
    have pos: "0 < c_number_of_blocks w" using i by (simp add: word_less_nat_alt)
    let ?d = "if b_state (c_blocks w ! 0) = DDHCP_OURS then Refuse else Ignore"
    obtain r u where nack: "dhcp_nack request w = Some (r, u)" "refused request w u"
      using dhcp_nack_ok [OF hd, of w] by (auto simp: ok_iff)
    have "ok (request_at request (lease_address w i j) now i j w) (\<lambda>(r, w'). performs request ?d w r w')"
      using other il num pos nack by (simp add: request_at_def)
    with unowned [OF want other] show ?thesis by (rule decided)
  qed
qed

lemma dhcp_hdl_request_eq:
  assumes "wf_state w" "requested_address request = Some (Some (lease_address w i j))"
    "i < num_blocks w" "j < unat (c_block_size w)"
  shows "dhcp_hdl_request request w =
    request_at request (lease_address w i j) (shd (w_times w)) i j (w\<lparr>w_times := stl (w_times w)\<rparr>)"
proof -
  let ?w = "w\<lparr>w_times := stl (w_times w)\<rparr>"
  have "find_lease_from_address (lease_address w i j) ?w =
      Some (if b_state (c_blocks w ! i) = DDHCP_OURS then 0 else 1, Some i, of_nat j)"
    using find_lease_of_lease_address [of ?w i j] assms by simp
  then show ?thesis
    using assms(2) by (simp add: dhcp_hdl_request_def request_at_def time_null_def)
qed

lemma decides_time [simp]: "decides request (w\<lparr>w_times := ts\<rparr>) d = decides request w d"
  by (simp add: decides.simps wants_def)

text \<open>
  The two ways to undefined behaviour: a requested address of which fewer than four bytes
  may be read, and a request for a lease of another node when its array cannot be allocated.
\<close>

definition out_of_memory :: "dhcp_packet \<Rightarrow> world \<Rightarrow> bool" where
  "out_of_memory request w \<longleftrightarrow>
     (\<exists>i j. wants request w i j \<and> b_state (c_blocks w ! i) = DDHCP_CLAIMED \<and> no_memory w i)"

lemma requested_address_length:
  assumes "requested_address request = Some (Some x)" "wf_dhcp_header request"
  shows "length x = 4"
  using assms
  by (auto simp: requested_address_def bind_eq_Some_conv wf_dhcp_header_def take_opt_def split: option.splits if_splits)

lemma addressable_requested: "wf_dhcp_packet request \<Longrightarrow> addressable request \<Longrightarrow> requested_address request \<noteq> None"
  using requested_address_ok by blast

lemma dhcp_hdl_request_defined:
  assumes inv: "wf_state w" and wf: "wf_dhcp_packet request" and ad: "requested_address request \<noteq> None"
    and mem: "\<not> out_of_memory request w"
  shows "ok (dhcp_hdl_request request w) (\<lambda>(r, w'). \<exists>d. decides request w d \<and> performs request d w r w')"
proof -
  let ?w = "w\<lparr>w_times := stl (w_times w)\<rparr>"
  have hd: "wf_dhcp_header request" using wf by (simp add: wf_dhcp_packet_def)
  have inv1: "wf_state ?w" using inv by simp
  obtain a where a: "requested_address request = Some a" "\<And>x. a = Some x \<Longrightarrow> length x = 4"
    using ad requested_address_length [OF _ hd] by auto
  show ?thesis
  proof (cases a)
    case None
    obtain r where r: "find_offer request ?w = Some r" "first_offer request w (num_blocks w) r"
      using find_offer_ok [OF inv1 hd] by (auto simp: ok_iff)
    show ?thesis
    proof (cases r)
      case none: None
      have "ok (dhcp_hdl_request request w) (\<lambda>(r, w'). performs request Refuse w r w')"
        using a(1) None r(1) none refuse_ok [OF hd, of ?w] by (simp add: dhcp_hdl_request_def time_null_def)
      moreover have "decides request w Refuse" using a(1) None r(2) none by (auto intro: no_offer)
      ultimately show ?thesis by (intro decided)
    next
      case (Some ij)
      then obtain i j where ij: "r = Some (i, j)" by (cases ij) simp
      then have at: "offer_at request w i j" using r(2) by (simp add: first_offer_def)
      have "ok (dhcp_ack request i (of_nat j) ?w) (\<lambda>(r, w'). grants request i j ?w r w')"
        using at inv1 wf by (intro dhcp_ack_grants) (simp_all add: offer_at_def)
      then have "ok (dhcp_hdl_request request w) (\<lambda>(r, w'). performs request (Grant i j) w r w')"
        using a(1) None r(1) ij
        by (simp add: dhcp_hdl_request_def time_null_def grants_time)
      moreover have "decides request w (Grant i j)" using a(1) None r(2) ij by (intro offer) simp_all
      ultimately show ?thesis by (intro decided)
    qed
  next
    case (Some x)
    from inv a(2) [OF Some] show ?thesis
    proof (cases rule: find_lease_cases)
      case outside
      have "find_lease_from_address x ?w = Some (2, None, 0)"
        using outside(1) by (simp only: find_lease_time)
      then have "ok (dhcp_hdl_request request w) (\<lambda>(r, w'). performs request Refuse w r w')"
        using a(1) Some refuse_ok [OF hd, of ?w] by (simp add: dhcp_hdl_request_def time_null_def)
      moreover have "decides request w Refuse"
        using a(1) Some outside(2) by (intro decides.outside) auto
      ultimately show ?thesis by (intro decided)
    next
      case (inside i j)
      then have want: "wants request ?w i j" using a(1) Some by (simp add: wants_def)
      then have "b_state (c_blocks ?w ! i) = DDHCP_CLAIMED \<Longrightarrow> \<not> no_memory ?w i"
        using mem by (auto simp: out_of_memory_def no_memory_def wants_def)
      from request_at_ok [OF inv1 wf want this, of "shd (w_times w)"] show ?thesis
        using inside dhcp_hdl_request_eq [OF inv _ inside(1,2)] a(1) Some by simp
    qed
  qed
qed

lemma dhcp_hdl_request_ok:
  assumes inv: "wf_state w" and wf: "wf_dhcp_packet request" and ad: "addressable request"
    and mem: "shd (w_allocs w)"
  shows "ok (dhcp_hdl_request request w) (\<lambda>(r, w'). \<exists>d. decides request w d \<and> performs request d w r w')"
proof (rule dhcp_hdl_request_defined [OF inv wf])
  show "requested_address request \<noteq> None" using wf ad by (rule addressable_requested)
  show "\<not> out_of_memory request w" using mem by (simp add: out_of_memory_def no_memory_def)
qed

text \<open>There are no others.\<close>

lemma dhcp_hdl_request_stuck:
  assumes inv: "wf_state w" and wf: "wf_dhcp_packet request"
    and bad: "requested_address request = None \<or> out_of_memory request w"
  shows "dhcp_hdl_request request w = None"
  using bad
proof
  assume "requested_address request = None"
  then show ?thesis by (simp add: dhcp_hdl_request_def time_null_def)
next
  assume "out_of_memory request w"
  then obtain i j where h: "wants request w i j" "b_state (c_blocks w ! i) = DDHCP_CLAIMED" "no_memory w i"
    by (auto simp: out_of_memory_def)
  let ?w = "w\<lparr>w_times := stl (w_times w)\<rparr>"
  have hd: "wf_dhcp_header request" using wf by (simp add: wf_dhcp_packet_def)
  have i: "i < num_blocks w" "j < unat (c_block_size w)" "requested_address request = Some (Some (lease_address w i j))"
    using h(1) by (simp_all add: wants_def)
  have il: "i < length (c_blocks w)" using inv i(1) by (simp add: inv_length)
  have stuck: "forward_request request a now i k ?w = None" for a now k
    by (rule forward_request_stuck) (use inv i(1) hd h(3) in \<open>simp_all add: no_memory_def\<close>)
  show ?thesis
    using h(2) il by (simp add: dhcp_hdl_request_eq [OF inv i(3,1,2)] request_at_def stuck)
qed

lemma dhcp_hdl_request_None:
  assumes "wf_state w" "wf_dhcp_packet request"
  shows "dhcp_hdl_request request w = None \<longleftrightarrow> requested_address request = None \<or> out_of_memory request w"
  using dhcp_hdl_request_stuck [OF assms] dhcp_hdl_request_defined [OF assms] ok_not_None by blast

text \<open>
  The policy is deterministic, and it protects the client that holds a lease: whatever the
  handler does for another client, a lease of an owned block that is \<open>LEASED\<close> stays as it is.
\<close>

lemma wants_unique:
  assumes "wf_state w" "wants request w i j" "wants request w i' j'"
  shows "i = i' \<and> j = j'"
  using assms lease_address_inj [OF assms(1), of i j i' j'] by (simp add: wants_def)

lemma first_offer_unique:
  assumes "first_offer request w n r" "first_offer request w n r'"
  shows "r = r'"
proof -
  have lt: "\<not> (i < i' \<or> i = i' \<and> j < j')"
    if "first_offer request w n (Some (i, j))" "first_offer request w n (Some (i', j'))" for i j i' j'
    using that by (auto simp: first_offer_def)
  show ?thesis
  proof (cases r)
    case None
    with assms show ?thesis by (cases r') (auto simp: first_offer_def)
  next
    case (Some p)
    then obtain i j where r: "r = Some (i, j)" by (cases p) simp
    then obtain i' j' where r': "r' = Some (i', j')"
      using assms by (cases r') (auto simp: first_offer_def)
    show ?thesis using lt [of i j i' j'] lt [of i' j' i j] assms r r' by auto
  qed
qed

text \<open>Two addresses of a request are one, and a request with an address looks for no offer.\<close>

lemma wants_address: "wants request w i j \<Longrightarrow> requested_address request = Some (Some (lease_address w i j))"
  by (simp add: wants_def)

lemma decides_wants:
  assumes inv: "wf_state w" and "wants request w i j" "decides request w d"
  shows "d = (if b_state (c_blocks w ! i) = DDHCP_CLAIMED then Forward i j
    else if b_state (c_blocks w ! i) = DDHCP_OURS then
      (if may_have request (block_leases (c_blocks w ! i) ! j) then Grant i j else Refuse)
    else if b_state (c_blocks w ! 0) = DDHCP_OURS then Refuse else Ignore)"
proof -
  have same: "k = i \<and> m = j" if "wants request w k m" for k m
    using wants_unique [OF inv assms(2) that] by simp
  have addr: "requested_address request = Some (Some (lease_address w i j))"
    "i < num_blocks w" "j < unat (c_block_size w)"
    using assms(2) by (simp_all add: wants_def)
  from assms(3) show ?thesis
  proof cases
    case (outside a)
    with addr show ?thesis by auto
  next
    case (foreign k m)
    with same [of k m] show ?thesis by simp
  next
    case (own_free k m)
    with same [of k m] show ?thesis by simp
  next
    case (own_taken k m)
    with same [of k m] show ?thesis by simp
  next
    case (unowned k m)
    with same [of k m] show ?thesis by simp
  qed (use addr in simp_all)
qed

lemma decides_unique:
  assumes inv: "wf_state w" and d: "decides request w d" "decides request w d'"
  shows "d = d'"
proof (cases "\<exists>i j. wants request w i j")
  case True
  then obtain i j where "wants request w i j" by blast
  then show ?thesis using decides_wants [OF inv _ d(1)] decides_wants [OF inv _ d(2)] by simp
next
  case False
  show ?thesis
  proof (cases "requested_address request = Some None")
    case True
    have offer: "\<exists>r. first_offer request w (num_blocks w) r \<and>
        e = (case r of None \<Rightarrow> Refuse | Some (i, j) \<Rightarrow> Grant i j)" if "decides request w e" for e
      using that by cases (use False True in \<open>force simp: wants_def\<close>)+
    show ?thesis using offer [OF d(1)] offer [OF d(2)] first_offer_unique by metis
  next
    case address: False
    have "e = Refuse" if "decides request w e" for e
      using that by cases (use False address in simp_all)
    then show ?thesis using d by metis
  qed
qed

text \<open>A lease of an owned block that a client holds.\<close>

definition holds :: "world \<Rightarrow> u8 list \<Rightarrow> nat \<Rightarrow> nat \<Rightarrow> bool" where
  "holds w chaddr i j \<longleftrightarrow> i < num_blocks w \<and> j < unat (c_block_size w) \<and>
     b_state (c_blocks w ! i) = DDHCP_OURS \<and>
     l_state (block_leases (c_blocks w ! i) ! j) = LEASED \<and>
     l_chaddr (block_leases (c_blocks w ! i) ! j) = chaddr"

lemma quiet_same: "quiet w w' \<Longrightarrow> i < num_blocks w \<Longrightarrow> c_blocks w' ! i = c_blocks w ! i"
  by (simp add: quiet_def env_change_def)

lemma decides_other:
  assumes inv: "wf_state w" and "holds w chaddr i j" "chaddr \<noteq> d_chaddr request" "decides request w d"
  shows "d \<noteq> Grant i j" "\<And>m. d \<noteq> Forward i m"
  using assms(4) assms(2,3)
  by (cases; auto simp: holds_def may_have_def first_offer_def offer_at_def offered_lease_def)+

lemma performs_other:
  assumes "holds w chaddr i j" "performs request d w r w'" "d \<noteq> Grant i j" "\<And>m. d \<noteq> Forward i m"
  shows "block_leases (c_blocks w' ! i) ! j = block_leases (c_blocks w ! i) ! j \<and>
    b_state (c_blocks w' ! i) = DDHCP_OURS"
proof (cases d)
  case Refuse
  then show ?thesis using assms quiet_same [of w w' i] by (simp add: refused_def holds_def)
next
  case Ignore
  then show ?thesis using assms quiet_same [of w w' i] by (simp add: holds_def)
next
  case (Grant k m)
  have i: "i < num_blocks w" "b_state (c_blocks w ! i) = DDHCP_OURS" using assms(1) by (simp_all add: holds_def)
  from Grant assms(2) consider "quiet w w'" | "evolves (lease_rel k m (granted request)) w w'"
    by (auto simp: grants_def)
  then show ?thesis
  proof cases
    case 1
    then show ?thesis using i quiet_same by simp
  next
    case 2
    then have "lease_rel k m (granted request) i (c_blocks w ! i) (c_blocks w' ! i)"
      using i(1) by (rule evolvesD)
    then show ?thesis
      using i Grant assms(3) by (auto simp: lease_rel_def block_leases_def split: if_splits)
  qed
next
  case (Forward k m)
  have i: "i < num_blocks w" "b_state (c_blocks w ! i) = DDHCP_OURS" using assms(1) by (simp_all add: holds_def)
  have "evolves (forward_rel request (c_block_size w) k m) w w'"
    using Forward assms(2) by (simp add: forwarded_def)
  then have "forward_rel request (c_block_size w) k m i (c_blocks w ! i) (c_blocks w' ! i)"
    using i(1) by (rule evolvesD)
  then show ?thesis using i Forward assms(4) by (auto simp: forward_rel_def split: if_splits)
qed

lemma request_keeps_leases:
  assumes inv: "wf_state w" and wf: "wf_dhcp_packet request" and ad: "addressable request"
    and mem: "shd (w_allocs w)" and held: "holds w chaddr i j" "chaddr \<noteq> d_chaddr request"
  shows "ok (dhcp_hdl_request request w) (\<lambda>(r, w').
    block_leases (c_blocks w' ! i) ! j = block_leases (c_blocks w ! i) ! j \<and>
    b_state (c_blocks w' ! i) = DDHCP_OURS)"
  by (rule ok_mono [OF dhcp_hdl_request_ok [OF inv wf ad mem]])
    (use decides_other [OF inv held] performs_other [OF held(1)] in \<open>fastforce split: prod.splits\<close>)

end
