(* ===== verification/Dhcp_Serve.thy ===== *)
theory Dhcp_Serve
  imports Dhcp_Decide
begin

text \<open>
  \<open>dhcp_process\<close>: whatever a client sends, the datagram is rejected or becomes a packet
  whose fields may be read, the handler of its message type serves it, and no client
  touches a lease another client holds.
\<close>

subsection \<open>What is accepted may be read\<close>

lemma walk_payload:
  assumes "walk buffer len p os" "len \<le> length buffer" "x \<in> set os" "plain_code (o_code x)"
  shows "unat (o_len x) + (length buffer - len) \<le> length (o_payload x)"
  using assms by (induction p os rule: walk.induct) (auto simp: plain_code_def)

lemma walk_readable: "walk buffer len p os \<Longrightarrow> len \<le> length buffer \<Longrightarrow> x \<in> set os \<Longrightarrow> readable x"
  by (induction p os rule: walk.induct) (auto simp: readable_def)

lemma slice_length: "slice buffer off n = Some xs \<Longrightarrow> length xs = n"
  by (auto simp: slice_def take_opt_def split: if_splits)

lemma accepted_wf:
  assumes "ntoh_dhcp_packet buffer len w = Some (Inr p, w')" "len \<le> int (length buffer)"
  obtains os where "wf_dhcp_packet p" "w' = w\<lparr>w_allocs := stl (w_allocs w)\<rparr>"
    "set (d_options p) \<subseteq> insert zero_option (set os)"
    "walk buffer (nat len) 240 os" "nat len \<le> length buffer" "240 \<le> len"
proof -
  obtain os h where os: "walk buffer (nat len) 240 os" "240 \<le> len" "w' = w\<lparr>w_allocs := stl (w_allocs w)\<rparr>"
    "ntoh_dhcp_header buffer = Some h" "p = h\<lparr>d_options_len := of_nat (length (unpadded os)), d_options := option_array os\<rparr>"
    using ntoh_dhcp_packet_accepts [OF assms(1)] by blast
  have len: "nat len \<le> length buffer" using assms(2) os(2) by linarith
  have sub: "length (option_array os) = length (unpadded os)" "set (option_array os) \<subseteq> insert zero_option (set os)"
    using stored_at_array [of 0 os "replicate (length (unpadded os)) zero_option"]
    by (auto simp: option_array_def)
  have n: "unat (of_nat (length (unpadded os)) :: u8) \<le> length (unpadded os)" by (simp add: unat_of_nat)
  have h: "wf_dhcp_header p"
    using os(4) by (auto simp: os(5) ntoh_dhcp_header_def wf_dhcp_header_def bind_eq_Some_conv dest!: slice_length)
  have "readable x" if "x \<in> set (d_options p)" for x
    using that sub(2) walk_readable [OF os(1) len] by (auto simp: os(5) readable_def zero_option_def)
  then have "wf_dhcp_packet p"
    using h n sub(1) by (auto simp: wf_dhcp_packet_def os(5) dest: in_set_takeD)
  moreover have "set (d_options p) \<subseteq> insert zero_option (set os)" using sub(2) by (simp add: os(5))
  ultimately show thesis using os len by (intro that) simp_all
qed

text \<open>
  A receive buffer with four bytes behind the message: then the four bytes of a requested
  address may be read whatever length its option has.
\<close>

lemma accepted_packet:
  assumes "ntoh_dhcp_packet buffer len w = Some (Inr p, w')" "len + 4 \<le> int (length buffer)"
  shows "wf_dhcp_packet p" "addressable p" "\<exists>t. dhcp_packet_message_type p = Some t"
    "w' = w\<lparr>w_allocs := stl (w_allocs w)\<rparr>"
proof -
  have "len \<le> int (length buffer)" using assms(2) by simp
  from accepted_wf [OF assms(1) this] obtain os where os: "wf_dhcp_packet p"
    "w' = w\<lparr>w_allocs := stl (w_allocs w)\<rparr>" "set (d_options p) \<subseteq> insert zero_option (set os)"
    "walk buffer (nat len) 240 os" "nat len \<le> length buffer" "240 \<le> len" .
  show "wf_dhcp_packet p" "w' = w\<lparr>w_allocs := stl (w_allocs w)\<rparr>" by (rule os(1,2))+
  have len: "nat len + 4 \<le> length buffer" using assms(2) os(6) by linarith
  have pl: "4 \<le> length (o_payload x)" if "x \<in> set (d_options p)" "plain_code (o_code x)" for x
  proof -
    have "x \<in> set os" using that os(3) by (auto simp: zero_option_def plain_code_def DHCP_CODE_PAD_def)
    from walk_payload [OF os(4,5) this that(2)] len show ?thesis by linarith
  qed
  show "addressable p"
    using pl by (auto simp: addressable_def sent_options_def plain_code_def dhcp_codes dest!: in_set_takeD)
  let ?P = "\<lambda>x. o_code x = DHCP_CODE_MESSAGE_TYPE" and ?n = "unat (d_options_len p)"
  have n: "?n \<le> length (d_options p)" using os(1) by (simp add: wf_dhcp_packet_def)
  then have f: "find_idx ?P (d_options p) [0..<?n] = Some (find (\<lambda>i. ?P (d_options p ! i)) [0..<?n])"
    by (intro find_idx_find) simp
  show "\<exists>t. dhcp_packet_message_type p = Some t"
  proof (cases "find (\<lambda>i. ?P (d_options p ! i)) [0..<?n]")
    case None
    then show ?thesis using f by (simp add: dhcp_packet_message_type_def)
  next
    case (Some i)
    then have i: "i < ?n" "?P (d_options p ! i)" by (auto simp: find_upt_eq_Some)
    then have "d_options p ! i \<in> set (d_options p)" using n by simp
    then have "4 \<le> length (o_payload (d_options p ! i))" using i(2) by (intro pl) (auto simp: plain_code_def dhcp_codes)
    then have "0 < length (o_payload (d_options p ! i))" by linarith
    then show ?thesis using f Some by (simp add: dhcp_packet_message_type_def)
  qed
qed

subsection \<open>A client spares the leases of the others\<close>

definition spares :: "u8 list \<Rightarrow> world \<Rightarrow> world \<Rightarrow> bool" where
  "spares chaddr w w' \<longleftrightarrow> keeps w w' \<and> same_claims w w' \<and>
     (\<forall>i < num_blocks w. b_state (c_blocks w' ! i) = b_state (c_blocks w ! i)) \<and>
     (\<forall>c i j. c \<noteq> chaddr \<longrightarrow> holds w c i j \<longrightarrow>
        block_leases (c_blocks w' ! i) ! j = block_leases (c_blocks w ! i) ! j)"

lemma spares_quiet: "wf_state w \<Longrightarrow> quiet w w' \<Longrightarrow> spares chaddr w w'"
  using env_change_inv [of w w'] env_change_claims [of w w']
  by (auto simp: spares_def quiet_def keeps_def env_change_def)

lemma spares_env: "env_change w v \<Longrightarrow> spares chaddr v w' \<Longrightarrow> spares chaddr w w'"
  using env_change_claims [of w v] same_claims_trans [of w v w']
  by (auto simp: spares_def env_change_def keeps_def same_params_def holds_def)

lemma spares_lease:
  assumes ev: "evolves (lease_rel i j Q) w w'" and sc: "same_claims w w'"
    and q: "\<And>l' c. Q (block_leases (c_blocks w ! i) ! j) l' \<Longrightarrow> c \<noteq> chaddr \<Longrightarrow> \<not> holds w c i j"
  shows "spares chaddr w w'"
  unfolding spares_def
proof (intro conjI allI impI)
  show "keeps w w'" by (rule evolvesD(2) [OF ev])
  show "same_claims w w'" by (rule sc)
  fix k
  assume "k < num_blocks w"
  then show "b_state (c_blocks w' ! k) = b_state (c_blocks w ! k)"
    using evolvesD(5) [OF ev, of k] by (auto simp: lease_rel_def split: if_splits)
next
  fix c k m
  assume c: "c \<noteq> chaddr" and h: "holds w c k m"
  then have k: "k < num_blocks w" by (simp add: holds_def)
  show "block_leases (c_blocks w' ! k) ! m = block_leases (c_blocks w ! k) ! m"
    using evolvesD(5) [OF ev k] q c h
    by (cases "k = i"; cases "m = j") (auto simp: lease_rel_def block_leases_def)
qed

text \<open>The handlers, one by one.\<close>

lemma discover_spares:
  assumes "wf_state w" "wf_dhcp_packet p"
  shows "ok (dhcp_hdl_discover p w) (\<lambda>(r, w'). spares (d_chaddr p) w w')"
proof (rule ok_mono [OF dhcp_hdl_discover_ok [OF assms]], clarify)
  fix r w'
  assume sc: "same_claims w w'" and c: "r = 3 \<and> quiet w w' \<and> w_out w' = w_out w \<and> (\<forall>i < num_blocks w. \<not> has_lease w i) \<or>
     r = 1 \<and> \<not> reliable w \<and> quiet w w' \<and> w_out w' = w_out w \<or> (\<exists>i j. offers p w i j r w')"
  from c consider "quiet w w'" | i j where "offers p w i j r w'" by blast
  then show "spares (d_chaddr p) w w'"
  proof cases
    case (2 i j)
    then have ev: "evolves (lease_rel i j (offered_to p (shd (w_times w)))) w w'" by (simp add: offers_def)
    show ?thesis by (rule spares_lease [OF ev sc]) (auto simp: offered_to_def holds_def)
  qed (rule spares_quiet [OF assms(1)])
qed

lemma performs_spares:
  assumes inv: "wf_state w" and d: "decides p w d" and perf: "performs p d w r w'"
  shows "spares (d_chaddr p) w w'"
proof -
  have other: "d \<noteq> Grant i j" if "c \<noteq> d_chaddr p" "holds w c i j" for c i j
    using decides_other(1) [OF inv that(2,1) d] .
  show "spares (d_chaddr p) w w'"
  proof (cases d)
    case Refuse
    with perf show ?thesis using spares_quiet [OF inv] by (simp add: refused_def)
  next
    case Ignore
    with perf show ?thesis using spares_quiet [OF inv] by simp
  next
    case (Grant i j)
    with perf have sc: "same_claims w w'" and "quiet w w' \<or> evolves (lease_rel i j (granted p)) w w'"
      by (auto simp: grants_def)
    then consider "quiet w w'" | "evolves (lease_rel i j (granted p)) w w'" by blast
    then show ?thesis
    proof cases
      case 2
      show ?thesis by (rule spares_lease [OF 2 sc]) (use other Grant in blast)
    qed (rule spares_quiet [OF inv])
  next
    case (Forward i j)
    with perf have sc: "same_claims w w'" and ev: "evolves (forward_rel p (c_block_size w) i j) w w'"
      by (auto simp: forwarded_def)
    have "b_state (c_blocks w' ! k) = b_state (c_blocks w ! k)" if "k < num_blocks w" for k
      using evolvesD(5) [OF ev that] by (auto simp: forward_rel_def split: if_splits)
    moreover have "c_blocks w' ! k = c_blocks w ! k" if "c \<noteq> d_chaddr p" "holds w c k m" for c k m
      using that decides_other(2) [OF inv that(2,1) d] Forward evolvesD(5) [OF ev, of k]
      by (auto simp: forward_rel_def holds_def split: if_splits)
    ultimately show ?thesis using sc evolvesD(2) [OF ev] by (auto simp: spares_def)
  qed
qed

lemma request_spares:
  assumes inv: "wf_state w" and "wf_dhcp_packet p" "addressable p" "shd (w_allocs w)"
  shows "ok (dhcp_hdl_request p w) (\<lambda>(r, w'). spares (d_chaddr p) w w')"
  by (rule ok_mono [OF dhcp_hdl_request_ok [OF assms]]) (use performs_spares [OF inv] in auto)

lemma release_spares:
  assumes "wf_state w" "wf_dhcp_header p"
  shows "ok (dhcp_hdl_release p w) (spares (d_chaddr p) w)"
proof (rule ok_mono [OF dhcp_hdl_release_ok [OF assms]], elim conjE)
  fix w'
  assume sc: "same_claims w w'" and c: "w' = w \<or> (\<exists>i j. i < num_blocks w \<and> j < unat (c_block_size w) \<and>
       b_state (c_blocks w ! i) = DDHCP_OURS \<and> d_ciaddr p = lease_address w i j \<and>
       evolves (lease_rel i j (released (d_chaddr p))) w w')"
  from c consider "w' = w" | i j where "evolves (lease_rel i j (released (d_chaddr p))) w w'" by blast
  then show "spares (d_chaddr p) w w'"
  proof cases
    case 1
    then show ?thesis using spares_quiet [OF assms(1)] by simp
  next
    case (2 i j)
    show ?thesis by (rule spares_lease [OF 2 sc]) (auto simp: released_def holds_def)
  qed
qed

lemma inform_spares:
  assumes "wf_state w" "wf_dhcp_packet p"
  shows "ok (dhcp_hdl_inform p w) (spares (d_chaddr p) w)"
  by (rule ok_mono [OF dhcp_hdl_inform_ok [OF assms]]) (use spares_quiet [OF assms(1)] in blast)

text \<open>What each message type gets, and the result that asks for house keeping.\<close>

definition discovered :: "dhcp_packet \<Rightarrow> world \<Rightarrow> int \<Rightarrow> world \<Rightarrow> bool" where
  "discovered p w r w' \<longleftrightarrow>
     (r = 3 \<and> quiet w w' \<and> w_out w' = w_out w \<and> (\<forall>i < num_blocks w. \<not> has_lease w i) \<or>
      r = 1 \<and> \<not> reliable w \<and> quiet w w' \<and> w_out w' = w_out w \<or>
      (\<exists>i j. offers p w i j r w'))"

definition informed :: "dhcp_packet \<Rightarrow> world \<Rightarrow> world \<Rightarrow> bool" where
  "informed p w w' \<longleftrightarrow> quiet w w' \<and>
     (answer_sent DHCPACK False p zero_addr [] w w' \<or> \<not> reliable w \<and> w_out w' = w_out w)"

definition served :: "u8 \<Rightarrow> dhcp_packet \<Rightarrow> world \<Rightarrow> int \<Rightarrow> world \<Rightarrow> bool" where
  "served t p w r w' \<longleftrightarrow>
     (if t = DHCPDISCOVER
      then \<exists>s. discovered p (statistics_record STAT_DHCP_RECV_DISCOVER 1 w) s w' \<and> r = (if s = 1 then 1 else 0)
      else r = 0 \<and>
       (if t = DHCPREQUEST then \<exists>s d. decides p w d \<and> performs p d (statistics_record STAT_DHCP_RECV_REQUEST 1 w) s w'
        else if t = DHCPRELEASE then dhcp_hdl_release p (statistics_record STAT_DHCP_RECV_RELEASE 1 w) = Some w'
        else if t = DHCPINFORM then informed p (statistics_record STAT_DHCP_RECV_INFORM 1 w) w'
        else w' = w))"

lemma decides_statistics: "decides p (statistics_record s n w) d = decides p w d"
  by (simp add: decides.simps wants_def statistics_record_def lease_address_def block_subnet_def
      first_offer_def offer_at_def cong: option.case_cong)

lemma dhcp_process_ok:
  assumes inv: "wf_state w" and dec: "ntoh_dhcp_packet buffer len w = Some (ret, v)"
    and len: "len + 4 \<le> int (length buffer)" and rel: "reliable w"
  shows "ok (dhcp_process buffer len w) (\<lambda>(r, w'). case ret of
      Inl _ \<Rightarrow> r = 0 \<and> w' = v
    | Inr p \<Rightarrow> spares (d_chaddr p) w w' \<and> (\<exists>t. dhcp_packet_message_type p = Some t \<and> served t p v r w'))"
proof (cases ret)
  case (Inl e)
  then show ?thesis using dec by (simp add: dhcp_process_def)
next
  case (Inr p)
  note acc = accepted_packet [OF dec [unfolded Inr] len]
  obtain t where t: "dhcp_packet_message_type p = Some t" using acc(3) by blast
  let ?v = "\<lambda>s. statistics_record s 1 v"
  have env: "env_change w (?v s)" for s
    using acc(4) by (simp add: statistics_record_def env_change_def same_params_def)
  note invv = env_change_inv [OF env inv]
  have hd: "wf_dhcp_header p" using acc(1) by (simp add: wf_dhcp_packet_def)
  have mem: "shd (w_allocs (?v s))" for s
    using reliable_now(1) [of "?v s"] rel acc(4) by simp
  have env0: "spares (d_chaddr p) w v"
    using spares_quiet [OF inv] acc(4) by simp
  have d: "ok (dhcp_hdl_discover p (?v s)) (\<lambda>(r, w'). spares (d_chaddr p) w w' \<and> discovered p (?v s) r w')" for s
    by (rule ok_mono [OF ok_conj [OF discover_spares [OF invv acc(1)] dhcp_hdl_discover_ok [OF invv acc(1)]]])
      (auto simp: discovered_def intro: spares_env [OF env])
  have q: "ok (dhcp_hdl_request p (?v s)) (\<lambda>(r, w'). spares (d_chaddr p) w w' \<and>
      (\<exists>d. decides p v d \<and> performs p d (?v s) r w'))" for s
    by (rule ok_mono [OF ok_conj [OF request_spares [OF invv acc(1,2) mem] dhcp_hdl_request_ok [OF invv acc(1,2) mem]]])
      (auto simp: decides_statistics intro: spares_env [OF env])
  have l: "ok (dhcp_hdl_release p (?v s)) (spares (d_chaddr p) w)" for s
    by (rule ok_mono [OF release_spares [OF invv hd]]) (rule spares_env [OF env])
  have i: "ok (dhcp_hdl_inform p (?v s)) (\<lambda>w'. spares (d_chaddr p) w w' \<and> informed p (?v s) w')" for s
    by (rule ok_mono [OF ok_conj [OF inform_spares [OF invv acc(1)] dhcp_hdl_inform_ok [OF invv acc(1)]]])
      (auto simp: informed_def intro: spares_env [OF env])
  have types: "DHCPREQUEST \<noteq> DHCPDISCOVER" "DHCPRELEASE \<noteq> DHCPDISCOVER" "DHCPINFORM \<noteq> DHCPDISCOVER"
    "DHCPRELEASE \<noteq> DHCPREQUEST" "DHCPINFORM \<noteq> DHCPREQUEST" "DHCPINFORM \<noteq> DHCPRELEASE"
    by (simp_all add: dhcp_types)
  consider "t = DHCPDISCOVER" | "t = DHCPREQUEST" | "t = DHCPRELEASE" | "t = DHCPINFORM"
    | "t \<noteq> DHCPDISCOVER" "t \<noteq> DHCPREQUEST" "t \<noteq> DHCPRELEASE" "t \<noteq> DHCPINFORM" by blast
  then show ?thesis
  proof cases
    case 1
    then show ?thesis using dec Inr t d [of STAT_DHCP_RECV_DISCOVER] by (auto simp: dhcp_process_def ok_iff served_def)
  next
    case 2
    then show ?thesis
      using dec Inr t types q [of STAT_DHCP_RECV_REQUEST]
      by (simp add: dhcp_process_def served_def) (elim ok_mono, clarsimp, blast)
  next
    case 3
    then show ?thesis using dec Inr t types l [of STAT_DHCP_RECV_RELEASE] by (auto simp: dhcp_process_def ok_iff served_def)
  next
    case 4
    then show ?thesis using dec Inr t types i [of STAT_DHCP_RECV_INFORM] by (auto simp: dhcp_process_def ok_iff served_def)
  next
    case 5
    then show ?thesis using dec Inr t env0 by (simp add: dhcp_process_def served_def)
  qed
qed

end
