(* ===== verification/Ddhcp.thy ===== *)
theory Ddhcp
  imports Dhcp
begin

text \<open>
  ddhcp.c: the array of blocks at start and shutdown, and the messages of the other nodes.
  The multicast messages claim blocks and inquire about them, the direct messages forward
  requests of clients to the owner of a block and bring back its answer. The assertions on the
  command of a message are not part of the production build and of the model.
\<close>

subsection \<open>The array of blocks\<close>

definition init_block :: "int \<Rightarrow> world \<Rightarrow> nat \<Rightarrow> ddhcp_block" where
  "init_block now w index =
     \<lparr>b_index = of_nat index, b_state = DDHCP_FREE,
      b_subnet = addr_add (c_prefix w) (of_nat index * ucast (c_block_size w)),
      b_subnet_len = c_block_size w, b_claiming_counts = 0, b_node_id = zero_node_id,
      b_owner_address = replicate 16 0, b_first_claimed = 0, b_needless_since = 0,
      b_timeout = now + uint (c_block_timeout w), b_addresses = None\<rparr>"

definition ddhcp_block_init :: "world \<Rightarrow> int \<times> world" where
  "ddhcp_block_init w =
     (if c_number_of_blocks w < 1 then (1, w)
      else let (mem, w) = calloc w in
        if \<not> mem then (1, w\<lparr>c_blocks := []\<rparr>)
        else let (now, w) = time_null w
          in (0, w\<lparr>c_blocks := map (init_block now w) [0..<num_blocks w]\<rparr>))"

definition ddhcp_block_free :: "world \<Rightarrow> world option" where
  "ddhcp_block_free w = do {
     w \<leftarrow> foldM block_free [0..<num_blocks w] w;
     let w = block_free_claims w;
     Some (w\<lparr>c_blocks := []\<rparr>) }"

subsection \<open>Messages about blocks\<close>

definition ddhcp_check_packet :: "ddhcp_mcast_packet \<Rightarrow> world \<Rightarrow> int" where
  "ddhcp_check_packet packet w =
     (if memcmp (m_prefix packet) (c_prefix w) \<noteq> 0 \<or> m_prefix_len packet \<noteq> c_prefix_len w
       \<or> m_blocksize packet \<noteq> c_block_size w then 1 else 0)"

definition payload_list :: "ddhcp_mcast_packet \<Rightarrow> ddhcp_payload list" where
  "payload_list packet = (case m_body packet of Payload ps \<Rightarrow> ps | _ \<Rightarrow> [])"

text \<open>One claim of another node.\<close>

definition process_claim ::
  "ddhcp_mcast_packet \<Rightarrow> in6_addr \<Rightarrow> int \<Rightarrow> nat \<Rightarrow> world \<Rightarrow> world option" where
  "process_claim packet sender now i w = do {
     claim \<leftarrow> nth_opt (payload_list packet) i;
     if y_block_index claim \<ge> c_number_of_blocks w then Some w
     else do {
       let k = unat (y_block_index claim);
       b \<leftarrow> get_block k w;
       if b_state b = DDHCP_OURS \<and> memcmp (m_node_id packet) (c_node_id w) < 0 then
         block_update_claims (put_block k (b\<lparr>b_timeout := 0\<rparr>) w)
       else
         Some (put_block k (b\<lparr>b_state := DDHCP_CLAIMED, b_timeout := now + uint (y_timeout claim),
           b_owner_address := sender, b_node_id := m_node_id packet\<rparr>) w) } }"

definition ddhcp_block_process_claims :: "ddhcp_mcast_packet \<Rightarrow> in6_addr \<Rightarrow> world \<Rightarrow> world option" where
  "ddhcp_block_process_claims packet sender w = do {
     let (now, w) = time_null w;
     foldM (process_claim packet sender now) [0..<unat (m_count packet)] w }"

text \<open>One block another node inquires.\<close>

definition process_inquire :: "ddhcp_mcast_packet \<Rightarrow> int \<Rightarrow> nat \<Rightarrow> world \<Rightarrow> world option" where
  "process_inquire packet now i w = do {
     tmp \<leftarrow> nth_opt (payload_list packet) i;
     if y_block_index tmp \<ge> c_number_of_blocks w then Some w
     else do {
       let k = unat (y_block_index tmp);
       b \<leftarrow> get_block k w;
       if b_state b = DDHCP_OURS then block_update_claims (put_block k (b\<lparr>b_timeout := 0\<rparr>) w)
       else if b_state b = DDHCP_CLAIMING then
         Some (if memcmp (m_node_id packet) (c_node_id w) > 0
               then put_block k (b\<lparr>b_state := DDHCP_TENTATIVE,
                 b_timeout := now + uint (c_tentative_timeout w)\<rparr>) w
               else w)
       else
         Some (put_block k (b\<lparr>b_state := DDHCP_TENTATIVE,
           b_timeout := now + uint (c_tentative_timeout w)\<rparr>) w) } }"

definition ddhcp_block_process_inquire :: "ddhcp_mcast_packet \<Rightarrow> world \<Rightarrow> world option" where
  "ddhcp_block_process_inquire packet w = do {
     let (now, w) = time_null w;
     foldM (process_inquire packet now) [0..<unat (m_count packet)] w }"

definition ddhcp_block_process :: "u8 list \<Rightarrow> int \<Rightarrow> in6_addr \<Rightarrow> world \<Rightarrow> world option" where
  "ddhcp_block_process buffer len sender w = do {
     (ret, w) \<leftarrow> ntoh_mcast_packet buffer len w;
     case ret of
       Inl _ \<Rightarrow> Some w
     | Inr packet \<Rightarrow>
         if ddhcp_check_packet packet w \<noteq> 0 then Some w
         else if m_command packet = DDHCP_MSG_UPDATECLAIM then
           ddhcp_block_process_claims packet sender (statistics_record STAT_MCAST_RECV_UPDATECLAIM 1 w)
         else if m_command packet = DDHCP_MSG_INQUIRE then
           ddhcp_block_process_inquire packet (statistics_record STAT_MCAST_RECV_INQUIRE 1 w)
         else Some w }"

subsection \<open>Messages about leases\<close>

definition renew_payload :: "ddhcp_mcast_packet \<Rightarrow> ddhcp_renew_payload option" where
  "renew_payload packet = (case m_body packet of Renew r \<Rightarrow> Some r | _ \<Rightarrow> None)"

definition ddhcp_dhcp_renewlease :: "ddhcp_mcast_packet \<Rightarrow> in6_addr \<Rightarrow> world \<Rightarrow> world option" where
  "ddhcp_dhcp_renewlease packet sender w = do {
     renew \<leftarrow> renew_payload packet;
     (ret, w) \<leftarrow> dhcp_rhdl_request (r_address renew) w;
     if ret \<noteq> 0 \<and> ret \<noteq> 1 then Some w
     else do {
       let (answer, w) =
         new_ddhcp_packet (if ret = 0 then DDHCP_MSG_LEASEACK else DDHCP_MSG_LEASENAK) w;
       let w = statistics_record
         (if ret = 0 then STAT_DIRECT_SEND_LEASEACK else STAT_DIRECT_SEND_LEASENAK) 1 w;
       case answer of
         None \<Rightarrow> Some w
       | Some answer \<Rightarrow> do {
           let w = statistics_record STAT_DIRECT_SEND_PKG 1 w;
           (bytes_send, w) \<leftarrow> send_packet_direct (answer\<lparr>m_body := Renew renew\<rparr>) sender w;
           Some (statistics_record STAT_DIRECT_SEND_BYTE bytes_send w) } } }"

definition ddhcp_dhcp_leaseack :: "ddhcp_mcast_packet \<Rightarrow> world \<Rightarrow> world option" where
  "ddhcp_dhcp_leaseack request w = do {
     renew \<leftarrow> renew_payload request;
     let (packet, cache) =
       dhcp_packet_list_find (c_dhcp_packet_cache w) (r_xid renew) (r_chaddr renew);
     let w = w\<lparr>c_dhcp_packet_cache := cache\<rparr>;
     case packet of
       None \<Rightarrow> Some w
     | Some packet \<Rightarrow> do {
         (_, w) \<leftarrow> dhcp_rhdl_ack packet w;
         _ \<leftarrow> dhcp_packet_free packet;
         Some w } }"

definition ddhcp_dhcp_leasenak :: "ddhcp_mcast_packet \<Rightarrow> world \<Rightarrow> world option" where
  "ddhcp_dhcp_leasenak request w = do {
     renew \<leftarrow> renew_payload request;
     let (packet, cache) =
       dhcp_packet_list_find (c_dhcp_packet_cache w) (r_xid renew) (r_chaddr renew);
     let w = w\<lparr>c_dhcp_packet_cache := cache\<rparr>;
     case packet of
       None \<Rightarrow> Some w
     | Some packet \<Rightarrow> do {
         (_, w) \<leftarrow> dhcp_nack packet w;
         _ \<leftarrow> dhcp_packet_free packet;
         Some w } }"

definition ddhcp_dhcp_release :: "ddhcp_mcast_packet \<Rightarrow> world \<Rightarrow> world option" where
  "ddhcp_dhcp_release packet w = do {
     renew \<leftarrow> renew_payload packet;
     dhcp_release_lease (r_address renew) w }"

definition ddhcp_dhcp_process :: "u8 list \<Rightarrow> int \<Rightarrow> in6_addr \<Rightarrow> world \<Rightarrow> world option" where
  "ddhcp_dhcp_process buffer len sender w = do {
     (ret, w) \<leftarrow> ntoh_mcast_packet buffer len w;
     case ret of
       Inl _ \<Rightarrow> Some w
     | Inr packet \<Rightarrow>
         if ddhcp_check_packet packet w \<noteq> 0 then Some w
         else if m_command packet = DDHCP_MSG_RENEWLEASE then
           ddhcp_dhcp_renewlease packet sender (statistics_record STAT_DIRECT_RECV_RENEWLEASE 1 w)
         else if m_command packet = DDHCP_MSG_LEASEACK then
           ddhcp_dhcp_leaseack packet (statistics_record STAT_DIRECT_RECV_LEASEACK 1 w)
         else if m_command packet = DDHCP_MSG_LEASENAK then
           ddhcp_dhcp_leasenak packet (statistics_record STAT_DIRECT_RECV_LEASENAK 1 w)
         else if m_command packet = DDHCP_MSG_RELEASE then
           ddhcp_dhcp_release packet (statistics_record STAT_DIRECT_RECV_RELEASE 1 w)
         else Some w }"

end
