(* ===== verification/Block_Claim.thy ===== *)
theory Block_Claim
  imports Block_Inv
begin

text \<open>
  The inquiry of the claiming process and \<open>block_claim\<close> as a whole: what it may do to each
  block, and that it never has undefined behaviour while the requested number of blocks
  fits the 8-bit counter of the claim list.
\<close>

subsection \<open>The inquiry\<close>

definition claim_payload :: "world \<Rightarrow> nat \<Rightarrow> ddhcp_payload" where
  "claim_payload w i = \<lparr>y_block_index = b_index (c_blocks w ! i), y_timeout = 0, y_reserved = 0\<rparr>"

lemma inquire_payload_eq:
  assumes inv: "wf_state w"
  shows "inquire_payload w = Some (map (claim_payload w) (c_claiming_blocks w))"
proof -
  let ?n = "unat (c_claiming_blocks_amount w)"
  have "foldM (\<lambda>i ps. do {
         b \<leftarrow> get_block i w;
         if length ps < ?n
         then Some (ps @ [\<lparr>y_block_index = b_index b, y_timeout = 0, y_reserved = 0\<rparr>])
         else None }) is ps = Some (ps @ map (claim_payload w) is)"
    if "length ps + length is \<le> ?n" "\<forall>i \<in> set is. i < num_blocks w" for "is" ps
    using that inv_length [OF inv]
    by (induction "is" arbitrary: ps) (simp_all add: claim_payload_def)
  then show ?thesis
    using inv_claiming(2) [OF inv] amount_unat [OF inv] by (simp add: inquire_payload_def)
qed

definition count_rel :: "nat set \<Rightarrow> nat \<Rightarrow> ddhcp_block \<Rightarrow> ddhcp_block \<Rightarrow> bool" where
  "count_rel S k b b' \<longleftrightarrow>
     b' = (if k \<in> S then b\<lparr>b_claiming_counts := b_claiming_counts b + 1\<rparr> else b)"

lemma count_claims_ok:
  assumes inv: "wf_state w" and d: "distinct is" and "set is \<subseteq> {..<num_blocks w}"
  shows "ok (foldM count_claim is w)
    (\<lambda>w'. evolves (count_rel (set is)) w w' \<and> same_claims w w' \<and> w_out w' = w_out w \<and> (reliable w \<longrightarrow> reliable w'))"
proof (rule foldM_prefix_ok [where
      I = "\<lambda>ys w'. evolves (count_rel (set ys)) w w' \<and> same_claims w w' \<and> w_out w' = w_out w \<and> (reliable w \<longrightarrow> reliable w')"])
  show "evolves (count_rel (set [])) w w \<and> same_claims w w \<and> w_out w = w_out w \<and> (reliable w \<longrightarrow> reliable w)"
    using inv by (auto simp: count_rel_def intro: evolves_refl)
next
  fix ys x zs v
  assume "is": "is = ys @ x # zs" 
    and v: "evolves (count_rel (set ys)) w v \<and> same_claims w v \<and> w_out v = w_out w \<and> (reliable w \<longrightarrow> reliable v)"
  then have e1: "evolves (count_rel (set ys)) w v" by simp
  have x: "x \<notin> set ys" "x < num_blocks v"
    using d assms(3) "is" evolvesD(3) [OF e1] by auto
  note inv' = evolvesD(1) [OF e1]
  let ?b = "(c_blocks v ! x)\<lparr>b_claiming_counts := b_claiming_counts (c_blocks v ! x) + 1\<rparr>"
  have e2: "evolves (\<lambda>k b b'. b' = (if k = x then ?b else b)) v (put_block x ?b v)"
    using inv_block [OF inv' x(2)] inv' by (intro evolves_put) (auto simp: wf_block_def)
  have "evolves (count_rel (set (ys @ [x]))) w (put_block x ?b v)"
    using x by (intro evolves_trans_at [OF e1 e2]) (auto simp: count_rel_def split: if_splits)
  then show "ok (count_claim x v)
      (\<lambda>w'. evolves (count_rel (set (ys @ [x]))) w w' \<and> same_claims w w' \<and> w_out w' = w_out w \<and>
        (reliable w \<longrightarrow> reliable w'))"
    using v x inv_length [OF inv'] by (simp add: count_claim_def) (simp add: put_block_def)
qed

definition inquire_packet :: "world \<Rightarrow> ddhcp_mcast_packet" where
  "inquire_packet w = \<lparr>m_node_id = c_node_id w, m_prefix = c_prefix w, m_prefix_len = c_prefix_len w,
     m_blocksize = c_block_size w, m_command = DDHCP_MSG_INQUIRE,
     m_count = c_claiming_blocks_amount w, m_sender = None,
     m_body = Payload (map (claim_payload w) (c_claiming_blocks w))\<rparr>"

lemma wf_inquire_packet: "wf_state w \<Longrightarrow> wf_mcast (inquire_packet w)"
  using amount_unat [of w]
  by (auto simp: wf_mcast_def inquire_packet_def valid_inquire_def claim_payload_def wf_state_def wf_params_def)

lemma inquire_packet_env: "env_change w w' \<Longrightarrow> inquire_packet w' = inquire_packet w"
  by (simp add: inquire_packet_def env_change_def same_params_def claim_payload_def)

lemma inquire_packet_size: "0 \<le> packet_size (m_command (inquire_packet w)) (uint (m_count (inquire_packet w)))"
  by (simp add: inquire_packet_def packet_size_def ddhcp_msgs)

lemma claim_inquire_ok:
  assumes inv: "wf_state w"
  shows "ok (claim_inquire w) (\<lambda>(r, w').
    (evolves (\<lambda>k b b'. b' = b) w w' \<or> r = 0 \<and> evolves (count_rel (set (c_claiming_blocks w))) w w') \<and>
    same_claims w w' \<and> (r = 0 \<or> r = - ENOMEM) \<and>
    (w_out w' = w_out w \<or>
     (\<exists>bs. hton_packet (inquire_packet w) = Some bs \<and> w_out w' = w_out w @ [Mcast_send bs])) \<and>
    (reliable w \<longrightarrow> reliable w' \<and> evolves (count_rel (set (c_claiming_blocks w))) w w' \<and>
      (\<exists>bs. hton_packet (inquire_packet w) = Some bs \<and> w_out w' = w_out w @ [Mcast_send bs])))"
proof -
  have same: "evolves (\<lambda>k b b'. b' = b) w w' \<and> same_claims w w'" if "env_change w w'" for w'
    using that inv by (auto simp: env_change_claims intro: env_change_evolves)
  show ?thesis
  proof (cases "shd (w_allocs w) \<and> shd (stl (w_allocs w))")
    case False
    then have "\<not> reliable w" using reliable_allocs [of w] by blast
    with False show ?thesis
      by (auto simp: claim_inquire_def new_ddhcp_packet_def calloc_def same)
  next
    case True
    let ?u = "w\<lparr>w_allocs := stl (stl (w_allocs w))\<rparr>"
    let ?v = "statistics_record STAT_MCAST_SEND_INQUIRE 1 (statistics_record STAT_MCAST_SEND_PKG 1 ?u)"
    have v: "env_change w ?v" "w_out ?v = w_out w"
      by (simp_all add: statistics_record_def env_change_def same_params_def)
    have pay: "inquire_payload ?u = Some (map (claim_payload w) (c_claiming_blocks w))"
      using inquire_payload_eq [OF env_change_inv [OF env_change_update(3) inv]]
      by (simp add: claim_payload_def cong: map_cong)
    obtain n x where send: "send_packet_mcast (inquire_packet w) ?v = Some (n, x)" "env_change ?v x"
      and out: "w_out x = w_out w \<or>
        (\<exists>bs. hton_packet (inquire_packet w) = Some bs \<and> w_out x = w_out w @ [Mcast_send bs])"
      using send_packet_ok [of "inquire_packet w" Mcast_send ?v] wf_packet_hton [OF wf_inquire_packet [OF inv]] v(2)
      by (auto simp: send_packet_mcast_def ok_iff)
    have rel: "reliable x \<and> 0 < n \<and> (\<exists>bs. hton_packet (inquire_packet w) = Some bs \<and> w_out x = w_out w @ [Mcast_send bs])"
      if "reliable w"
    proof -
      have r: "reliable ?v" using that by (auto simp: reliable_def statistics_record_def dest!: stl_sset)
      obtain bs where bs: "hton_packet (inquire_packet w) = Some bs"
        using wf_packet_hton [OF wf_inquire_packet [OF inv]] by auto
      then have "send_packet_mcast (inquire_packet w) ?v = Some (sendto (Mcast_send bs) (?v\<lparr>w_allocs := stl (w_allocs ?v)\<rparr>))"
        unfolding send_packet_mcast_def using r inquire_packet_size by (intro send_packet_done reliable_now)
      moreover have "0 < shd (w_sends w)" using that by (rule reliable_now)
      ultimately show ?thesis
        using send(1) r bs v(2) by (auto simp: sendto_def) (auto simp: statistics_record_def reliable_def dest: stl_sset)
    qed
    let ?y = "statistics_record STAT_MCAST_SEND_BYTE n x"
    have ry: "reliable ?y = reliable x" by simp
    have y: "env_change w ?y" "w_out ?y = w_out x"
      using env_change_trans [OF v(1) env_change_trans [OF send(2) env_change_calls(5)]]
      by (simp_all add: statistics_record_def)
    have eq: "claim_inquire w = do {
        w \<leftarrow> (if n > 0 then foldM count_claim (c_claiming_blocks w) ?y else Some ?y); Some (0, w) }"
      using True pay send(1) y(1)
      by (simp add: claim_inquire_def new_ddhcp_packet_def calloc_def inquire_packet_def
          statistics_record_def env_change_def)
    have cl: "c_claiming_blocks ?y = c_claiming_blocks w" "num_blocks ?y = num_blocks w"
      using y(1) by (auto simp: env_change_def same_params_def)
    obtain z where z: "foldM count_claim (c_claiming_blocks w) ?y = Some z"
      "evolves (count_rel (set (c_claiming_blocks w))) ?y z" "same_claims ?y z" "w_out z = w_out ?y"
      "reliable ?y \<longrightarrow> reliable z"
      using count_claims_ok [OF env_change_inv [OF y(1) inv] inv_claiming(1) [OF inv]]
        inv_claiming(2) [OF inv] cl by (auto simp: ok_iff)
    have "evolves (count_rel (set (c_claiming_blocks w))) w z"
      using same [OF y(1)] z(2) by (blast intro: evolves_trans)
    moreover have "same_claims w z"
      using same_claims_trans [OF env_change_claims [OF y(1)] z(3)] .
    ultimately show ?thesis
      using same [OF y(1)] y(2) z(1,4,5) out rel ry by (auto simp: eq)
  qed
qed


subsection \<open>One run of the claiming process\<close>

definition claim_rel :: "world \<Rightarrow> nat \<Rightarrow> ddhcp_block \<Rightarrow> ddhcp_block \<Rightarrow> bool" where
  "claim_rel w k b b' \<longleftrightarrow>
     (\<exists>n. b' = b\<lparr>b_claiming_counts := n\<rparr>) \<or>
     k \<in> set (c_claiming_blocks w) \<and> b_claiming_counts b = 3 \<and> (\<exists>now. b' = owned w now b) \<or>
     b_state b = DDHCP_FREE \<and>
       (\<exists>n t. b' = b\<lparr>b_state := DDHCP_CLAIMING, b_claiming_counts := n, b_timeout := t\<rparr>)"

lemma block_counts_id: "\<exists>n. b = (b :: ddhcp_block)\<lparr>b_claiming_counts := n\<rparr>"
  by (rule exI [of _ "b_claiming_counts b"], rule ddhcp_block.equality) simp_all

lemma claim_rel_counts: "claim_rel w k b (b\<lparr>b_claiming_counts := n\<rparr>)"
  by (auto simp: claim_rel_def)

lemma claim_rel_id: "claim_rel w k b b"
  by (simp add: claim_rel_def block_counts_id)

lemma sweep_claim_rel: "sweep_rel w (set (c_claiming_blocks w)) k b b' \<Longrightarrow> claim_rel w k b b'"
  using claim_rel_id by (auto simp: sweep_rel_def claim_rel_def)

lemma claim_rel_find:
  assumes "claim_rel w k a b" "find_rel v now k b c"
  shows "claim_rel w k a c"
proof (cases "c = b")
  case False
  with assms(2) have b: "b_state b = DDHCP_FREE"
    and c: "c = b\<lparr>b_state := DDHCP_CLAIMING, b_claiming_counts := 0,
       b_timeout := now + uint (c_tentative_timeout v)\<rparr>"
    by (auto simp: find_rel_def)
  from b assms(1) obtain n where "b = a\<lparr>b_claiming_counts := n\<rparr>" "b_state a = DDHCP_FREE"
    by (auto simp: claim_rel_def owned_def)
  moreover from this c have "c = a\<lparr>b_state := DDHCP_CLAIMING, b_claiming_counts := 0,
      b_timeout := now + uint (c_tentative_timeout v)\<rparr>"
    by (intro ddhcp_block.equality) simp_all
  ultimately show ?thesis unfolding claim_rel_def by blast
qed (use assms in simp)

lemma claim_rel_count:
  assumes "claim_rel w k a b" "count_rel S k b c" "k \<in> S \<longrightarrow> b_state b = DDHCP_CLAIMING"
  shows "claim_rel w k a c"
proof (cases "k \<in> S")
  case True
  with assms(2) have c: "c = b\<lparr>b_claiming_counts := b_claiming_counts b + 1\<rparr>"
    by (simp add: count_rel_def)
  from True assms(1,3) consider n where "b = a\<lparr>b_claiming_counts := n\<rparr>"
    | n t where "b_state a = DDHCP_FREE"
      "b = a\<lparr>b_state := DDHCP_CLAIMING, b_claiming_counts := n, b_timeout := t\<rparr>"
    by (auto simp: claim_rel_def owned_def)
  then show ?thesis
  proof cases
    case 1
    then have "c = a\<lparr>b_claiming_counts := b_claiming_counts b + 1\<rparr>"
      using c by (intro ddhcp_block.equality) simp_all
    then show ?thesis by (metis claim_rel_counts)
  next
    case 2
    then have "c = a\<lparr>b_state := DDHCP_CLAIMING, b_claiming_counts := b_claiming_counts b + 1, b_timeout := t\<rparr>"
      using c by (intro ddhcp_block.equality) simp_all
    with 2(1) show ?thesis unfolding claim_rel_def by blast
  qed
qed (use assms in \<open>simp add: count_rel_def\<close>)

text \<open>After the sweep every listed block is still being claimed.\<close>

lemma sweep_listed:
  assumes "sweep_inv w num (c_claiming_blocks w) (n, v)" "wf_state w"
  shows "listed v" "c_claiming_blocks v = filter (stays w) (c_claiming_blocks w)"
proof -
  have cl: "c_claiming_blocks v = filter (stays w) (c_claiming_blocks w)"
    and ev: "evolves (sweep_rel w (set (c_claiming_blocks w))) w v"
    using assms(1) by (auto simp: sweep_inv_def)
  show "c_claiming_blocks v = filter (stays w) (c_claiming_blocks w)" by (rule cl)
  have "b_state (c_blocks v ! i) = DDHCP_CLAIMING" if "i \<in> set (c_claiming_blocks v)" for i
  proof -
    have "i < num_blocks w" "stays w i" using that cl inv_claiming(2) [OF assms(2)] by auto
    then show ?thesis using evolvesD(5) [OF ev, of i] by (auto simp: sweep_rel_def stays_def)
  qed
  then show "listed v" by (simp add: listed_def)
qed

text \<open>
  What a run achieves when neither memory nor network fails: blocks announced three times
  are owned and leave the list with the claims that were lost, free blocks join it until
  the list has the number still needed or none is left, and one inquiry names the whole
  list, which counts as one more announcement of each.
\<close>

definition claims_left :: "int \<Rightarrow> world \<Rightarrow> int" where
  "claims_left num w = num - int (length (filter (ripe w) (c_claiming_blocks w)))"

definition lists_claims :: "int \<Rightarrow> world \<Rightarrow> world \<Rightarrow> bool" where
  "lists_claims num w w' \<longleftrightarrow>
     (\<exists>new. c_claiming_blocks w' = filter (stays w) (c_claiming_blocks w) @ new \<and>
       (\<forall>k \<in> set new. b_state (c_blocks w ! k) = DDHCP_FREE) \<and>
       (let kept = int (length (filter (stays w) (c_claiming_blocks w))); len = int (length (c_claiming_blocks w'))
        in len = max kept (claims_left num w) \<or>
           len < claims_left num w \<and> (\<forall>k < num_blocks w. b_state (c_blocks w' ! k) \<noteq> DDHCP_FREE)))"

definition inquired :: "world \<Rightarrow> world \<Rightarrow> bool" where
  "inquired w w' \<longleftrightarrow>
     (if c_claiming_blocks w' = [] then w_out w' = w_out w
      else \<exists>bs. hton_packet (inquire_packet w') = Some bs \<and> w_out w' = w_out w @ [Mcast_send bs]) \<and>
     (\<forall>k \<in> set (c_claiming_blocks w'). b_claiming_counts (c_blocks w' ! k) =
        (if stays w k then b_claiming_counts (c_blocks w ! k) else 0) + 1)"

definition claim_progress :: "int \<Rightarrow> world \<Rightarrow> world \<Rightarrow> bool" where
  "claim_progress num w w' \<longleftrightarrow>
     (\<forall>k \<in> set (c_claiming_blocks w). ripe w k \<longrightarrow> b_state (c_blocks w' ! k) = DDHCP_OURS) \<and>
     lists_claims num w w' \<and> inquired w w'"

text \<open>
  The result: no undefined behaviour, success or \<open>-ENOMEM\<close>, the invariant, the
  transitions of the blocks, and every listed block in state CLAIMING.
\<close>

definition claimed_post :: "int \<Rightarrow> world \<Rightarrow> int \<Rightarrow> world \<Rightarrow> bool" where
  "claimed_post num w r w' \<longleftrightarrow>
     evolves (claim_rel w) w w' \<and> listed w' \<and> c_options w' = c_options w \<and> (r = 0 \<or> r = - ENOMEM) \<and>
     (reliable w \<longrightarrow> reliable w' \<and> claim_progress num w w')"

lemma evolves_count_post:
  assumes ev: "evolves (claim_rel w) w u" and ls: "listed u" and opt: "c_options u = c_options w"
    and x: "evolves (\<lambda>k b b'. b' = b) u x \<or> r = 0 \<and> evolves (count_rel (set (c_claiming_blocks u))) u x"
      "same_claims u x" "r = 0 \<or> r = - ENOMEM"
    and inv: "wf_state u"
  shows "evolves (claim_rel w) w x \<and> listed x \<and> c_options x = c_options w \<and> (r = 0 \<or> r = - ENOMEM)"
proof -
  have cr: "evolves (count_rel (set (c_claiming_blocks u)) ) u x \<or> evolves (count_rel {}) u x"
    using x(1) evolves_mono [of "\<lambda>k b b'. b' = b" u x "count_rel {}"]
    by (auto simp: count_rel_def)
  then obtain S where S: "S \<subseteq> set (c_claiming_blocks u)" "evolves (count_rel S) u x" by blast
  have st: "k \<in> S \<longrightarrow> b_state (c_blocks u ! k) = DDHCP_CLAIMING" for k
    using ls S(1) by (auto simp: listed_def)
  have "evolves (claim_rel w) w x"
    by (rule evolves_trans_at [OF ev S(2)]) (rule claim_rel_count [OF _ _ st])
  moreover have "listed x"
  proof -
    have "b_state (c_blocks x ! k) = DDHCP_CLAIMING" if "k \<in> set (c_claiming_blocks u)" for k
      using evolvesD(5) [OF S(2) inv_claiming(2) [OF inv that]] ls that
      by (auto simp: count_rel_def listed_def split: if_splits)
    then show ?thesis using x(2) by (simp add: listed_def same_claims_def)
  qed
  ultimately show ?thesis
    using x(2,3) opt by (simp add: same_claims_def)
qed

text \<open>The blocks between the two loops and after them.\<close>

lemma stays_sweep: "stays w k \<Longrightarrow> sweep_rel w S k (c_blocks w ! k) b \<Longrightarrow> b = c_blocks w ! k"
  by (auto simp: stays_def sweep_rel_def)

lemma sweep_state_free: "sweep_rel w S k b b' \<Longrightarrow> b_state b' = DDHCP_FREE \<Longrightarrow> b_state b = DDHCP_FREE"
  by (auto simp: sweep_rel_def owned_def)

lemma claim_progressI:
  assumes inv: "wf_state w" and rel: "reliable w" and si: "sweep_inv w num (c_claiming_blocks w) (n, v)"
    and fi: "find_inv v now (nat (n - int (length (c_claiming_blocks v)))) u"
    and x: "evolves (count_rel (set (c_claiming_blocks u))) u x" "same_claims u x"
      "if c_claiming_blocks u = [] then w_out x = w_out u
       else \<exists>bs. hton_packet (inquire_packet u) = Some bs \<and> w_out x = w_out u @ [Mcast_send bs]"
  shows "claim_progress num w x"
proof -
  let ?L = "c_claiming_blocks w"
  have ev: "evolves (sweep_rel w (set ?L)) w v" and lv: "sweep_live w num ?L n v"
    and cv: "c_claiming_blocks v = filter (stays w) ?L"
    using si by (auto simp: sweep_inv_def)
  have eu: "evolves (find_rel v now) v u" and lu: "listed u" and cu: "calm v u" using fi by (simp_all add: find_inv_def)
  obtain new where new: "c_claiming_blocks u = c_claiming_blocks v @ new"
    "length new \<le> nat (n - int (length (c_claiming_blocks v)))"
    "\<forall>k \<in> set new. k < num_blocks v \<and> b_state (c_blocks v ! k) = DDHCP_FREE"
    "length new = nat (n - int (length (c_claiming_blocks v))) \<or> (\<forall>k < num_blocks v. b_state (c_blocks u ! k) \<noteq> DDHCP_FREE)"
    using fi by (auto simp: find_inv_def)
  note nb = evolvesD(3) [OF ev] evolvesD(3) [OF eu]
  have n: "n = claims_left num w" and own: "\<forall>k \<in> set ?L. ripe w k \<longrightarrow> b_state (c_blocks v ! k) = DDHCP_OURS"
    using lv rel by (simp_all add: sweep_live_def claims_left_def)
  have cx: "c_claiming_blocks x = c_claiming_blocks u" using x(2) by (simp add: same_claims_def)
  have sx: "b_state (c_blocks x ! k) = b_state (c_blocks u ! k)" if "k < num_blocks w" for k
    using evolvesD(5) [OF x(1), of k] that nb by (auto simp: count_rel_def)
  have su: "c_blocks u ! k = c_blocks v ! k" if "k < num_blocks w" "b_state (c_blocks v ! k) \<noteq> DDHCP_FREE" for k
    using evolvesD(5) [OF eu, of k] that nb by (auto simp: find_rel_def)
  have L: "k < num_blocks w" if "k \<in> set ?L" for k using that inv_claiming(2) [OF inv] by simp
  have one: "b_state (c_blocks x ! k) = DDHCP_OURS" if "k \<in> set ?L" "ripe w k" for k
    using that own L [of k] sx [of k] su [of k] by simp
  have free: "b_state (c_blocks w ! k) = DDHCP_FREE" if "k \<in> set new" for k
    using that new(3) nb sweep_state_free [OF evolvesD(5) [OF ev, of k]] by simp
  have two: "lists_claims num w x"
    unfolding lists_claims_def
    using free new cv n cx sx nb by (intro exI [of _ new]) (auto simp: Let_def max_def)
  have cnt: "b_claiming_counts (c_blocks x ! k) = (if stays w k then b_claiming_counts (c_blocks w ! k) else 0) + 1"
    if k: "k \<in> set (c_claiming_blocks u)" for k
  proof -
    have kb: "k < num_blocks w" using k inv_claiming(2) [OF evolvesD(1) [OF eu]] nb by simp
    then have c: "b_claiming_counts (c_blocks x ! k) = b_claiming_counts (c_blocks u ! k) + 1"
      using k evolvesD(5) [OF x(1), of k] nb by (simp add: count_rel_def)
    show ?thesis
    proof (cases "stays w k")
      case True
      then have "c_blocks v ! k = c_blocks w ! k" using evolvesD(5) [OF ev kb] by (rule stays_sweep)
      then show ?thesis using c True su [OF kb] by (simp add: stays_def)
    next
      case False
      then have "k \<in> set new" using k new(1) cv by auto
      then have "b_state (c_blocks v ! k) = DDHCP_FREE" using new(3) by blast
      moreover have "b_state (c_blocks u ! k) = DDHCP_CLAIMING" using lu k by (simp add: listed_def)
      ultimately show ?thesis
        using evolvesD(5) [OF eu, of k] kb nb c False by (auto simp: find_rel_def)
    qed
  qed
  have "inquire_packet x = inquire_packet u"
  proof -
    have "claim_payload x k = claim_payload u k" if "k \<in> set (c_claiming_blocks u)" for k
      using evolvesD(5) [OF x(1), of k] that inv_claiming(2) [OF evolvesD(1) [OF eu]]
      by (simp add: claim_payload_def count_rel_def)
    moreover have "same_params u x" using evolvesD(2) [OF x(1)] by (simp add: keeps_def)
    ultimately show ?thesis using x(2) by (simp add: inquire_packet_def same_claims_def same_params_def)
  qed
  moreover have "w_out u = w_out w" using cu lv by (simp add: sweep_live_def calm_def)
  ultimately have "inquired w x" using x(3) cx cnt by (simp add: inquired_def cong: if_cong)
  with one two show ?thesis by (simp add: claim_progress_def)
qed

lemma block_claim_post:
  assumes inv: "wf_state w" and num: "num \<le> 255"
  shows "ok (block_claim num w) (\<lambda>(r, w'). claimed_post num w r w')"
proof -
  let ?w = "w\<lparr>w_times := stl (w_times w)\<rparr>"
  let ?now = "shd (w_times w)"
  have env: "env_change w ?w" by simp
  note inv1 = env_change_inv [OF env inv]
  obtain n v where sweep: "foldM claim_step (c_claiming_blocks w) (num, ?w) = Some (n, v)"
    and si: "sweep_inv ?w num (c_claiming_blocks w) (n, v)"
    using sweep_ok [OF inv1, of num] by (auto simp: ok_iff)
  have same: "owned ?w = owned w" "stays ?w = stays w" "ripe ?w = ripe w"
    using owned_cong [of w ?w] by (simp_all add: stays_def ripe_def fun_eq_iff)
  have ls: "listed v" using sweep_listed(1) [of ?w num n v] si inv1 by simp
  have ev: "evolves (claim_rel w) w v" and n: "n \<le> num" and opt: "c_options v = c_options w"
    using si by (auto simp: sweep_inv_def intro!: evolves_trans [OF env_change_evolves [OF env inv, where P = "\<lambda>k b b'. b' = b"]]
        sweep_claim_rel [of w] simp: sweep_rel_def same)
  note inv2 = evolvesD(1) [OF ev]
  let ?k = "nat (n - int (length (c_claiming_blocks v)))"
  obtain u where u: "(if n > uint (c_claiming_blocks_amount v)
      then foldM (\<lambda>_. claim_find ?now) [0..<nat (n - uint (c_claiming_blocks_amount v))] v else Some v) = Some u"
    "find_inv v ?now ?k u"
  proof (cases "n > int (length (c_claiming_blocks v))")
    case True
    then have "length (c_claiming_blocks v) + ?k \<le> 255" using n num by simp
    from claim_finds_ok [OF inv2 ls this, of ?now] True show thesis
      using that by (auto simp: ok_iff amount_uint [OF inv2])
  next
    case False
    moreover have "evolves (find_rel v ?now) v v" using inv2 by (auto simp: find_rel_def intro: evolves_refl)
    ultimately show thesis
      using that [of v] ls by (simp add: amount_uint [OF inv2] find_inv_def)
  qed
  have e3: "evolves (claim_rel w) w u" "listed u" "c_options u = c_options w"
    using evolves_trans [OF ev _ claim_rel_find] u(2) opt by (auto simp: find_inv_def)
  note inv3 = evolvesD(1) [OF e3(1)]
  have prog: "claim_progress num w x" if "reliable w" "evolves (count_rel (set (c_claiming_blocks u))) u x" "same_claims u x"
    "if c_claiming_blocks u = [] then w_out x = w_out u
     else \<exists>bs. hton_packet (inquire_packet u) = Some bs \<and> w_out x = w_out u @ [Mcast_send bs]" for x
  proof -
    have "claim_progress num ?w x"
      using that si by (intro claim_progressI [OF inv1 _ _ u(2)]) simp_all
    then show ?thesis
      by (simp add: claim_progress_def lists_claims_def inquired_def claims_left_def same cong: if_cong)
  qed
  have rel: "reliable w \<longrightarrow> reliable u"
    using si u(2) by (simp add: sweep_inv_def sweep_live_def find_inv_def calm_def)
  have "ok (if c_claiming_blocks_amount u < 1 then Some (0, u) else claim_inquire u) (\<lambda>(r, w'). claimed_post num w r w')"
  proof (cases "c_claiming_blocks_amount u < 1")
    case True
    then have "c_claiming_blocks u = []"
      using amount_unat [OF inv3] by (simp add: word_less_nat_alt)
    moreover have "evolves (count_rel {}) u u" using inv3 by (auto simp: count_rel_def intro: evolves_refl)
    ultimately show ?thesis using True e3 rel prog [of u] by (simp add: claimed_post_def)
  next
    case False
    then have ne: "c_claiming_blocks u \<noteq> []"
      using amount_unat [OF inv3] by (auto simp: word_less_nat_alt)
    from claim_inquire_ok [OF inv3] False show ?thesis
    proof (simp only: if_False, elim ok_mono, clarify)
      fix r x
      assume x: "evolves (\<lambda>k b b'. b' = b) u x \<or> r = 0 \<and> evolves (count_rel (set (c_claiming_blocks u))) u x"
        "same_claims u x" "r = 0 \<or> r = - ENOMEM"
        and live: "reliable u \<longrightarrow> reliable x \<and> evolves (count_rel (set (c_claiming_blocks u))) u x \<and>
          (\<exists>bs. hton_packet (inquire_packet u) = Some bs \<and> w_out x = w_out u @ [Mcast_send bs])"
      show "claimed_post num w r x"
        using evolves_count_post [OF e3 x inv3] live rel prog [OF _ _ x(2)] ne by (simp add: claimed_post_def)
    qed
  qed
  then show ?thesis
    using u(1) by (simp add: block_claim_def time_null_def sweep)
qed

end
