(* ===== verification/Block_Refresh.thy ===== *)
theory Block_Refresh
  imports Block_Inv
begin

text \<open>
  \<open>block_update_claims\<close>: the claims of a node are announced in groups of at most
  \<open>UPDATE_CLAIM_MAX_BLOCKS\<close>. A node announces blocks it owns and no others, an announced
  block gets the new timeout, and when memory and the network do not fail no owned block
  is left with less than a refresh interval to live.
\<close>

definition ours :: "world \<Rightarrow> nat \<Rightarrow> bool" where
  "ours w i \<longleftrightarrow> b_state (c_blocks w ! i) = DDHCP_OURS"

definition update_claim :: "world \<Rightarrow> nat \<Rightarrow> ddhcp_payload" where
  "update_claim w i =
     \<lparr>y_block_index = b_index (c_blocks w ! i), y_timeout = c_block_timeout w, y_reserved = 0\<rparr>"

definition update_packet :: "world \<Rightarrow> nat list \<Rightarrow> ddhcp_mcast_packet" where
  "update_packet w ks = \<lparr>m_node_id = c_node_id w, m_prefix = c_prefix w, m_prefix_len = c_prefix_len w,
     m_blocksize = c_block_size w, m_command = DDHCP_MSG_UPDATECLAIM,
     m_count = of_nat (length ks), m_sender = None, m_body = Payload (map (update_claim w) ks)\<rparr>"

text \<open>
  Every datagram sent between two states announces owned blocks only, and the timeout of
  a block moves only when a datagram that names it was sent.
\<close>

definition claim_datagram :: "world \<Rightarrow> nat list \<Rightarrow> io \<Rightarrow> bool" where
  "claim_datagram w ks e \<longleftrightarrow> (\<exists>bs. hton_packet (update_packet w ks) = Some bs \<and> e = Mcast_send bs)"

definition owned_datagram :: "world \<Rightarrow> nat list \<Rightarrow> io \<Rightarrow> bool" where
  "owned_datagram w ks e \<longleftrightarrow> length ks \<le> UPDATE_CLAIM_MAX_BLOCKS \<and>
     (\<forall>k \<in> set ks. k < num_blocks w \<and> ours w k) \<and> claim_datagram w ks e"

definition announced :: "world \<Rightarrow> world \<Rightarrow> bool" where
  "announced w w' \<longleftrightarrow> (\<exists>es. w_out w' = w_out w @ es \<and> (\<forall>e \<in> set es. \<exists>ks. owned_datagram w ks e) \<and>
     (\<forall>k < num_blocks w. b_timeout (c_blocks w' ! k) \<noteq> b_timeout (c_blocks w ! k) \<longrightarrow>
        (\<exists>e \<in> set es. \<exists>ks. k \<in> set ks \<and> owned_datagram w ks e)))"

subsection \<open>One datagram\<close>

lemma update_hton:
  assumes "length ks \<le> 255" "take (length ks) ps = map (update_claim w) ks" "length ks \<le> length ps"
  shows "hton_packet ((update_packet w ks)\<lparr>m_body := Payload ps\<rparr>) = hton_packet (update_packet w ks)"
    "\<exists>bs. hton_packet (update_packet w ks) = Some bs"
proof -
  have n: "unat (of_nat (length ks) :: u8) = length ks" using assms(1) by (simp add: unat_of_nat)
  show "hton_packet ((update_packet w ks)\<lparr>m_body := Payload ps\<rparr>) = hton_packet (update_packet w ks)"
    using assms n by (simp add: hton_packet_def hton_body_def update_packet_def take_opt_def)
  show "\<exists>bs. hton_packet (update_packet w ks) = Some bs"
    using n by (simp add: hton_packet_def hton_body_def update_packet_def take_opt_def)
qed

lemma update_packet_size: "0 \<le> packet_size (m_command (update_packet w ks)) (uint (m_count (update_packet w ks)))"
  by (simp add: update_packet_def packet_size_def ddhcp_msgs)

definition refresh_rel :: "int \<Rightarrow> nat set \<Rightarrow> nat \<Rightarrow> ddhcp_block \<Rightarrow> ddhcp_block \<Rightarrow> bool" where
  "refresh_rel T S k b b' \<longleftrightarrow> b' = b \<or> k \<in> S \<and> b' = b\<lparr>b_timeout := T\<rparr>"

lemma set_timeouts_ok:
  assumes inv: "wf_state w" and ks: "set ks \<subseteq> {..<num_blocks w}"
    and ps: "take (length ks) ps = map (update_claim w) ks" "length ks \<le> length ps"
  shows "ok (foldM (set_timeout T ps) [0..<length ks] w) (\<lambda>w'.
    evolves (\<lambda>k b b'. b' = (if k \<in> set ks then b\<lparr>b_timeout := T\<rparr> else b)) w w' \<and>
    same_claims w w' \<and> w_out w' = w_out w \<and> (reliable w \<longrightarrow> reliable w'))"
proof -
  let ?Q = "\<lambda>n k b b'. b' = (if k \<in> set (take n ks) then b\<lparr>b_timeout := T\<rparr> else b)"
  let ?I = "\<lambda>n v. evolves (?Q n) w v \<and> same_claims w v \<and> w_out v = w_out w \<and> (reliable w \<longrightarrow> reliable v)"
  have "ok (foldM (set_timeout T ps) [0..<length ks] w) (?I (length ks))"
  proof (rule foldM_upt_ok [where I = ?I])
    show "?I 0 w" using inv by (auto intro: evolves_refl)
  next
    fix i v
    assume i: "i < length ks" and "?I i v"
    then have e1: "evolves (?Q i) w v" and v: "same_claims w v" "w_out v = w_out w" "reliable w \<longrightarrow> reliable v"
      by auto
    note inv' = evolvesD(1) [OF e1]
    let ?k = "ks ! i"
    have k: "?k < num_blocks w" "?k < num_blocks v"
      using subsetD [OF ks nth_mem [OF i]] evolvesD(3) [OF e1] by simp_all
    have "ps ! i = update_claim w ?k"
      using ps i by (metis nth_map nth_take)
    moreover have "unat (b_index (c_blocks w ! ?k)) = ?k"
      using inv_block [OF inv k(1)] k unat_u32_less [of "c_number_of_blocks w"]
      by (simp add: wf_block_def unat_of_nat)
    ultimately have step: "set_timeout T ps i v =
        Some (put_block ?k ((c_blocks v ! ?k)\<lparr>b_timeout := T\<rparr>) v)"
      using i ps(2) k inv_length [OF inv'] by (simp add: set_timeout_def update_claim_def Let_def)
    let ?b = "(c_blocks v ! ?k)\<lparr>b_timeout := T\<rparr>"
    have e2: "evolves (\<lambda>k b b'. b' = (if k = ?k then ?b else b)) v (put_block ?k ?b v)"
      using inv_block [OF inv' k(2)] inv' by (intro evolves_put) (auto simp: wf_block_def)
    have "evolves (?Q (Suc i)) w (put_block ?k ?b v)"
      using i by (intro evolves_trans_at [OF e1 e2]) (auto simp: take_Suc_conv_app_nth split: if_splits)
    then show "ok (set_timeout T ps i v) (?I (Suc i))"
      using step v by (simp add: put_block_def [of _ _ v] same_claims_def)
        (simp add: put_block_def reliable_def)
  qed
  then show ?thesis by simp
qed


text \<open>What one group does when it is sent.\<close>

lemma update_claim_send_ok:
  assumes inv0: "wf_state w0" and inv: "wf_state w" and same: "same_params w0 w"
    and idx: "\<forall>k < num_blocks w0. b_index (c_blocks w ! k) = b_index (c_blocks w0 ! k)"
    and ks: "\<forall>k \<in> set ks. k < num_blocks w0" "length ks \<le> UPDATE_CLAIM_MAX_BLOCKS"
    and ps: "take (length ks) ps = map (update_claim w0) ks" "length ks \<le> length ps"
  shows "ok (block_update_claim_send ((update_packet w0 ks)\<lparr>m_body := body\<rparr>) ps T w) (\<lambda>w'.
    evolves (refresh_rel T (set ks)) w w' \<and> same_claims w w' \<and>
    (w_out w' = w_out w \<and> c_blocks w' = c_blocks w \<or>
     (\<exists>e. claim_datagram w0 ks e \<and> w_out w' = w_out w @ [e])) \<and>
    (reliable w \<longrightarrow> reliable w' \<and> (\<forall>k \<in> set ks. b_timeout (c_blocks w' ! k) = T)))"
proof -
  let ?p = "(update_packet w0 ks)\<lparr>m_body := Payload ps\<rparr>"
  let ?v = "statistics_record STAT_MCAST_SEND_UPDATECLAIM 1 (statistics_record STAT_MCAST_SEND_PKG 1 w)"
  have len: "length ks \<le> 255" using ks(2) by (simp add: UPDATE_CLAIM_MAX_BLOCKS_def)
  obtain bs where bs: "hton_packet (update_packet w0 ks) = Some bs" "hton_packet ?p = Some bs"
    using update_hton [OF len ps] by auto
  have v: "env_change w ?v" "w_out ?v = w_out w" "reliable ?v = reliable w"
    by (simp add: statistics_record_def env_change_def same_params_def) (simp add: statistics_record_def, simp)
  obtain n x where send: "send_packet_mcast ?p ?v = Some (n, x)" "env_change ?v x"
    and out: "w_out x = w_out w \<and> n = -1 \<or> w_out x = w_out w @ [Mcast_send bs]"
    using send_packet_ok [of ?p Mcast_send ?v] bs v(2) by (auto simp: send_packet_mcast_def ok_iff)
  have rel: "reliable x \<and> 0 < n" if "reliable w"
  proof -
    have r: "reliable ?v" using that v(3) by simp
    then have "send_packet_mcast ?p ?v = Some (sendto (Mcast_send bs) (?v\<lparr>w_allocs := stl (w_allocs ?v)\<rparr>))"
      unfolding send_packet_mcast_def
      using update_packet_size [of w0 ks] bs by (intro send_packet_done reliable_now) simp_all
    moreover have "0 < shd (w_sends w)" using that by (rule reliable_now)
    ultimately show ?thesis
      using send(1) r by (auto simp: sendto_def) (auto simp: statistics_record_def reliable_def dest: stl_sset)
  qed
  let ?y = "statistics_record STAT_MCAST_SEND_BYTE n x"
  have y: "env_change w ?y" "w_out ?y = w_out x" "reliable ?y = reliable x"
    using env_change_trans [OF v(1) env_change_trans [OF send(2) env_change_calls(5)]]
    by (simp_all add: statistics_record_def reliable_def)
  note invy = env_change_inv [OF y(1) inv]
  have ysame: "num_blocks ?y = num_blocks w0" "c_block_timeout ?y = c_block_timeout w0" "c_blocks ?y = c_blocks w"
    using y(1) same by (simp_all add: env_change_def same_params_def)
  have "update_claim ?y k = update_claim w0 k" if "k \<in> set ks" for k
    using that ks(1) idx ysame by (simp add: update_claim_def)
  then have psy: "take (length ks) ps = map (update_claim ?y) ks" using ps(1) by simp
  have cnt: "unat (of_nat (length ks) :: u8) = length ks" using len by (simp add: unat_of_nat)
  obtain z where z: "foldM (set_timeout T ps) [0..<length ks] ?y = Some z"
    "evolves (\<lambda>k b b'. b' = (if k \<in> set ks then b\<lparr>b_timeout := T\<rparr> else b)) ?y z"
    "same_claims ?y z" "w_out z = w_out ?y" "reliable ?y \<longrightarrow> reliable z"
    using set_timeouts_ok [OF invy _ psy ps(2), of T] ks(1) ysame by (auto simp: ok_iff)
  have eq: "block_update_claim_send ((update_packet w0 ks)\<lparr>m_body := body\<rparr>) ps T w =
      Some (if n > 0 then z else ?y)"
    using send(1) z(1) cnt by (simp add: block_update_claim_send_def update_packet_def)
  have e1: "evolves (\<lambda>k b b'. b' = b) w ?y" using y(1) inv by (auto intro: env_change_evolves)
  have e2: "evolves (\<lambda>k b b'. b' = (if k \<in> set ks then b\<lparr>b_timeout := T\<rparr> else b)) w z"
    by (rule evolves_trans [OF e1 z(2)]) simp
  show ?thesis
  proof (cases "n > 0")
    case True
    have "evolves (refresh_rel T (set ks)) w z"
      by (rule evolves_mono [OF e2]) (auto simp: refresh_rel_def)
    moreover have "b_timeout (c_blocks z ! k) = T" if "k \<in> set ks" for k
      using evolvesD(5) [OF e2, of k] that ks(1) same by (auto simp: same_params_def)
    moreover have "same_claims w z" using env_change_claims [OF y(1)] z(3) by (rule same_claims_trans)
    moreover have "claim_datagram w0 ks (Mcast_send bs)" using bs(1) by (simp add: claim_datagram_def)
    ultimately show ?thesis using True eq out z(4,5) y(2,3) rel by auto
  next
    case False
    have "evolves (refresh_rel T (set ks)) w ?y"
      by (rule evolves_mono [OF e1]) (auto simp: refresh_rel_def)
    moreover have "claim_datagram w0 ks (Mcast_send bs)" using bs(1) by (simp add: claim_datagram_def)
    ultimately show ?thesis using False eq out ysame(3) y env_change_claims [OF y(1)] rel by auto
  qed
qed


subsection \<open>All groups\<close>

text \<open>
  The loop after \<open>i\<close> blocks: the owned ones among them are the finished groups \<open>fin\<close>
  followed by the entries \<open>pend\<close> of the current group.
\<close>

definition refresh_inv :: "world \<Rightarrow> int \<Rightarrow> int \<Rightarrow> nat \<Rightarrow>
    ddhcp_payload list \<times> bool \<times> u8 \<times> world \<Rightarrow> bool" where
  "refresh_inv w0 F T i = (\<lambda>(ps, send, index, v). \<exists>fin pend.
     filter (ours w0) [0..<i] = fin @ pend \<and> length ps = UPDATE_CLAIM_MAX_BLOCKS \<and>
     index = of_nat (length pend) \<and> length pend < UPDATE_CLAIM_MAX_BLOCKS \<and>
     take (length pend) ps = map (update_claim w0) pend \<and>
     (send \<longleftrightarrow> (\<exists>k \<in> set pend. b_timeout (c_blocks w0 ! k) < F)) \<and>
     evolves (refresh_rel T (set fin)) w0 v \<and> same_claims w0 v \<and> announced w0 v \<and>
     (reliable w0 \<longrightarrow> reliable v \<and>
       (\<forall>k \<in> set fin. b_timeout (c_blocks w0 ! k) < F \<longrightarrow> b_timeout (c_blocks v ! k) = T)))"

lemma announced_refl [simp]: "announced w w"
  by (simp add: announced_def)

lemma announced_snoc:
  assumes "announced w v" "length ks \<le> UPDATE_CLAIM_MAX_BLOCKS" "\<forall>k \<in> set ks. k < num_blocks w \<and> ours w k"
    and out: "w_out u = w_out v \<and> c_blocks u = c_blocks v \<or> (\<exists>e. claim_datagram w ks e \<and> w_out u = w_out v @ [e])"
    and same: "\<forall>k < num_blocks w. k \<notin> set ks \<longrightarrow> b_timeout (c_blocks u ! k) = b_timeout (c_blocks v ! k)"
  shows "announced w u"
proof -
  obtain es where es: "w_out v = w_out w @ es" "\<forall>e \<in> set es. \<exists>ks. owned_datagram w ks e"
    "\<forall>k < num_blocks w. b_timeout (c_blocks v ! k) \<noteq> b_timeout (c_blocks w ! k) \<longrightarrow>
        (\<exists>e \<in> set es. \<exists>ks. k \<in> set ks \<and> owned_datagram w ks e)"
    using assms(1) by (auto simp: announced_def)
  from out show ?thesis
  proof (elim disjE exE conjE)
    assume "w_out u = w_out v" "c_blocks u = c_blocks v"
    with assms(1) show ?thesis by (simp add: announced_def)
  next
    fix e
    assume e: "claim_datagram w ks e" "w_out u = w_out v @ [e]"
    then have own: "owned_datagram w ks e" using assms(2,3) by (simp add: owned_datagram_def)
    have "\<exists>e' \<in> set (es @ [e]). \<exists>ks. k \<in> set ks \<and> owned_datagram w ks e'"
      if "k < num_blocks w" "b_timeout (c_blocks u ! k) \<noteq> b_timeout (c_blocks w ! k)" for k
      using that own same es(3) by (cases "k \<in> set ks") auto
    then show ?thesis
      unfolding announced_def using own e(2) es(1,2) by (intro exI [of _ "es @ [e]"]) auto
  qed
qed

text \<open>Sending the current group ends it.\<close>

lemma flush_ok:
  assumes inv0: "wf_state w0" and os: "\<forall>k \<in> set (fin @ ks). k < num_blocks w0 \<and> ours w0 k"
    and d: "distinct (fin @ ks)"
    and ks: "length ks \<le> UPDATE_CLAIM_MAX_BLOCKS" "length ks \<le> length ps"
      "take (length ks) ps = map (update_claim w0) ks"
    and v: "evolves (refresh_rel T (set fin)) w0 v" "same_claims w0 v" "announced w0 v"
      "reliable w0 \<longrightarrow> reliable v \<and>
       (\<forall>k \<in> set fin. b_timeout (c_blocks w0 ! k) < F \<longrightarrow> b_timeout (c_blocks v ! k) = T)"
  shows "ok (block_update_claim_send ((update_packet w0 ks)\<lparr>m_body := body\<rparr>) ps T v) (\<lambda>u.
    evolves (refresh_rel T (set (fin @ ks))) w0 u \<and> same_claims w0 u \<and> announced w0 u \<and>
    (reliable w0 \<longrightarrow> reliable u \<and>
       (\<forall>k \<in> set (fin @ ks). b_timeout (c_blocks w0 ! k) < F \<longrightarrow> b_timeout (c_blocks u ! k) = T)))"
proof -
  have "same_params w0 v" using evolvesD(2) [OF v(1)] by (simp add: keeps_def)
  moreover have "\<forall>k < num_blocks w0. b_index (c_blocks v ! k) = b_index (c_blocks w0 ! k)"
    using evolvesD(5) [OF v(1)] by (fastforce simp: refresh_rel_def)
  ultimately have "ok (block_update_claim_send ((update_packet w0 ks)\<lparr>m_body := body\<rparr>) ps T v) (\<lambda>w'.
    evolves (refresh_rel T (set ks)) v w' \<and> same_claims v w' \<and>
    (w_out w' = w_out v \<and> c_blocks w' = c_blocks v \<or>
     (\<exists>e. claim_datagram w0 ks e \<and> w_out w' = w_out v @ [e])) \<and>
    (reliable v \<longrightarrow> reliable w' \<and> (\<forall>k \<in> set ks. b_timeout (c_blocks w' ! k) = T)))"
    using os ks evolvesD(1) [OF v(1)] by (intro update_claim_send_ok [OF inv0]) auto
  then show ?thesis
  proof (rule ok_mono)
    fix u
    assume u: "evolves (refresh_rel T (set ks)) v u \<and> same_claims v u \<and>
      (w_out u = w_out v \<and> c_blocks u = c_blocks v \<or>
       (\<exists>e. claim_datagram w0 ks e \<and> w_out u = w_out v @ [e])) \<and>
      (reliable v \<longrightarrow> reliable u \<and> (\<forall>k \<in> set ks. b_timeout (c_blocks u ! k) = T))"
    then have e2: "evolves (refresh_rel T (set ks)) v u" by simp
    have "evolves (refresh_rel T (set (fin @ ks))) w0 u"
      by (rule evolves_trans [OF v(1) e2]) (auto simp: refresh_rel_def)
    moreover have "announced w0 u"
    proof (rule announced_snoc [OF v(3) ks(1)])
      show "\<forall>k < num_blocks w0. k \<notin> set ks \<longrightarrow> b_timeout (c_blocks u ! k) = b_timeout (c_blocks v ! k)"
        using evolvesD(5) [OF e2] evolvesD(3) [OF v(1)] by (fastforce simp: refresh_rel_def)
    qed (use u os in auto)
    moreover have "b_timeout (c_blocks u ! k) = T"
      if "reliable w0" "k \<in> set (fin @ ks)" "b_timeout (c_blocks w0 ! k) < F" for k
    proof (cases "k \<in> set ks")
      case False
      then have "k \<in> set fin" "k < num_blocks v" using that os evolvesD(3) [OF v(1)] by auto
      then show ?thesis
        using False evolvesD(5) [OF e2, of k] v(4) that by (auto simp: refresh_rel_def)
    qed (use u v(4) that in auto)
    ultimately show "evolves (refresh_rel T (set (fin @ ks))) w0 u \<and> same_claims w0 u \<and> announced w0 u \<and>
      (reliable w0 \<longrightarrow> reliable u \<and>
        (\<forall>k \<in> set (fin @ ks). b_timeout (c_blocks w0 ! k) < F \<longrightarrow> b_timeout (c_blocks u ! k) = T))"
      using u v(2,4) same_claims_trans by auto
  qed
qed

lemma update_claims_step_ok:
  assumes inv0: "wf_state w0" and i: "i < num_blocks w0" and s: "refresh_inv w0 F T i s"
    and p: "p = (update_packet w0 [])\<lparr>m_body := No_body\<rparr>"
  shows "ok (update_claims_step p F T i s) (refresh_inv w0 F T (Suc i))"
proof -
  obtain ps send index v where [simp]: "s = (ps, send, index, v)" by (cases s)
  from s obtain fin pend where os: "filter (ours w0) [0..<i] = fin @ pend"
    and ps: "length ps = UPDATE_CLAIM_MAX_BLOCKS" "take (length pend) ps = map (update_claim w0) pend"
    and index: "index = of_nat (length pend)" "length pend < UPDATE_CLAIM_MAX_BLOCKS"
    and send: "send \<longleftrightarrow> (\<exists>k \<in> set pend. b_timeout (c_blocks w0 ! k) < F)"
    and v: "evolves (refresh_rel T (set fin)) w0 v" "same_claims w0 v" "announced w0 v"
      "reliable w0 \<longrightarrow> reliable v \<and>
       (\<forall>k \<in> set fin. b_timeout (c_blocks w0 ! k) < F \<longrightarrow> b_timeout (c_blocks v ! k) = T)"
    by (auto simp: refresh_inv_def)
  have mem: "set (filter (ours w0) [0..<i]) = set (fin @ pend)" using os by simp
  have old: "i \<notin> set (fin @ pend)" "\<forall>k \<in> set (fin @ pend). k < num_blocks w0 \<and> ours w0 k"
    unfolding mem [symmetric] using i by auto
  have d: "distinct (fin @ pend)" unfolding os [symmetric] by simp
  have iv: "i < length (c_blocks v)"
    using i evolvesD(3) [OF v(1)] inv_length [OF evolvesD(1) [OF v(1)]] by simp
  have bi: "c_blocks v ! i = c_blocks w0 ! i"
    using evolvesD(5) [OF v(1) i] old(1) by (simp add: refresh_rel_def)
  have bt: "c_block_timeout v = c_block_timeout w0"
    using evolvesD(2) [OF v(1)] by (simp add: keeps_def same_params_def)
  show ?thesis
  proof (cases "ours w0 i")
    case False
    then show ?thesis
      using s iv bi by (simp add: update_claims_step_def refresh_inv_def ours_def)
  next
    case True
    let ?pend = "pend @ [i]" and ?ps = "ps[length pend := update_claim w0 i]"
    let ?send = "b_timeout (c_blocks w0 ! i) < F \<or> send"
    have u: "unat index = length pend" "index + 1 = of_nat (length ?pend)"
      using index by (simp_all add: UPDATE_CLAIM_MAX_BLOCKS_def unat_of_nat add.commute)
    have ps': "take (length ?pend) ?ps = map (update_claim w0) ?pend" "length ?ps = UPDATE_CLAIM_MAX_BLOCKS"
      using ps index(2) by (simp_all add: take_Suc_conv_app_nth)
    have os': "filter (ours w0) [0..<Suc i] = fin @ ?pend" using os True by simp
    have send': "?send \<longleftrightarrow> (\<exists>k \<in> set ?pend. b_timeout (c_blocks w0 ! k) < F)" using send by auto
    have full: "index + 1 = of_nat UPDATE_CLAIM_MAX_BLOCKS \<longleftrightarrow> length ?pend = UPDATE_CLAIM_MAX_BLOCKS"
    proof -
      have "unat (of_nat (length ?pend) :: u8) = length ?pend"
        using index(2) by (intro of_nat_inverse) (simp_all add: UPDATE_CLAIM_MAX_BLOCKS_def)
      then show ?thesis
        unfolding u(2) by (auto simp: UPDATE_CLAIM_MAX_BLOCKS_def word_unat_eq_iff simp del: length_append)
    qed
    have step: "update_claims_step p F T i s =
      (if length ?pend = UPDATE_CLAIM_MAX_BLOCKS then
         if ?send then do {
           w \<leftarrow> block_update_claim_send (p\<lparr>m_count := of_nat (length ?pend)\<rparr>) ?ps T v;
           Some (?ps, False, 0, w) }
         else Some (?ps, ?send, 0, v)
       else Some (?ps, ?send, of_nat (length ?pend), v))"
      using True iv bi bt ps index(2)
      by (simp add: update_claims_step_def ours_def update_claim_def Let_def u(1) full del: length_append)
        (simp add: u(2) del: length_append)
    show ?thesis
    proof (cases "length ?pend = UPDATE_CLAIM_MAX_BLOCKS")
      case False
      then have "length ?pend < UPDATE_CLAIM_MAX_BLOCKS" using index(2) by simp
      then have "refresh_inv w0 F T (Suc i) (?ps, ?send, of_nat (length ?pend), v)"
        unfolding refresh_inv_def prod.case
        using os' ps' send' v by (intro exI [of _ fin] exI [of _ ?pend]) blast
      then show ?thesis using False step by simp
    next
      case group: True
      let ?post = "\<lambda>u. evolves (refresh_rel T (set (fin @ ?pend))) w0 u \<and> same_claims w0 u \<and> announced w0 u \<and>
        (reliable w0 \<longrightarrow> reliable u \<and>
          (\<forall>k \<in> set (fin @ ?pend). b_timeout (c_blocks w0 ! k) < F \<longrightarrow> b_timeout (c_blocks u ! k) = T))"
      have ended: "refresh_inv w0 F T (Suc i) (?ps, False, 0, u)" if "?post u" for u
        unfolding refresh_inv_def prod.case
        using os' ps'(2) that by (intro exI [of _ "fin @ ?pend"] exI [of _ "[]"]) (auto simp: UPDATE_CLAIM_MAX_BLOCKS_def)
      show ?thesis
      proof (cases ?send)
        case True
        have peq: "p\<lparr>m_count := of_nat (length ?pend)\<rparr> = (update_packet w0 ?pend)\<lparr>m_body := No_body\<rparr>"
          by (simp add: p update_packet_def)
        have "ok (block_update_claim_send ((update_packet w0 ?pend)\<lparr>m_body := No_body\<rparr>) ?ps T v) ?post"
          using old d True group ps' v i \<open>ours w0 i\<close>
          by (intro flush_ok [OF inv0]) auto
        then have "ok (block_update_claim_send (p\<lparr>m_count := of_nat (length ?pend)\<rparr>) ?ps T v)
            (\<lambda>u. refresh_inv w0 F T (Suc i) (?ps, False, 0, u))"
          unfolding peq by (rule ok_mono) (rule ended)
        then show ?thesis
          unfolding step if_P [OF group] if_P [OF True] ok_bind ok_Some .
      next
        case False
        have "evolves (refresh_rel T (set (fin @ ?pend))) w0 v"
          by (rule evolves_mono [OF v(1)]) (auto simp: refresh_rel_def)
        moreover have "\<forall>k \<in> set ?pend. \<not> b_timeout (c_blocks w0 ! k) < F" using False send' by blast
        ultimately have "?post v" using v by auto
        then have "refresh_inv w0 F T (Suc i) (?ps, ?send, 0, v)" using False ended by simp
        then show ?thesis unfolding step if_P [OF group] if_not_P [OF False] ok_Some .
      qed
    qed
  qed
qed

text \<open>The whole call, from the clock reading \<open>now\<close>.\<close>

definition refresh_due :: "world \<Rightarrow> int" where
  "refresh_due w = shd (w_times w) + uint (c_block_timeout w)
     - uint (c_block_timeout w) div uint (c_block_refresh_factor w)"

definition refresh_until :: "world \<Rightarrow> int" where
  "refresh_until w = shd (w_times w) + uint (c_block_timeout w)"

lemma refresh_due_le: "refresh_due w \<le> refresh_until w"
proof -
  have "0 \<le> uint (c_block_timeout w) div uint (c_block_refresh_factor w)"
    by (metis uint_div_distrib unsigned_greater_eq)
  then show ?thesis by (simp add: refresh_due_def refresh_until_def)
qed

definition refreshed_post :: "world \<Rightarrow> world \<Rightarrow> bool" where
  "refreshed_post w w' \<longleftrightarrow>
     evolves (refresh_rel (refresh_until w) {k. ours w k}) w w' \<and> same_claims w w' \<and> announced w w' \<and>
     (reliable w \<longrightarrow> reliable w' \<and>
       (\<forall>k < num_blocks w. ours w k \<longrightarrow> refresh_due w \<le> b_timeout (c_blocks w' ! k)))"

lemma refresh_loop_ok:
  assumes inv0: "wf_state w0" and p: "p = (update_packet w0 [])\<lparr>m_body := No_body\<rparr>" and le: "F \<le> T"
    and ps: "length ps = UPDATE_CLAIM_MAX_BLOCKS"
  shows "ok (do { (ps, send, index, w) \<leftarrow>
        foldM (update_claims_step p F T) [0..<num_blocks w0] (ps, False, 0, w0);
      if send then block_update_claim_send (p\<lparr>m_count := index\<rparr>) ps T w else Some w })
    (\<lambda>w'. evolves (refresh_rel T {k. ours w0 k}) w0 w' \<and> same_claims w0 w' \<and> announced w0 w' \<and>
     (reliable w0 \<longrightarrow> reliable w' \<and>
       (\<forall>k < num_blocks w0. ours w0 k \<longrightarrow> F \<le> b_timeout (c_blocks w' ! k))))"
    (is "ok _ ?post")
proof -
  have "ok (foldM (update_claims_step p F T) [0..<num_blocks w0] (ps, False, 0, w0))
      (refresh_inv w0 F T (num_blocks w0))"
  proof (rule foldM_upt_ok [where I = "refresh_inv w0 F T"])
    show "refresh_inv w0 F T 0 (ps, False, 0, w0)"
      using inv0 ps by (auto simp: refresh_inv_def UPDATE_CLAIM_MAX_BLOCKS_def refresh_rel_def intro: evolves_refl)
  qed (rule update_claims_step_ok [OF inv0 _ _ p])
  then obtain qs send index v where loop:
    "foldM (update_claims_step p F T) [0..<num_blocks w0] (ps, False, 0, w0) = Some (qs, send, index, v)"
    and ri: "refresh_inv w0 F T (num_blocks w0) (qs, send, index, v)"
    by (auto simp: ok_iff)
  from ri obtain fin pend where os: "filter (ours w0) [0..<num_blocks w0] = fin @ pend"
    and qs: "length qs = UPDATE_CLAIM_MAX_BLOCKS" "take (length pend) qs = map (update_claim w0) pend"
    and index: "index = of_nat (length pend)" "length pend < UPDATE_CLAIM_MAX_BLOCKS"
    and send: "send \<longleftrightarrow> (\<exists>k \<in> set pend. b_timeout (c_blocks w0 ! k) < F)"
    and v: "evolves (refresh_rel T (set fin)) w0 v" "same_claims w0 v" "announced w0 v"
      "reliable w0 \<longrightarrow> reliable v \<and>
       (\<forall>k \<in> set fin. b_timeout (c_blocks w0 ! k) < F \<longrightarrow> b_timeout (c_blocks v ! k) = T)"
    by (auto simp: refresh_inv_def)
  have mem: "set (fin @ pend) = {k. k < num_blocks w0 \<and> ours w0 k}"
    unfolding os [symmetric] by auto
  have d: "distinct (fin @ pend)" unfolding os [symmetric] by simp
  have post: "?post u" if u: "evolves (refresh_rel T (set (fin @ pend))) w0 u" "same_claims w0 u" "announced w0 u"
    "reliable w0 \<longrightarrow> reliable u \<and>
       (\<forall>k \<in> set (fin @ pend). b_timeout (c_blocks w0 ! k) < F \<longrightarrow> b_timeout (c_blocks u ! k) = T)" for u
  proof -
    have "evolves (refresh_rel T {k. ours w0 k}) w0 u"
      using u(1) mem by (elim evolves_mono) (auto simp: refresh_rel_def)
    moreover have "F \<le> b_timeout (c_blocks u ! k)" if "reliable w0" "k < num_blocks w0" "ours w0 k" for k
    proof (cases "b_timeout (c_blocks w0 ! k) < F")
      case True
      then show ?thesis using u(4) that mem le by auto
    next
      case False
      then show ?thesis
        using evolvesD(5) [OF u(1) that(2)] le by (auto simp: refresh_rel_def)
    qed
    ultimately show ?thesis using u by blast
  qed
  show ?thesis
  proof (cases send)
    case True
    have "p\<lparr>m_count := index\<rparr> = (update_packet w0 pend)\<lparr>m_body := No_body\<rparr>"
      by (simp add: p index(1) update_packet_def)
    moreover have "ok (block_update_claim_send ((update_packet w0 pend)\<lparr>m_body := No_body\<rparr>) qs T v) ?post"
      using post mem d qs index(2) v
      by (intro ok_mono [OF flush_ok [OF inv0, where fin = fin and F = F]]) auto
    ultimately show ?thesis using True loop by simp
  next
    case False
    have "evolves (refresh_rel T (set (fin @ pend))) w0 v"
      by (rule evolves_mono [OF v(1)]) (auto simp: refresh_rel_def)
    then have "?post v" using v False send by (intro post) auto
    then show ?thesis using False loop by simp
  qed
qed

lemma block_update_claims_ok:
  assumes inv: "wf_state w"
  shows "ok (block_update_claims w) (refreshed_post w)"
proof -
  let ?w = "w\<lparr>w_times := stl (w_times w)\<rparr>"
  have rf: "c_block_refresh_factor w \<noteq> 0" using wf_params_D(5) [OF inv_params [OF inv]] .
  have len: "num_blocks w \<le> length (c_blocks w)" using inv by (simp add: inv_length)
  let ?P = "\<lambda>b. b_state b = DDHCP_OURS \<and> b_timeout b < refresh_due w"
  have find: "find_idx ?P (c_blocks w) [0..<num_blocks w] =
      Some (find (\<lambda>i. ?P (c_blocks w ! i)) [0..<num_blocks w])"
    using len by (intro find_idx_find) auto
  have idle: "refreshed_post w u" if u: "env_change w u" "w_out u = w_out w" "\<not> reliable w" for u
    using that inv env_change_def [of w u]
    by (auto simp: refreshed_post_def env_change_claims announced_def refresh_rel_def
        intro!: env_change_evolves)
  show ?thesis
  proof (cases "find (\<lambda>i. ?P (c_blocks w ! i)) [0..<num_blocks w]")
    case None
    then have "refresh_due w \<le> b_timeout (c_blocks w ! k)" if "k < num_blocks w" "ours w k" for k
      using that by (auto simp: find_upt_eq_None ours_def not_less)
    then have "refreshed_post w ?w"
      using inv by (auto simp: refreshed_post_def announced_def refresh_rel_def env_change_claims
          intro!: env_change_evolves)
    then show ?thesis
      using None find rf
      by (simp add: block_update_claims_def time_null_def refresh_due_def)
  next
    case (Some i)
    show ?thesis
    proof (cases "shd (w_allocs w) \<and> shd (stl (w_allocs w))")
      case False
      then have nr: "\<not> reliable w"
        using reliable_now(1) [of w] reliable_now(1) [of "w\<lparr>w_allocs := stl (w_allocs w)\<rparr>"] by auto
      have "ok (block_update_claims w) (\<lambda>u. env_change w u \<and> w_out u = w_out w)"
        using False Some find rf
        by (auto simp: block_update_claims_def time_null_def refresh_due_def new_ddhcp_packet_def
            calloc_def Let_def env_change_def same_params_def)
      then show ?thesis using nr by (elim ok_mono) (auto intro: idle)
    next
      case True
      let ?u = "w\<lparr>w_times := stl (w_times w), w_allocs := stl (stl (w_allocs w))\<rparr>"
      let ?p = "(update_packet ?u [])\<lparr>m_body := No_body\<rparr>"
      let ?ps = "replicate UPDATE_CLAIM_MAX_BLOCKS \<lparr>y_block_index = 0, y_timeout = 0, y_reserved = 0\<rparr>"
      have u: "env_change w ?u" by (simp add: env_change_def same_params_def)
      have peq: "?p = \<lparr>m_node_id = c_node_id w, m_prefix = c_prefix w, m_prefix_len = c_prefix_len w,
         m_blocksize = c_block_size w, m_command = DDHCP_MSG_UPDATECLAIM, m_count = 0, m_sender = None,
         m_body = No_body\<rparr>"
        by (simp add: update_packet_def)
      have eq: "block_update_claims w = do { (ps, send, index, w') \<leftarrow>
          foldM (update_claims_step ?p (refresh_due w) (refresh_until w)) [0..<num_blocks ?u] (?ps, False, 0, ?u);
          if send then block_update_claim_send (?p\<lparr>m_count := index\<rparr>) ps (refresh_until w) w' else Some w' }"
        using True Some find rf unfolding peq refresh_due_def refresh_until_def
        by (simp add: block_update_claims_def time_null_def new_ddhcp_packet_def calloc_def Let_def)
      have main: "ok (block_update_claims w) (\<lambda>w'. evolves (refresh_rel (refresh_until w) {k. ours ?u k}) ?u w' \<and>
          same_claims ?u w' \<and> announced ?u w' \<and> (reliable ?u \<longrightarrow> reliable w' \<and>
          (\<forall>k < num_blocks ?u. ours ?u k \<longrightarrow> refresh_due w \<le> b_timeout (c_blocks w' ! k))))"
        unfolding eq using env_change_inv [OF u inv] refresh_due_le
        by (intro refresh_loop_ok) simp_all
      have "update_claim ?u = update_claim w" by (simp add: update_claim_def fun_eq_iff)
      then have "update_packet ?u = update_packet w" by (simp add: update_packet_def fun_eq_iff)
      moreover have o: "ours ?u = ours w" by (simp add: ours_def fun_eq_iff)
      ultimately have "announced ?u = announced w"
        by (simp add: announced_def owned_datagram_def claim_datagram_def fun_eq_iff)
      moreover have "reliable w \<Longrightarrow> reliable ?u" by (auto simp: reliable_def dest!: stl_sset)
      moreover have "num_blocks ?u = num_blocks w" "same_claims ?u = same_claims w"
        by (auto simp: fun_eq_iff same_claims_def)
      moreover have "evolves P w w'" if "evolves P ?u w'" for P w'
        using that by (auto simp: evolves_def keeps_def same_params_def)
      ultimately show ?thesis
        using o main by (auto simp: refreshed_post_def elim!: ok_mono)
    qed
  qed
qed

end
