(* ===== verification/Ddhcp_Inv.thy ===== *)
theory Ddhcp_Inv
  imports Ddhcp Block_Claim Block_Ops Block_Refresh
begin

text \<open>
  The messages about blocks keep the invariant of the state whatever a node on the network
  sends, a block is given up to a node with a higher identifier only, and two nodes that
  claim one block agree on its owner.
\<close>

subsection \<open>Start and shutdown\<close>

lemma ddhcp_block_init_ok:
  assumes "wf_params w" "c_claiming_blocks w = []" "c_claiming_blocks_amount w = 0"
    "wf_store (c_options w)" "ddhcp_block_init w = (0, w')"
  shows "wf_state w'" "\<forall>i < num_blocks w'. b_state (c_blocks w' ! i) = DDHCP_FREE" "same_params w w'"
proof -
  from assms(5) have w': "w' = w\<lparr>w_allocs := stl (w_allocs w), w_times := stl (w_times w),
      c_blocks := map (init_block (shd (w_times w)) w) [0..<num_blocks w]\<rparr>"
    by (auto simp: ddhcp_block_init_def calloc_def time_null_def init_block_def split: if_splits)
  show "same_params w w'" by (simp add: w' same_params_def)
  show "\<forall>i < num_blocks w'. b_state (c_blocks w' ! i) = DDHCP_FREE" by (simp add: w' init_block_def)
  have "wf_params w'" using assms(1) by (simp add: w' wf_params_def)
  then show "wf_state w'"
    using assms(2-4)
    by (simp add: w' wf_state_def wf_blocks_def wf_claiming_def wf_block_def init_block_def
        block_subnet_def zero_node_id_def)
qed

lemma ddhcp_block_free_ok:
  assumes inv: "wf_state w"
  shows "ok (ddhcp_block_free w) (\<lambda>w'. c_blocks w' = [] \<and> c_claiming_blocks w' = [])"
proof -
  have "ok (foldM block_free [0..<num_blocks w] w) (\<lambda>w'. keeps w w')"
  proof (rule foldM_ok)
    show "keeps w w" using inv by (rule keeps_refl)
  next
    fix i v
    assume "i \<in> set [0..<num_blocks w]" "keeps w v"
    moreover from this have "i < num_blocks v" using keeps_size [of w v] by simp
    ultimately show "ok (block_free i v) (keeps w)"
      using keeps_inv [of w v] inv_block_free [of v i] same_params_trans
      by (auto simp: block_free_eq keeps_def)
  qed
  then show ?thesis by (simp add: ddhcp_block_free_def block_free_claims_def) (elim ok_mono, simp)
qed

subsection \<open>Claims of other nodes\<close>

definition yields :: "ddhcp_mcast_packet \<Rightarrow> world \<Rightarrow> ddhcp_block \<Rightarrow> bool" where
  "yields p w b \<longleftrightarrow> \<not> (b_state b = DDHCP_OURS \<and> memcmp (m_node_id p) (c_node_id w) < 0)"

definition claim_taken :: "ddhcp_mcast_packet \<Rightarrow> in6_addr \<Rightarrow> int \<Rightarrow> ddhcp_block \<Rightarrow> ddhcp_block" where
  "claim_taken p sender t b = b\<lparr>b_state := DDHCP_CLAIMED, b_owner_address := sender,
     b_node_id := m_node_id p, b_timeout := t\<rparr>"

lemma claim_taken_eq:
  "b\<lparr>b_state := DDHCP_CLAIMED, b_timeout := t, b_owner_address := sender, b_node_id := m_node_id p\<rparr>
    = claim_taken p sender t b"
  by (rule ddhcp_block.equality) (simp_all add: claim_taken_def)

text \<open>Refreshing our own claims moves timeouts of owned blocks only.\<close>

definition own_timeout :: "ddhcp_block \<Rightarrow> ddhcp_block \<Rightarrow> bool" where
  "own_timeout b b' \<longleftrightarrow> b' = b \<or> b_state b = DDHCP_OURS \<and> (\<exists>t. b' = b\<lparr>b_timeout := t\<rparr>)"

lemma own_timeout_refl [simp]: "own_timeout b b"
  by (simp add: own_timeout_def)

lemma own_timeout_trans: "own_timeout a b \<Longrightarrow> own_timeout b c \<Longrightarrow> own_timeout a c"
  by (auto simp: own_timeout_def)

lemma own_timeout_state: "own_timeout b b' \<Longrightarrow> b_state b' = b_state b"
  by (auto simp: own_timeout_def)

text \<open>
  What a node sends while it handles a message about blocks: claims of blocks it owned
  before, and, when memory and network do not fail and the clock is set, at least one claim
  of every contested block. \<open>owned_datagram w ks e\<close> says that \<open>e\<close> is the multicast which
  announces the owned blocks \<open>ks\<close>.
\<close>

definition working :: "world \<Rightarrow> bool" where
  "working w \<longleftrightarrow> reliable w \<and> (\<forall>t \<in> sset (w_times w). 0 < t)"

definition notifies :: "world \<Rightarrow> (nat \<Rightarrow> bool) \<Rightarrow> world \<Rightarrow> bool" where
  "notifies w D w' \<longleftrightarrow> (\<exists>es. w_out w' = w_out w @ es \<and> (\<forall>e \<in> set es. \<exists>ks. owned_datagram w ks e) \<and>
     (working w \<longrightarrow> (\<forall>k < num_blocks w. D k \<longrightarrow> (\<exists>e \<in> set es. \<exists>ks. k \<in> set ks \<and> owned_datagram w ks e))))"

lemma working_env [simp]:
  "working (w\<lparr>w_out := out\<rparr>) = working w" "working (put_block i b w) = working w"
  "working (statistics_record s n w) = working w"
  by (simp_all add: working_def) (simp_all add: put_block_def statistics_record_def)

lemma working_later: "working w \<Longrightarrow> working (w\<lparr>w_times := stl (w_times w)\<rparr>)"
  by (auto simp: working_def dest: stl_sset)

lemma notifies_nothing: "w_out w' = w_out w \<Longrightarrow> (\<And>k. k < num_blocks w \<Longrightarrow> \<not> D k) \<Longrightarrow> notifies w D w'"
  by (simp add: notifies_def)

lemma owned_datagram_back:
  assumes inv: "wf_state w" and e: "evolves R w v"
    and R: "\<And>k b b'. k < num_blocks w \<Longrightarrow> R k b b' \<Longrightarrow> b_state b' = DDHCP_OURS \<Longrightarrow> b_state b = DDHCP_OURS"
    and d: "owned_datagram v ks d"
  shows "owned_datagram w ks d"
proof -
  have sp: "same_params w v" using evolvesD(2) [OF e] by (simp add: keeps_def)
  have n: "num_blocks v = num_blocks w" using evolvesD(3) [OF e] .
  have own: "\<forall>k \<in> set ks. k < num_blocks w \<and> ours w k"
    using d R evolvesD(5) [OF e] n unfolding owned_datagram_def ours_def by metis
  have "update_claim v k = update_claim w k" if "k < num_blocks w" for k
    using inv_block [OF inv that] inv_block [OF evolvesD(1) [OF e], of k] that n sp
    by (simp add: update_claim_def wf_block_def same_params_def)
  then have "update_packet v ks = update_packet w ks"
    using own sp by (simp add: update_packet_def same_params_def)
  then show ?thesis using d own by (simp add: owned_datagram_def claim_datagram_def)
qed

lemma notifies_trans:
  assumes inv: "wf_state w" and e: "evolves R w v"
    and R: "\<And>k b b'. k < num_blocks w \<Longrightarrow> R k b b' \<Longrightarrow> b_state b' = DDHCP_OURS \<Longrightarrow> b_state b = DDHCP_OURS"
    and a: "notifies w D v" "working w \<longrightarrow> working v" "notifies v E u"
    and F: "\<And>k. k < num_blocks w \<Longrightarrow> F k \<Longrightarrow> D k \<or> E k"
  shows "notifies w F u"
proof -
  have prior: "owned_datagram w ks d" if "owned_datagram v ks d" for ks d
    using R by (rule owned_datagram_back [OF inv e _ that])
  obtain es where es: "w_out v = w_out w @ es" "\<forall>e \<in> set es. \<exists>ks. owned_datagram w ks e"
    "working w \<Longrightarrow> \<forall>k < num_blocks w. D k \<longrightarrow> (\<exists>e \<in> set es. \<exists>ks. k \<in> set ks \<and> owned_datagram w ks e)"
    using a(1) by (auto simp: notifies_def)
  obtain fs where fs: "w_out u = w_out v @ fs" "\<forall>e \<in> set fs. \<exists>ks. owned_datagram v ks e"
    "working v \<Longrightarrow> \<forall>k < num_blocks v. E k \<longrightarrow> (\<exists>e \<in> set fs. \<exists>ks. k \<in> set ks \<and> owned_datagram v ks e)"
    using a(3) by (auto simp: notifies_def)
  have "\<exists>e \<in> set (es @ fs). \<exists>ks. k \<in> set ks \<and> owned_datagram w ks e"
    if w: "working w" and k: "k < num_blocks w" "F k" for k
  proof (cases "D k")
    case True
    then obtain e ks where "e \<in> set es" "k \<in> set ks" "owned_datagram w ks e" using es(3) [OF w] k(1) by blast
    then show ?thesis by auto
  next
    case False
    then have "E k" "k < num_blocks v" using F [OF k] k(1) evolvesD(3) [OF e] by simp_all
    then obtain e ks where "e \<in> set fs" "k \<in> set ks" "owned_datagram v ks e" using fs(3) w a(2) by blast
    then show ?thesis using prior by auto
  qed
  moreover have "\<forall>e \<in> set (es @ fs). \<exists>ks. owned_datagram w ks e"
    using es(2) fs(2) prior by (auto simp: Ball_def) blast
  ultimately show ?thesis
    unfolding notifies_def using es(1) fs(1) by (intro exI [of _ "es @ fs"]) simp
qed

text \<open>The clock is read once per refresh.\<close>

lemma send_packet_times: "send_packet d p w = Some (n, w') \<Longrightarrow> w_times w' = w_times w"
  by (auto simp: send_packet_def sendto_def calloc_def Let_def elim!: bindE split: if_splits)

lemma claim_send_times: "block_update_claim_send p ps t w = Some w' \<Longrightarrow> w_times w' = w_times w"
proof -
  have "w_times v = w_times u" if "set_timeout t ps i u = Some v" for i u v
    using that by (auto simp: set_timeout_def put_block_def Let_def elim!: bindE)
  then have "w_times v = w_times u" if "foldM (set_timeout t ps) xs u = Some v" for xs u v
    using foldM_frame [OF that, of w_times] by blast
  then show "block_update_claim_send p ps t w = Some w' \<Longrightarrow> w_times w' = w_times w"
    by (fastforce simp: block_update_claim_send_def send_packet_mcast_def Let_def statistics_record_def
        elim!: bindE split: if_splits dest!: send_packet_times)
qed

lemma update_claims_step_times:
  "update_claims_step p f t i s = Some s' \<Longrightarrow> w_times (snd (snd (snd s'))) = w_times (snd (snd (snd s)))"
  by (cases s) (auto simp: update_claims_step_def Let_def elim!: bindE split: if_splits dest!: claim_send_times)

lemma block_update_claims_times: "block_update_claims w = Some w' \<Longrightarrow> w_times w' = stl (w_times w)"
proof -
  have "w_times v = w_times u"
    if "foldM (update_claims_step p f t) xs (ps, send, index, u) = Some (ps', send', index', v)" for p f t xs ps send index u ps' send' index' v
    using foldM_frame [OF that, of "\<lambda>s. w_times (snd (snd (snd s)))"] update_claims_step_times by auto
  then show "block_update_claims w = Some w' \<Longrightarrow> w_times w' = stl (w_times w)"
    by (fastforce simp: block_update_claims_def time_null_def new_ddhcp_packet_def calloc_def Let_def
        elim!: bindE split: if_splits option.splits dest!: claim_send_times)
qed

lemma refresh_due_positive: "working w \<Longrightarrow> 0 < refresh_due w"
proof -
  assume "working w"
  then have "0 < shd (w_times w)" using shd_sset by (auto simp: working_def)
  moreover have "x div y \<le> x" if "0 \<le> x" "0 \<le> y" for x y :: int
    using that zdiv_mono2 [of x 1 y] by (cases "y = 0") simp_all
  then have "uint (c_block_timeout w) div uint (c_block_refresh_factor w) \<le> uint (c_block_timeout w)" by simp
  ultimately show ?thesis by (simp add: refresh_due_def)
qed

text \<open>A contested block of ours is announced at once.\<close>

lemma defend_ok:
  assumes inv: "wf_state w" and k: "k < num_blocks w" and st: "b_state (c_blocks w ! k) = DDHCP_OURS"
  shows "ok (block_update_claims (put_block k ((c_blocks w ! k)\<lparr>b_timeout := 0\<rparr>) w)) (\<lambda>w'.
    evolves (\<lambda>k b b'. own_timeout b b') w w' \<and> same_claims w w' \<and> (working w \<longrightarrow> working w') \<and>
    notifies w (\<lambda>j. j = k) w')"
proof -
  let ?b = "(c_blocks w ! k)\<lparr>b_timeout := 0\<rparr>"
  let ?v = "put_block k ?b w"
  have kl: "k < length (c_blocks w)" using inv k by (simp add: inv_length)
  have e1: "evolves (\<lambda>k b b'. own_timeout b b') w ?v"
    using inv_block [OF inv k] inv st
    by (intro evolves_put) (auto simp: wf_block_def own_timeout_def)
  obtain w' where w': "block_update_claims ?v = Some w'" and post: "refreshed_post ?v w'"
    using block_update_claims_ok [OF evolvesD(1) [OF e1]] unfolding ok_iff by blast
  have e2: "evolves (refresh_rel (refresh_until ?v) {j. ours ?v j}) ?v w'"
    using post by (simp add: refreshed_post_def)
  have "evolves (\<lambda>k b b'. own_timeout b b') w w'"
    by (rule evolves_trans_at [OF e1 e2])
      (auto simp: refresh_rel_def ours_def own_timeout_def split: if_splits)
  moreover have "working w'" if "working w"
  proof -
    have "reliable ?v" "w_times ?v = w_times w" using that by (simp add: working_def) (simp add: put_block_def)
    then show ?thesis
      using that post block_update_claims_times [OF w'] by (auto simp: working_def refreshed_post_def dest: stl_sset)
  qed
  moreover have "notifies w (\<lambda>j. j = k) w'"
  proof -
    obtain es where es: "w_out w' = w_out w @ es" "\<forall>e \<in> set es. \<exists>ks. owned_datagram ?v ks e"
      and moved: "\<forall>k < num_blocks ?v. b_timeout (c_blocks w' ! k) \<noteq> b_timeout (c_blocks ?v ! k) \<longrightarrow>
        (\<exists>e \<in> set es. \<exists>ks. k \<in> set ks \<and> owned_datagram ?v ks e)"
      using post by (auto simp: refreshed_post_def announced_def put_block_def)
    have prior: "owned_datagram w ks e" if "owned_datagram ?v ks e" for ks e
      using own_timeout_state that by (intro owned_datagram_back [OF inv e1]) auto
    have "b_timeout (c_blocks w' ! k) \<noteq> b_timeout (c_blocks ?v ! k)" if w: "working w"
    proof -
      have "ours ?v k" "refresh_due ?v = refresh_due w" "reliable ?v"
        using st kl w by (simp add: ours_def, simp add: refresh_due_def put_block_def, simp add: working_def)
      then show ?thesis
        using post k kl refresh_due_positive [OF w] by (auto simp: refreshed_post_def put_block_def)
    qed
    moreover have "k < num_blocks ?v" using k by (simp add: put_block_def)
    ultimately show ?thesis
      unfolding notifies_def using es moved prior by (intro exI [of _ es]) blast
  qed
  moreover have "same_claims w w'"
    using post by (simp add: refreshed_post_def) (simp add: same_claims_def put_block_def)
  ultimately show ?thesis using w' by simp
qed

text \<open>
  What the entries \<open>S\<close> of a claim do to block \<open>k\<close>: a named block that yields belongs to the
  sender, with the timeout of one of the entries that name it; no other block changes but
  for the timeout of owned ones.
\<close>

definition names :: "ddhcp_payload set \<Rightarrow> nat \<Rightarrow> bool" where
  "names S k \<longleftrightarrow> (\<exists>y \<in> S. unat (y_block_index y) = k)"

definition taken_rel ::
  "ddhcp_payload set \<Rightarrow> ddhcp_mcast_packet \<Rightarrow> in6_addr \<Rightarrow> int \<Rightarrow> world \<Rightarrow> nat \<Rightarrow> ddhcp_block \<Rightarrow> ddhcp_block \<Rightarrow> bool" where
  "taken_rel S p sender now w k b b' \<longleftrightarrow>
     (if names S k \<and> yields p w b
      then \<exists>y \<in> S. unat (y_block_index y) = k \<and> b' = claim_taken p sender (now + uint (y_timeout y)) b
      else own_timeout b b')"

lemma taken_rel_cong: "same_params w w' \<Longrightarrow> taken_rel S p sender now w' = taken_rel S p sender now w"
  by (simp add: taken_rel_def yields_def same_params_def fun_eq_iff)

lemma yields_cong: "same_params w w' \<Longrightarrow> yields p w' = yields p w"
  by (simp add: yields_def same_params_def fun_eq_iff)

lemma claim_taken_timeout: "own_timeout b b' \<Longrightarrow> claim_taken p sender t b' = claim_taken p sender t b"
  by (auto simp: own_timeout_def claim_taken_def)

lemma taken_rel_insert:
  assumes "taken_rel S p sender now w k a b" "taken_rel {y} p sender now w k b c"
  shows "taken_rel (insert y S) p sender now w k a c"
proof (cases "names S k \<and> yields p w a")
  case True
  then obtain z where z: "z \<in> S" "unat (y_block_index z) = k" "b = claim_taken p sender (now + uint (y_timeout z)) a"
    using assms(1) by (auto simp: taken_rel_def)
  have "c = b \<or> unat (y_block_index y) = k \<and> c = claim_taken p sender (now + uint (y_timeout y)) b"
    using assms(2) z(3) by (auto simp: taken_rel_def names_def own_timeout_def claim_taken_def split: if_splits)
  then show ?thesis
    using True z by (auto simp: taken_rel_def names_def claim_taken_def)
next
  case False
  then have ab: "own_timeout a b" using assms(1) by (auto simp: taken_rel_def split: if_splits)
  then have "yields p w b = yields p w a" by (simp add: yields_def own_timeout_state)
  then show ?thesis
    using False assms(2) ab own_timeout_trans claim_taken_timeout [OF ab]
    by (auto simp: taken_rel_def names_def split: if_splits)
qed

lemma process_claim_ok:
  assumes inv: "wf_state w" and i: "i < length (payload_list p)"
    and len: "length sender = 16" "length (m_node_id p) = 8"
  defines "y \<equiv> payload_list p ! i"
  shows "ok (process_claim p sender now i w) (\<lambda>w'.
    evolves (taken_rel {y} p sender now w) w w' \<and> same_claims w w' \<and> (working w \<longrightarrow> working w') \<and>
    notifies w (\<lambda>k. names {y} k \<and> \<not> yields p w (c_blocks w ! k)) w')"
proof -
  let ?k = "unat (y_block_index y)"
  show ?thesis
  proof (cases "y_block_index y \<ge> c_number_of_blocks w")
    case True
    then have k: "\<not> ?k < num_blocks w" by (simp add: word_le_nat_alt)
    then have "evolves (taken_rel {y} p sender now w) w w"
      using inv by (auto simp: evolves_def keeps_def taken_rel_def names_def)
    moreover have "notifies w (\<lambda>k. names {y} k \<and> \<not> yields p w (c_blocks w ! k)) w"
      using k by (intro notifies_nothing) (auto simp: names_def)
    ultimately show ?thesis using i True by (simp add: process_claim_def y_def)
  next
    case False
    then have k: "?k < num_blocks w" by (simp add: word_less_nat_alt not_le)
    then have kl: "?k < length (c_blocks w)" using inv by (simp add: inv_length)
    let ?b = "c_blocks w ! ?k"
    show ?thesis
    proof (cases "yields p w ?b")
      case True
      let ?b' = "claim_taken p sender (now + uint (y_timeout y)) ?b"
      have "wf_addresses (c_block_size w) DDHCP_CLAIMED (b_addresses ?b)"
        using inv_block [OF inv k] by (cases "b_addresses ?b") (auto simp: wf_block_def)
      then have "evolves (taken_rel {y} p sender now w) w (put_block ?k ?b' w)"
        using inv inv_block [OF inv k] len True
        by (intro evolves_put) (auto simp: taken_rel_def names_def claim_taken_def wf_block_def)
      moreover have "notifies w (\<lambda>k. names {y} k \<and> \<not> yields p w (c_blocks w ! k)) (put_block ?k ?b' w)"
        using True by (intro notifies_nothing) (auto simp: names_def put_block_def)
      ultimately show ?thesis
        using True False i kl
        by (simp add: process_claim_def y_def yields_def claim_taken_eq Let_def) (metis (no_types, lifting))
    next
      case keep: False
      then have st: "b_state ?b = DDHCP_OURS" by (simp add: yields_def)
      have "evolves (taken_rel {y} p sender now w) w u" if "evolves (\<lambda>k b b'. own_timeout b b') w u" for u
        using keep by (intro evolves_mono_at [OF that]) (auto simp: taken_rel_def names_def)
      moreover have "notifies w (\<lambda>k. names {y} k \<and> \<not> yields p w (c_blocks w ! k)) u"
        if "notifies w (\<lambda>j. j = ?k) u" for u
        using that by (auto simp: notifies_def names_def)
      moreover have "process_claim p sender now i w = block_update_claims (put_block ?k (?b\<lparr>b_timeout := 0\<rparr>) w)"
        using keep False i kl by (simp add: process_claim_def y_def yields_def Let_def)
      ultimately show ?thesis
        using defend_ok [OF inv k st] by simp (elim ok_mono, blast)
    qed
  qed
qed

lemma process_claims_ok:
  assumes inv: "wf_state w" and n: "unat (m_count p) = length (payload_list p)"
    and len: "length sender = 16" "length (m_node_id p) = 8"
  shows "ok (ddhcp_block_process_claims p sender w) (\<lambda>w'.
    evolves (taken_rel (set (payload_list p)) p sender (shd (w_times w)) w) w w' \<and> same_claims w w' \<and>
    notifies w (\<lambda>k. names (set (payload_list p)) k \<and> \<not> yields p w (c_blocks w ! k)) w')"
proof -
  let ?w = "w\<lparr>w_times := stl (w_times w)\<rparr>" and ?now = "shd (w_times w)" and ?ps = "payload_list p"
  let ?D = "\<lambda>S k. names S k \<and> \<not> yields p w (c_blocks w ! k)"
  let ?I = "\<lambda>n w'. evolves (taken_rel (set (take n ?ps)) p sender ?now w) w w' \<and> same_claims w w' \<and>
    (working w \<longrightarrow> working w') \<and> notifies w (?D (set (take n ?ps))) w'"
  have "ok (foldM (process_claim p sender ?now) [0..<length ?ps] ?w) (?I (length ?ps))"
  proof (rule foldM_upt_ok [where I = ?I])
    have "evolves (taken_rel (set (take 0 ?ps)) p sender ?now w) w ?w"
      using inv by (auto simp: taken_rel_def names_def intro: env_change_evolves)
    then show "?I 0 ?w"
      using working_later by (auto simp: same_claims_def names_def intro: notifies_nothing)
  next
    fix i v
    assume i: "i < length ?ps" and v: "?I i v"
    then have e1: "evolves (taken_rel (set (take i ?ps)) p sender ?now w) w v" by simp
    have same: "taken_rel S p sender ?now v = taken_rel S p sender ?now w" "yields p v = yields p w" for S
      using evolvesD(2) [OF e1] by (simp_all add: keeps_def taken_rel_cong yields_cong)
    have set: "set (take (Suc i) ?ps) = insert (?ps ! i) (set (take i ?ps))"
      using i by (simp add: take_Suc_conv_app_nth)
    from process_claim_ok [OF evolvesD(1) [OF e1] i len, of ?now]
    show "ok (process_claim p sender ?now i v) (?I (Suc i))"
    proof (rule ok_mono)
      fix u
      assume u: "evolves (taken_rel {?ps ! i} p sender ?now v) v u \<and> same_claims v u \<and>
        (working v \<longrightarrow> working u) \<and> notifies v (\<lambda>k. names {?ps ! i} k \<and> \<not> yields p v (c_blocks v ! k)) u"
      then have e2: "evolves (taken_rel {?ps ! i} p sender ?now w) v u" by (simp add: same)
      have "evolves (taken_rel (set (take (Suc i) ?ps)) p sender ?now w) w u"
        unfolding set by (rule evolves_trans [OF e1 e2]) (rule taken_rel_insert)
      moreover have "notifies w (?D (set (take (Suc i) ?ps))) u"
      proof (rule notifies_trans [OF inv e1])
        show "notifies v (\<lambda>k. names {?ps ! i} k \<and> \<not> yields p w (c_blocks v ! k)) u" using u same by simp
      next
        fix k
        assume k: "k < num_blocks w" "?D (set (take (Suc i) ?ps)) k"
        then have "own_timeout (c_blocks w ! k) (c_blocks v ! k)"
          using evolvesD(5) [OF e1, of k] by (simp add: taken_rel_def)
        then have "yields p w (c_blocks v ! k) = yields p w (c_blocks w ! k)"
          by (simp add: yields_def own_timeout_state)
        then show "?D (set (take i ?ps)) k \<or> names {?ps ! i} k \<and> \<not> yields p w (c_blocks v ! k)"
          using k(2) unfolding set by (auto simp: names_def)
      qed (use v in \<open>auto simp: taken_rel_def claim_taken_def own_timeout_state split: if_splits\<close>)
      ultimately show "?I (Suc i) u" using u v same_claims_trans by blast
    qed
  qed
  with n show ?thesis by (simp add: ddhcp_block_process_claims_def time_null_def) (elim ok_mono, simp)
qed


subsection \<open>Inquiries of other nodes\<close>

definition steps_back :: "ddhcp_mcast_packet \<Rightarrow> world \<Rightarrow> ddhcp_block \<Rightarrow> bool" where
  "steps_back p w b \<longleftrightarrow> b_state b \<noteq> DDHCP_OURS \<and>
     (b_state b = DDHCP_CLAIMING \<longrightarrow> memcmp (m_node_id p) (c_node_id w) > 0)"

definition tentative :: "int \<Rightarrow> world \<Rightarrow> ddhcp_block \<Rightarrow> ddhcp_block" where
  "tentative now w b = b\<lparr>b_state := DDHCP_TENTATIVE, b_timeout := now + uint (c_tentative_timeout w)\<rparr>"

definition inquired_rel ::
  "ddhcp_payload set \<Rightarrow> ddhcp_mcast_packet \<Rightarrow> int \<Rightarrow> world \<Rightarrow> nat \<Rightarrow> ddhcp_block \<Rightarrow> ddhcp_block \<Rightarrow> bool" where
  "inquired_rel S p now w k b b' \<longleftrightarrow>
     (if names S k \<and> steps_back p w b then b' = tentative now w b else own_timeout b b')"

lemma inquired_rel_cong: "same_params w w' \<Longrightarrow> inquired_rel S p now w' = inquired_rel S p now w"
  by (simp add: inquired_rel_def steps_back_def tentative_def same_params_def fun_eq_iff cong: if_cong)

lemma inquired_rel_insert:
  assumes "inquired_rel S p now w k a b" "inquired_rel {y} p now w k b c"
  shows "inquired_rel (insert y S) p now w k a c"
proof (cases "names S k \<and> steps_back p w a")
  case True
  then have b: "b = tentative now w a" using assms(1) by (simp add: inquired_rel_def)
  then have "c = b"
    using assms(2) by (auto simp: inquired_rel_def tentative_def own_timeout_def split: if_splits)
  then show ?thesis using True b by (auto simp: inquired_rel_def names_def)
next
  case False
  then have ab: "own_timeout a b" using assms(1) by (auto simp: inquired_rel_def split: if_splits)
  then have "steps_back p w b = steps_back p w a" by (simp add: steps_back_def own_timeout_state)
  moreover have "steps_back p w b \<Longrightarrow> b = a" using ab by (auto simp: own_timeout_def steps_back_def)
  ultimately show ?thesis
    using False assms(2) ab own_timeout_trans
    by (auto simp: inquired_rel_def names_def split: if_splits)
qed

lemma process_inquire_ok:
  assumes inv: "wf_state w" and i: "i < length (payload_list p)"
  defines "y \<equiv> payload_list p ! i"
  shows "ok (process_inquire p now i w) (\<lambda>w'. evolves (inquired_rel {y} p now w) w w' \<and> same_claims w w' \<and>
    (working w \<longrightarrow> working w') \<and> notifies w (\<lambda>k. names {y} k \<and> ours w k) w')"
proof -
  let ?k = "unat (y_block_index y)"
  show ?thesis
  proof (cases "y_block_index y \<ge> c_number_of_blocks w")
    case True
    then have k: "\<not> ?k < num_blocks w" by (simp add: word_le_nat_alt)
    then have "evolves (inquired_rel {y} p now w) w w"
      using inv by (auto simp: evolves_def keeps_def inquired_rel_def names_def)
    moreover have "notifies w (\<lambda>k. names {y} k \<and> ours w k) w"
      using k by (intro notifies_nothing) (auto simp: names_def)
    ultimately show ?thesis using i True by (simp add: process_inquire_def y_def)
  next
    case False
    then have k: "?k < num_blocks w" by (simp add: word_less_nat_alt not_le)
    then have kl: "?k < length (c_blocks w)" using inv by (simp add: inv_length)
    let ?b = "c_blocks w ! ?k"
    consider (ours) "b_state ?b = DDHCP_OURS" | (retreat) "steps_back p w ?b"
      | (stay) "b_state ?b = DDHCP_CLAIMING" "\<not> memcmp (m_node_id p) (c_node_id w) > 0"
      by (auto simp: steps_back_def)
    then show ?thesis
    proof cases
      case ours
      have "evolves (inquired_rel {y} p now w) w u" if "evolves (\<lambda>k b b'. own_timeout b b') w u" for u
        using ours by (intro evolves_mono_at [OF that]) (auto simp: inquired_rel_def names_def steps_back_def)
      moreover have "notifies w (\<lambda>k. names {y} k \<and> ours w k) u" if "notifies w (\<lambda>j. j = ?k) u" for u
        using that by (auto simp: notifies_def names_def)
      moreover have "process_inquire p now i w = block_update_claims (put_block ?k (?b\<lparr>b_timeout := 0\<rparr>) w)"
        using ours False i kl by (simp add: process_inquire_def y_def Let_def)
      ultimately show ?thesis
        using defend_ok [OF inv k ours] by simp (elim ok_mono, blast)
    next
      case retreat
      have "wf_addresses (c_block_size w) DDHCP_TENTATIVE (b_addresses ?b)"
        using inv_block [OF inv k] by (cases "b_addresses ?b") (auto simp: wf_block_def)
      then have "evolves (inquired_rel {y} p now w) w (put_block ?k (tentative now w ?b) w)"
        using inv inv_block [OF inv k] retreat
        by (intro evolves_put) (auto simp: inquired_rel_def names_def tentative_def wf_block_def)
      moreover have "notifies w (\<lambda>k. names {y} k \<and> ours w k) (put_block ?k (tentative now w ?b) w)"
        using retreat by (intro notifies_nothing) (auto simp: names_def ours_def steps_back_def put_block_def)
      moreover have "process_inquire p now i w = Some (put_block ?k (tentative now w ?b) w)"
        using retreat False i kl by (auto simp: process_inquire_def y_def steps_back_def tentative_def Let_def)
      ultimately show ?thesis by simp
    next
      case stay
      then have "evolves (inquired_rel {y} p now w) w w"
        using inv by (auto simp: evolves_def keeps_def inquired_rel_def names_def steps_back_def)
      moreover have "notifies w (\<lambda>k. names {y} k \<and> ours w k) w"
        using stay by (intro notifies_nothing) (auto simp: names_def ours_def)
      moreover have "process_inquire p now i w = Some w"
        using stay False i kl by (simp add: process_inquire_def y_def Let_def)
      ultimately show ?thesis by simp
    qed
  qed
qed

lemma process_inquires_ok:
  assumes inv: "wf_state w" and n: "unat (m_count p) = length (payload_list p)"
  shows "ok (ddhcp_block_process_inquire p w) (\<lambda>w'.
    evolves (inquired_rel (set (payload_list p)) p (shd (w_times w)) w) w w' \<and> same_claims w w' \<and>
    notifies w (\<lambda>k. names (set (payload_list p)) k \<and> ours w k) w')"
proof -
  let ?w = "w\<lparr>w_times := stl (w_times w)\<rparr>" and ?now = "shd (w_times w)" and ?ps = "payload_list p"
  let ?D = "\<lambda>S k. names S k \<and> ours w k"
  let ?I = "\<lambda>n w'. evolves (inquired_rel (set (take n ?ps)) p ?now w) w w' \<and> same_claims w w' \<and>
    (working w \<longrightarrow> working w') \<and> notifies w (?D (set (take n ?ps))) w'"
  have "ok (foldM (process_inquire p ?now) [0..<length ?ps] ?w) (?I (length ?ps))"
  proof (rule foldM_upt_ok [where I = ?I])
    have "evolves (inquired_rel (set (take 0 ?ps)) p ?now w) w ?w"
      using inv by (auto simp: inquired_rel_def names_def intro: env_change_evolves)
    then show "?I 0 ?w"
      using working_later by (auto simp: same_claims_def names_def intro: notifies_nothing)
  next
    fix i v
    assume i: "i < length ?ps" and v: "?I i v"
    then have e1: "evolves (inquired_rel (set (take i ?ps)) p ?now w) w v" by simp
    have same: "inquired_rel S p ?now v = inquired_rel S p ?now w" for S
      using evolvesD(2) [OF e1] by (simp add: keeps_def inquired_rel_cong)
    have set: "set (take (Suc i) ?ps) = insert (?ps ! i) (set (take i ?ps))"
      using i by (simp add: take_Suc_conv_app_nth)
    from process_inquire_ok [OF evolvesD(1) [OF e1] i, of ?now]
    show "ok (process_inquire p ?now i v) (?I (Suc i))"
    proof (rule ok_mono)
      fix u
      assume u: "evolves (inquired_rel {?ps ! i} p ?now v) v u \<and> same_claims v u \<and>
        (working v \<longrightarrow> working u) \<and> notifies v (\<lambda>k. names {?ps ! i} k \<and> ours v k) u"
      then have e2: "evolves (inquired_rel {?ps ! i} p ?now w) v u" by (simp add: same)
      have "evolves (inquired_rel (set (take (Suc i) ?ps)) p ?now w) w u"
        unfolding set by (rule evolves_trans [OF e1 e2]) (rule inquired_rel_insert)
      moreover have "notifies w (?D (set (take (Suc i) ?ps))) u"
      proof (rule notifies_trans [OF inv e1])
        show "notifies v (\<lambda>k. names {?ps ! i} k \<and> ours v k) u" using u by simp
      next
        fix k
        assume k: "k < num_blocks w" "?D (set (take (Suc i) ?ps)) k"
        then have "own_timeout (c_blocks w ! k) (c_blocks v ! k)"
          using evolvesD(5) [OF e1, of k] by (simp add: inquired_rel_def steps_back_def ours_def)
        then have "ours v k" using k(2) by (simp add: ours_def own_timeout_state)
        then show "?D (set (take i ?ps)) k \<or> names {?ps ! i} k \<and> ours v k"
          using k(2) unfolding set by (auto simp: names_def)
      qed (use v in \<open>auto simp: inquired_rel_def tentative_def own_timeout_state split: if_splits\<close>)
      ultimately show "?I (Suc i) u" using u v same_claims_trans by blast
    qed
  qed
  with n show ?thesis by (simp add: ddhcp_block_process_inquire_def time_null_def) (elim ok_mono, simp)
qed

subsection \<open>Any datagram\<close>

lemma ntoh_body_world:
  assumes "ntoh_body c n bs w = Some (r, w')"
  shows "w' = w \<or> w' = w\<lparr>w_allocs := stl (w_allocs w)\<rparr>"
  using assms by (auto simp: ntoh_body_def bind_eq_Some_conv calloc_def split: if_splits)

lemma ntoh_world:
  assumes "ntoh_mcast_packet buffer len w = Some (r, w')"
  shows "w' = w \<or> w' = w\<lparr>w_allocs := stl (w_allocs w)\<rparr>"
proof -
  have "w' = w \<or> (\<exists>c n bs body. ntoh_body c n bs w = Some (body, w'))"
    using assms unfolding ntoh_mcast_packet_def
    by (auto simp: bind_eq_Some_conv Let_def split: if_splits)
  then show ?thesis using ntoh_body_world by blast
qed

text \<open>
  What another node's datagram does to a block: nothing when it does not decode or is about
  another network, what its claims do, or what its inquiries do.
\<close>

definition block_msg_rel ::
  "u8 list \<Rightarrow> int \<Rightarrow> in6_addr \<Rightarrow> world \<Rightarrow> nat \<Rightarrow> ddhcp_block \<Rightarrow> ddhcp_block \<Rightarrow> bool" where
  "block_msg_rel buffer len sender w k b b' = (case ntoh_mcast_packet buffer len w of
       Some (Inr p, _) \<Rightarrow>
         if ddhcp_check_packet p w = 0 \<and> m_command p = DDHCP_MSG_UPDATECLAIM
         then taken_rel (set (payload_list p)) p sender (shd (w_times w)) w k b b'
         else if ddhcp_check_packet p w = 0 \<and> m_command p = DDHCP_MSG_INQUIRE
         then inquired_rel (set (payload_list p)) p (shd (w_times w)) w k b b'
         else b' = b
     | _ \<Rightarrow> b' = b)"

lemma ddhcp_block_process_ok:
  assumes inv: "wf_state w" and buf: "16 \<le> length buffer" "0 \<le> len" "len \<le> int (length buffer)"
    and sender: "length sender = 16"
  shows "ok (ddhcp_block_process buffer len sender w) (\<lambda>w'.
    evolves (block_msg_rel buffer len sender w) w w' \<and> same_claims w w')"
proof -
  obtain r v where rv: "ntoh_mcast_packet buffer len w = Some (r, v)"
    using ntoh_mcast_total [OF buf, of w] by auto
  note v = ntoh_world [OF rv]
  have env: "env_change w v" "w_times v = w_times w" using v by auto
  have same: "evolves (\<lambda>k b b'. b' = b) w v \<and> same_claims w v"
    using env inv by (auto simp: env_change_claims intro: env_change_evolves)
  show ?thesis
  proof (cases r)
    case (Inl e)
    then show ?thesis using rv same by (simp add: ddhcp_block_process_def block_msg_rel_def [abs_def])
  next
    case (Inr p)
    have "wf_mcast p" using hton_ntoh_lemma rv Inr buf(2) by blast
    then have p: "length (m_node_id p) = 8"
      "m_command p = DDHCP_MSG_UPDATECLAIM \<or> m_command p = DDHCP_MSG_INQUIRE \<Longrightarrow>
        unat (m_count p) = length (payload_list p)"
      by (cases "m_body p"; auto simp: wf_mcast_def payload_list_def ddhcp_msgs)+
    have chk: "ddhcp_check_packet p v = ddhcp_check_packet p w"
      using env(1) by (simp add: ddhcp_check_packet_def env_change_def same_params_def)
    let ?s = "\<lambda>st. statistics_record st 1 v"
    have envs: "env_change w (?s st)" for st using env(1) env_change_calls(5) by (rule env_change_trans)
    note invs = env_change_inv [OF envs inv]
    have sp: "same_params w (?s st)" for st using envs [of st] by (simp add: env_change_def)
    have now: "w_times (?s st) = w_times w" for st using env(2) by (simp add: statistics_record_def)
    have post: "evolves Q w u \<and> same_claims w u" if "evolves Q (?s st) u" "same_claims (?s st) u" for Q st u
    proof -
      have e0: "evolves (\<lambda>k b b'. b' = b) w (?s st)" using envs inv by (auto intro: env_change_evolves)
      have "evolves Q w u" by (rule evolves_trans [OF e0 that(1)]) simp
      then show ?thesis using that(2) env_change_claims [OF envs] same_claims_trans by blast
    qed
    consider (claim) "ddhcp_check_packet p w = 0" "m_command p = DDHCP_MSG_UPDATECLAIM"
      | (inq) "ddhcp_check_packet p w = 0" "m_command p = DDHCP_MSG_INQUIRE"
      | (other) "ddhcp_check_packet p w = 0 \<longrightarrow> m_command p \<noteq> DDHCP_MSG_UPDATECLAIM \<and> m_command p \<noteq> DDHCP_MSG_INQUIRE"
      by blast
    then show ?thesis
    proof cases
      case claim
      let ?v = "?s STAT_MCAST_RECV_UPDATECLAIM"
      have "ok (ddhcp_block_process_claims p sender ?v) (\<lambda>u.
          evolves (taken_rel (set (payload_list p)) p sender (shd (w_times ?v)) ?v) ?v u \<and> same_claims ?v u)"
        using claim p sender invs by (intro ok_mono [OF process_claims_ok]) auto
      then have "ok (ddhcp_block_process_claims p sender ?v) (\<lambda>u.
          evolves (taken_rel (set (payload_list p)) p sender (shd (w_times w)) w) w u \<and> same_claims w u)"
        unfolding taken_rel_cong [OF sp] now by (elim ok_mono, intro post) auto
      then show ?thesis
        using claim chk rv Inr by (simp add: ddhcp_block_process_def block_msg_rel_def [abs_def])
    next
      case inq
      let ?v = "?s STAT_MCAST_RECV_INQUIRE"
      have "ok (ddhcp_block_process_inquire p ?v) (\<lambda>u.
          evolves (inquired_rel (set (payload_list p)) p (shd (w_times ?v)) ?v) ?v u \<and> same_claims ?v u)"
        using inq p invs by (intro ok_mono [OF process_inquires_ok]) auto
      then have "ok (ddhcp_block_process_inquire p ?v) (\<lambda>u.
          evolves (inquired_rel (set (payload_list p)) p (shd (w_times w)) w) w u \<and> same_claims w u)"
        unfolding inquired_rel_cong [OF sp] now by (elim ok_mono, intro post) auto
      then show ?thesis
        using inq chk rv Inr by (simp add: ddhcp_block_process_def block_msg_rel_def [abs_def] ddhcp_msgs)
    next
      case other
      then show ?thesis
        using chk rv Inr same by (auto simp: ddhcp_block_process_def block_msg_rel_def [abs_def])
    qed
  qed
qed

subsection \<open>Two nodes and one block\<close>

text \<open>Two nodes of one network: all but their identifiers agree.\<close>

definition same_network :: "world \<Rightarrow> world \<Rightarrow> bool" where
  "same_network w v \<longleftrightarrow> c_prefix v = c_prefix w \<and> c_prefix_len v = c_prefix_len w \<and>
     c_block_size v = c_block_size w \<and> c_number_of_blocks v = c_number_of_blocks w"

lemma wf_update_packet:
  assumes "wf_state w" "length ks \<le> UPDATE_CLAIM_MAX_BLOCKS"
  shows "wf_mcast (update_packet w ks)"
proof -
  have "unat (of_nat (length ks) :: u8) = length ks"
    using assms(2) by (intro of_nat_inverse) (simp_all add: UPDATE_CLAIM_MAX_BLOCKS_def)
  then show ?thesis
    using inv_params [OF assms(1)]
    by (auto simp: wf_mcast_def update_packet_def valid_claim_def update_claim_def wf_params_def ddhcp_msgs)
qed

text \<open>
  A node that receives the claims of another one keeps a block of its own exactly when the
  sender has the lower identifier.
\<close>

lemma claim_received:
  assumes w: "wf_state w" and v: "wf_state v" and net: "same_network w v"
    and ks: "length ks \<le> UPDATE_CLAIM_MAX_BLOCKS" "\<forall>k \<in> set ks. k < num_blocks v"
    and bs: "hton_packet (update_packet v ks) = Some bs" and mem: "shd (w_allocs w)"
    and sender: "length sender = 16" and k: "k \<in> set ks" "ours w k"
  shows "ok (ddhcp_block_process (bs @ r) (int (length bs)) sender w) (\<lambda>w'. wf_state w' \<and>
    (ours w' k \<longleftrightarrow> memcmp (c_node_id v) (c_node_id w) < 0) \<and>
    (\<not> ours w' k \<longrightarrow> b_state (c_blocks w' ! k) = DDHCP_CLAIMED \<and> b_node_id (c_blocks w' ! k) = c_node_id v \<and>
      b_owner_address (c_blocks w' ! k) = sender))"
proof -
  let ?p = "update_packet v ks"
  have dec: "ntoh_mcast_packet (bs @ r) (int (length bs)) w = Some (Inr ?p, w\<lparr>w_allocs := stl (w_allocs w)\<rparr>)"
    and size: "int (length bs) = packet_size (m_command ?p) (uint (m_count ?p))"
    using ntoh_hton_lemma [OF wf_update_packet [OF v ks(1)] mem, of r] bs by auto
  have "16 \<le> int (length bs)"
    unfolding size using uint_ge_0 [of "m_count ?p"] by (simp add: update_packet_def packet_size_def ddhcp_msgs)
  then have len: "16 \<le> length bs" by simp
  have kn: "k < num_blocks w" using k ks(2) net by (simp add: same_network_def)
  have chk: "ddhcp_check_packet ?p w = 0"
    using net inv_params [OF w] by (simp add: ddhcp_check_packet_def update_packet_def same_network_def)
  have idx: "unat (y_block_index (update_claim v k)) = k"
    using inv_block [OF v] k ks(2) unat_u32_less [of "c_number_of_blocks v"]
    by (auto simp: update_claim_def wf_block_def unat_of_nat)
  then have named: "names (set (payload_list ?p)) k"
    using k by (auto simp: names_def payload_list_def update_packet_def)
  have "ok (ddhcp_block_process (bs @ r) (int (length bs)) sender w) (\<lambda>w'.
      evolves (block_msg_rel (bs @ r) (int (length bs)) sender w) w w' \<and> same_claims w w')"
    using len sender by (intro ddhcp_block_process_ok [OF w]) simp_all
  then show ?thesis
  proof (rule ok_mono, elim conjE)
    fix w'
    assume ev: "evolves (block_msg_rel (bs @ r) (int (length bs)) sender w) w w'"
    then have "taken_rel (set (payload_list ?p)) ?p sender (shd (w_times w)) w k (c_blocks w ! k) (c_blocks w' ! k)"
      using evolvesD(5) [OF ev kn] dec chk by (simp add: block_msg_rel_def) (simp add: update_packet_def)
    then show "wf_state w' \<and> (ours w' k \<longleftrightarrow> memcmp (c_node_id v) (c_node_id w) < 0) \<and>
      (\<not> ours w' k \<longrightarrow> b_state (c_blocks w' ! k) = DDHCP_CLAIMED \<and> b_node_id (c_blocks w' ! k) = c_node_id v \<and>
        b_owner_address (c_blocks w' ! k) = sender)"
      using evolvesD(1) [OF ev] k(2) named
      by (auto simp: taken_rel_def yields_def ours_def claim_taken_def own_timeout_def update_packet_def split: if_splits)
  qed
qed

text \<open>Two owners of one block that hear each other's claims end up with exactly one.\<close>

lemma claim_conflict_ok:
  assumes w: "wf_state w" and v: "wf_state v" and net: "same_network w v" "c_node_id w \<noteq> c_node_id v"
    and ks: "length ks \<le> UPDATE_CLAIM_MAX_BLOCKS" "\<forall>k \<in> set ks. k < num_blocks v"
    and js: "length js \<le> UPDATE_CLAIM_MAX_BLOCKS" "\<forall>k \<in> set js. k < num_blocks w"
    and bs: "hton_packet (update_packet v ks) = Some bs" "hton_packet (update_packet w js) = Some cs"
    and mem: "shd (w_allocs w)" "shd (w_allocs v)" and sender: "length a = 16" "length b = 16"
    and k: "k \<in> set ks" "k \<in> set js" "ours w k" "ours v k"
  shows "ok (ddhcp_block_process bs (int (length bs)) b w) (\<lambda>w'.
    ok (ddhcp_block_process cs (int (length cs)) a v) (\<lambda>v'.
      if memcmp (c_node_id w) (c_node_id v) < 0 then \<not> ours w' k \<and> ours v' k \<and> b_node_id (c_blocks w' ! k) = c_node_id v
      else ours w' k \<and> \<not> ours v' k \<and> b_node_id (c_blocks v' ! k) = c_node_id w))"
proof -
  have net': "same_network v w" using net(1) by (simp add: same_network_def)
  have ids: "length (c_node_id w) = 8" "length (c_node_id v) = 8"
    using wf_params_D(1) [OF inv_params [OF w]] wf_params_D(1) [OF inv_params [OF v]] by simp_all
  then have cmp: "memcmp (c_node_id v) (c_node_id w) < 0 \<longleftrightarrow> \<not> memcmp (c_node_id w) (c_node_id v) < 0"
    using memcmp_antisym [of "c_node_id w" "c_node_id v"] memcmp_eq_0 [of "c_node_id w" "c_node_id v"] net(2) by auto
  from claim_received [OF w v net(1) ks bs(1) mem(1) sender(2) k(1,3), of "[]"]
    claim_received [OF v w net' js bs(2) mem(2) sender(1) k(2,4), of "[]"]
  show ?thesis using cmp by (auto simp: ok_iff)
qed

end
