(* ===== verification/Ddhcp_Lease.thy ===== *)
theory Ddhcp_Lease
  imports Dhcp_Serve Ddhcp_Inv
begin

text \<open>
  The direct messages: a node that serves a client of a foreign block asks the owner
  (RENEWLEASE), the owner prolongs the lease and answers (LEASEACK, LEASENAK), and the
  asking node answers its client from the request it kept.
\<close>

subsection \<open>Answering a renewal\<close>

definition lease_packet :: "u8 \<Rightarrow> ddhcp_renew_payload \<Rightarrow> world \<Rightarrow> ddhcp_mcast_packet" where
  "lease_packet command renew w = \<lparr>m_node_id = c_node_id w, m_prefix = c_prefix w,
     m_prefix_len = c_prefix_len w, m_blocksize = c_block_size w, m_command = command, m_count = 0,
     m_sender = None, m_body = Renew renew\<rparr>"

lemma wf_lease_packet:
  assumes "wf_state w" "valid_renew renew" "command = DDHCP_MSG_LEASEACK \<or> command = DDHCP_MSG_LEASENAK"
  shows "wf_mcast (lease_packet command renew w)"
    "0 \<le> packet_size (m_command (lease_packet command renew w)) (uint (m_count (lease_packet command renew w)))"
  using assms inv_params [OF assms(1)]
  by (auto simp: wf_mcast_def lease_packet_def wf_params_def packet_size_def ddhcp_msgs)

definition lease_sent :: "u8 \<Rightarrow> ddhcp_renew_payload \<Rightarrow> in6_addr \<Rightarrow> world \<Rightarrow> world \<Rightarrow> bool" where
  "lease_sent command renew sender w w' \<longleftrightarrow>
     (\<exists>bs. hton_packet (lease_packet command renew w) = Some bs \<and>
       w_out w' = w_out w @ [Direct_send sender bs]) \<or>
     \<not> reliable w \<and> w_out w' = w_out w"

text \<open>The second half of \<open>ddhcp_dhcp_renewlease\<close>.\<close>

definition answer_renew :: "u8 \<Rightarrow> stat \<Rightarrow> ddhcp_renew_payload \<Rightarrow> in6_addr \<Rightarrow> world \<Rightarrow> world option" where
  "answer_renew command s renew sender w = do {
     let (answer, w) = new_ddhcp_packet command w;
     let w = statistics_record s 1 w;
     case answer of
       None \<Rightarrow> Some w
     | Some answer \<Rightarrow> do {
         let w = statistics_record STAT_DIRECT_SEND_PKG 1 w;
         (bytes_send, w) \<leftarrow> send_packet_direct (answer\<lparr>m_body := Renew renew\<rparr>) sender w;
         Some (statistics_record STAT_DIRECT_SEND_BYTE bytes_send w) } }"

lemma renewlease_eq:
  "ddhcp_dhcp_renewlease packet sender w = do {
     renew \<leftarrow> renew_payload packet;
     (ret, w) \<leftarrow> dhcp_rhdl_request (r_address renew) w;
     if ret = 0 then answer_renew DDHCP_MSG_LEASEACK STAT_DIRECT_SEND_LEASEACK renew sender w
     else if ret = 1 then answer_renew DDHCP_MSG_LEASENAK STAT_DIRECT_SEND_LEASENAK renew sender w
     else Some w }"
  by (auto simp: ddhcp_dhcp_renewlease_def answer_renew_def intro!: Option.bind_cong)

lemma answer_renew_ok:
  assumes inv: "wf_state w" and valid: "valid_renew renew"
    and c: "command = DDHCP_MSG_LEASEACK \<or> command = DDHCP_MSG_LEASENAK"
  shows "ok (answer_renew command s renew sender w) (\<lambda>w'. quiet w w' \<and> lease_sent command renew sender w w')"
proof (cases "shd (w_allocs w)")
  case False
  then have "\<not> reliable w" using reliable_now(1) [of w] by blast
  with False show ?thesis
    by (simp add: answer_renew_def new_ddhcp_packet_def calloc_def lease_sent_def quiet_def statistics_record_def
        env_change_def same_params_def)
next
  case True
  obtain bs where bs: "hton_packet (lease_packet command renew w) = Some bs"
    using wf_packet_hton [OF wf_lease_packet(1) [OF inv valid c]] by blast
  let ?v = "statistics_record STAT_DIRECT_SEND_PKG 1 (statistics_record s 1 (w\<lparr>w_allocs := stl (w_allocs w)\<rparr>))"
  have v: "quiet w ?v" "w_out ?v = w_out w" "w_allocs ?v = stl (w_allocs w)"
    by (simp_all add: quiet_def statistics_record_def env_change_def same_params_def)
  obtain n u where u: "send_packet (Direct_send sender) (lease_packet command renew w) ?v = Some (n, u)"
    "env_change ?v u" "c_dhcp_packet_cache u = c_dhcp_packet_cache ?v"
    "w_out u = w_out ?v @ (if shd (w_allocs ?v) then [Direct_send sender bs] else [])"
    using send_packet_exact [OF bs, of "Direct_send sender" ?v] wf_lease_packet(2) [OF inv valid c] by auto
  have "answer_renew command s renew sender w = Some (statistics_record STAT_DIRECT_SEND_BYTE n u)"
    using True u(1)
    by (simp add: answer_renew_def new_ddhcp_packet_def calloc_def send_packet_direct_def lease_packet_def)
  moreover have "quiet w (statistics_record STAT_DIRECT_SEND_BYTE n u)"
    using v(1) u(2,3) by (auto simp: quiet_def statistics_record_def env_change_def same_params_def)
  moreover have "lease_sent command renew sender w (statistics_record STAT_DIRECT_SEND_BYTE n u)"
    using u(4) v(2,3) bs reliable_allocs [of w] by (auto simp: lease_sent_def statistics_record_def)
  ultimately show ?thesis by simp
qed

text \<open>
  What a renewal of another node does: an address outside the network is ignored, one in a
  foreign block is refused, and one in an own block is prolonged and acknowledged.
\<close>

definition renewed :: "ddhcp_renew_payload \<Rightarrow> in6_addr \<Rightarrow> world \<Rightarrow> world \<Rightarrow> bool" where
  "renewed renew sender w w' \<longleftrightarrow> same_claims w w' \<and> c_dhcp_packet_cache w' = c_dhcp_packet_cache w \<and>
     (let a = store32 (w_little_endian w) (r_address renew) in
      (\<forall>i j. i < num_blocks w \<longrightarrow> j < unat (c_block_size w) \<longrightarrow> a \<noteq> lease_address w i j) \<and>
        quiet w w' \<and> w_out w' = w_out w \<or>
      (\<exists>i j. i < num_blocks w \<and> j < unat (c_block_size w) \<and> a = lease_address w i j \<and>
        (if b_state (c_blocks w ! i) = DDHCP_OURS
         then evolves (lease_rel i j prolonged) w w' \<and> lease_sent DDHCP_MSG_LEASEACK renew sender w w'
         else quiet w w' \<and> lease_sent DDHCP_MSG_LEASENAK renew sender w w')))"

lemma renewedI:
  assumes "same_claims w w'" "c_dhcp_packet_cache w' = c_dhcp_packet_cache w" "i < num_blocks w"
    "j < unat (c_block_size w)" "store32 (w_little_endian w) (r_address renew) = lease_address w i j"
    "if b_state (c_blocks w ! i) = DDHCP_OURS
     then evolves (lease_rel i j prolonged) w w' \<and> lease_sent DDHCP_MSG_LEASEACK renew sender w w'
     else quiet w w' \<and> lease_sent DDHCP_MSG_LEASENAK renew sender w w'"
  shows "renewed renew sender w w'"
  unfolding renewed_def Let_def using assms by blast

lemma lease_sent_cong:
  "same_params w v \<Longrightarrow> w_out v = w_out w \<Longrightarrow> reliable w \<longrightarrow> reliable v \<Longrightarrow>
    lease_sent c renew sender v w' \<Longrightarrow> lease_sent c renew sender w w'"
  by (auto simp: lease_sent_def lease_packet_def same_params_def)

lemma renewlease_ok:
  assumes inv: "wf_state w" and valid: "valid_renew renew" and body: "renew_payload packet = Some renew"
  shows "ok (ddhcp_dhcp_renewlease packet sender w) (renewed renew sender w)"
proof -
  let ?a = "store32 (w_little_endian w) (r_address renew)"
  obtain r v where rv: "dhcp_rhdl_request (r_address renew) w = Some (r, v)"
    and v: "c_dhcp_packet_cache v = c_dhcp_packet_cache w" "same_claims w v" "calm w v"
    and cases: "r = 2 \<and> quiet w v \<and> (\<forall>i j. i < num_blocks w \<longrightarrow> j < unat (c_block_size w) \<longrightarrow> ?a \<noteq> lease_address w i j) \<or>
     (\<exists>i j. i < num_blocks w \<and> j < unat (c_block_size w) \<and> ?a = lease_address w i j \<and>
       (r = 1 \<and> quiet w v \<and> b_state (c_blocks w ! i) \<noteq> DDHCP_OURS \<or>
        r = 0 \<and> b_state (c_blocks w ! i) = DDHCP_OURS \<and> evolves (lease_rel i j prolonged) w v))"
    using dhcp_rhdl_request_ok [OF inv, of "r_address renew"] by (auto simp: ok_iff)
  have sent: "lease_sent c renew sender w w'" if "same_params w v" "lease_sent c renew sender v w'" for c w'
    using that v(3) by (intro lease_sent_cong [OF that(1) _ _ that(2)]) (simp_all add: calm_def)
  have claims: "same_claims w w' \<and> c_dhcp_packet_cache w' = c_dhcp_packet_cache w" if "quiet v w'" for w'
    using that v(1,2) same_claims_trans env_change_claims by (auto simp: quiet_def)
  from cases consider (outside) "r = 2" "quiet w v"
      "\<forall>i j. i < num_blocks w \<longrightarrow> j < unat (c_block_size w) \<longrightarrow> ?a \<noteq> lease_address w i j"
    | (foreign) i j where "i < num_blocks w" "j < unat (c_block_size w)" "?a = lease_address w i j"
      "r = 1" "quiet w v" "b_state (c_blocks w ! i) \<noteq> DDHCP_OURS"
    | (own) i j where "i < num_blocks w" "j < unat (c_block_size w)" "?a = lease_address w i j"
      "r = 0" "b_state (c_blocks w ! i) = DDHCP_OURS" "evolves (lease_rel i j prolonged) w v"
    by blast
  then show ?thesis
  proof cases
    case outside
    then show ?thesis using rv v body by (simp add: renewlease_eq renewed_def calm_def)
  next
    case (foreign i j)
    have invv: "wf_state v" and sp: "same_params w v"
      using foreign(5) inv env_change_inv by (auto simp: quiet_def env_change_def)
    have "ok (answer_renew DDHCP_MSG_LEASENAK STAT_DIRECT_SEND_LEASENAK renew sender v) (renewed renew sender w)"
      by (rule ok_mono [OF answer_renew_ok [OF invv valid disjI2 [OF refl]]])
        (use foreign claims quiet_trans [OF foreign(5)] sent [OF sp] in \<open>auto intro: renewedI [of _ _ i j]\<close>)
    then show ?thesis using rv foreign(4) body by (simp add: renewlease_eq)
  next
    case (own i j)
    have sp: "same_params w v" using evolvesD(2) [OF own(6)] by (simp add: keeps_def)
    have "ok (answer_renew DDHCP_MSG_LEASEACK STAT_DIRECT_SEND_LEASEACK renew sender v) (renewed renew sender w)"
      by (rule ok_mono [OF answer_renew_ok [OF evolvesD(1) [OF own(6)] valid disjI1 [OF refl]]])
        (use own claims evolves_env_r [OF own(6)] quiet_env sent [OF sp] in \<open>auto intro: renewedI [of _ _ i j]\<close>)
    then show ?thesis using rv own(4) body by (simp add: renewlease_eq)
  qed
qed

subsection \<open>The answer of the owner\<close>

text \<open>
  The address the waiting request asks for. While the lease array of its block is gone, for
  instance because the foreign claim timed out in between, an acknowledgement makes the
  code follow a NULL pointer.
\<close>

definition ack_address :: "dhcp_packet \<Rightarrow> in_addr" where
  "ack_address p = (case requested_address p of Some (Some a) \<Rightarrow> a | _ \<Rightarrow> zero_addr)"

definition ack_at :: "dhcp_packet \<Rightarrow> world \<Rightarrow> nat \<Rightarrow> nat \<Rightarrow> bool" where
  "ack_at p w i j \<longleftrightarrow> i < num_blocks w \<and> j < unat (c_block_size w) \<and> ack_address p = lease_address w i j \<and>
     b_state (c_blocks w ! i) \<noteq> DDHCP_OURS"

definition acknowledged :: "dhcp_packet \<Rightarrow> world \<Rightarrow> int \<Rightarrow> world \<Rightarrow> bool" where
  "acknowledged p w r w' \<longleftrightarrow>
     r = 1 \<and> w' = w \<and> (\<forall>i j. \<not> ack_at p w i j) \<or> (\<exists>i j. ack_at p w i j \<and> grants p i j w r w')"

lemma rhdl_ack_cases:
  assumes inv: "wf_state w" and wf: "wf_dhcp_packet p" and ad: "requested_address p \<noteq> None"
  obtains (none) "dhcp_rhdl_ack p w = Some (1, w)" "\<And>i j. \<not> ack_at p w i j"
  | (ack) i j where "dhcp_rhdl_ack p w = dhcp_ack p i (of_nat j) w" "ack_at p w i j"
proof -
  obtain a where a: "requested_address p = Some a" "\<And>x. a = Some x \<Longrightarrow> length x = 4"
    using ad requested_address_length wf by (auto simp: wf_dhcp_packet_def)
  have len: "length (ack_address p) = 4"
    using a by (cases a) (simp_all add: ack_address_def zero_addr_def)
  have eq: "dhcp_rhdl_ack p w = do {
     (found, lease_block, lease_index) \<leftarrow> find_lease_from_address (ack_address p) w;
     if found \<noteq> 1 then Some (1, w) else do { i \<leftarrow> lease_block; dhcp_ack p i lease_index w } }"
    using a(1) by (cases a) (simp_all add: dhcp_rhdl_ack_def ack_address_def)
  from inv len show thesis
  proof (cases rule: find_lease_cases)
    case outside
    then show thesis by (intro none) (auto simp: eq ack_at_def)
  next
    case (inside i j)
    show thesis
    proof (cases "b_state (c_blocks w ! i) = DDHCP_OURS")
      case True
      have "\<not> ack_at p w k m" for k m
        using True inside lease_address_inj [OF inv, of k m i j] by (auto simp: ack_at_def)
      then show thesis using True inside(4) by (intro none) (simp_all add: eq)
    next
      case False
      then show thesis using inside by (intro ack [of i j]) (simp_all add: eq ack_at_def)
    qed
  qed
qed

lemma rhdl_ack_ok:
  assumes inv: "wf_state w" and wf: "wf_dhcp_packet p" and ad: "requested_address p \<noteq> None"
    and arr: "\<And>i j. ack_at p w i j \<Longrightarrow> b_addresses (c_blocks w ! i) \<noteq> None"
  shows "ok (dhcp_rhdl_ack p w) (\<lambda>(r, w'). acknowledged p w r w')"
  using inv wf ad
proof (cases rule: rhdl_ack_cases)
  case none
  then show ?thesis by (simp add: acknowledged_def)
next
  case (ack i j)
  then obtain ls where ls: "b_addresses (c_blocks w ! i) = Some ls" using arr by blast
  have ij: "i < num_blocks w" "j < unat (c_block_size w)" using ack(2) by (simp_all add: ack_at_def)
  have "length ls = unat (c_block_size w)" using inv_leases(1) [OF inv ij(1) ls] .
  then have "ok (dhcp_ack p i (of_nat j) w) (\<lambda>(r, w'). grants p i j w r w')"
    using dhcp_ack_ok [OF inv ij(1) ls _ wf, of j] ij unfolding grants_def by simp
  then show ?thesis using ack by (auto simp: ok_iff acknowledged_def)
qed

text \<open>The code after the lease array is gone.\<close>

lemma rhdl_ack_stuck:
  assumes inv: "wf_state w" and wf: "wf_dhcp_packet p" and ad: "requested_address p \<noteq> None" and mem: "shd (w_allocs w)"
    and at: "ack_at p w i j" "b_addresses (c_blocks w ! i) = None"
  shows "dhcp_rhdl_ack p w = None"
  using inv wf ad
proof (cases rule: rhdl_ack_cases)
  case none
  then show ?thesis using at by blast
next
  case (ack k m)
  then have "k = i" using at(1) lease_address_inj [OF inv, of k m i j] by (auto simp: ack_at_def)
  moreover have "i < length (c_blocks w)" using at(1) inv by (simp add: ack_at_def inv_length)
  ultimately show ?thesis
    using ack(1) at(2) mem
    by (simp add: dhcp_ack_def time_null_def build_initial_packet_def calloc_def get_lease_def block_leases_def nth_opt_def)
qed

lemma dhcp_ack_no_memory: "\<not> shd (w_allocs w) \<Longrightarrow> dhcp_ack p i n w \<noteq> None"
  by (simp add: dhcp_ack_def time_null_def build_initial_packet_def calloc_def Let_def)

lemma rhdl_ack_None:
  assumes inv: "wf_state w" and wf: "wf_dhcp_packet p"
  shows "dhcp_rhdl_ack p w = None \<longleftrightarrow> requested_address p = None \<or>
    shd (w_allocs w) \<and> (\<exists>i j. ack_at p w i j \<and> b_addresses (c_blocks w ! i) = None)"
proof (cases "requested_address p = None")
  case True
  then show ?thesis by (simp add: dhcp_rhdl_ack_def)
next
  case ad: False
  from inv wf ad show ?thesis
  proof (cases rule: rhdl_ack_cases)
    case none
    then show ?thesis using ad by simp
  next
    case (ack i j)
    have only: "k = i" if "ack_at p w k m" for k m
      using that ack(2) lease_address_inj [OF inv, of k m i j] by (auto simp: ack_at_def)
    show ?thesis
    proof (cases "shd (w_allocs w)")
      case False
      then show ?thesis using ack(1) ad dhcp_ack_no_memory [OF False, of p i "of_nat j"] by metis
    next
      case mem: True
      show ?thesis
      proof (cases "b_addresses (c_blocks w ! i)")
        case None
        then show ?thesis using ack rhdl_ack_stuck [OF inv wf ad mem ack(2)] mem by auto
      next
        case (Some ls)
        then have "ok (dhcp_rhdl_ack p w) (\<lambda>(r, w'). acknowledged p w r w')"
          using only by (intro rhdl_ack_ok [OF inv wf ad]) auto
        then show ?thesis using ad only Some by (auto simp: ok_iff)
      qed
    qed
  qed
qed

text \<open>The waiting request that an answer belongs to leaves the cache.\<close>

definition waiting :: "ddhcp_renew_payload \<Rightarrow> world \<Rightarrow> dhcp_packet option" where
  "waiting renew w = find (answers (r_xid renew) (r_chaddr renew)) (c_dhcp_packet_cache w)"

definition forget :: "ddhcp_renew_payload \<Rightarrow> world \<Rightarrow> world" where
  "forget renew w = w\<lparr>c_dhcp_packet_cache :=
     takeWhile (\<lambda>p. \<not> answers (r_xid renew) (r_chaddr renew) p) (c_dhcp_packet_cache w) @
     tl (dropWhile (\<lambda>p. \<not> answers (r_xid renew) (r_chaddr renew) p) (c_dhcp_packet_cache w))\<rparr>"

lemma forget_env: "env_change w (forget renew w)"
  by (simp add: forget_def)

lemma forget_none: "waiting renew w = None \<Longrightarrow> forget renew w = w"
proof -
  assume "waiting renew w = None"
  then have n: "\<forall>p \<in> set (c_dhcp_packet_cache w). \<not> answers (r_xid renew) (r_chaddr renew) p"
    by (auto simp: waiting_def find_None_iff)
  have t: "takeWhile (\<lambda>p. \<not> answers (r_xid renew) (r_chaddr renew) p) (c_dhcp_packet_cache w) = c_dhcp_packet_cache w"
    using n by (simp add: takeWhile_eq_all_conv)
  have d: "dropWhile (\<lambda>p. \<not> answers (r_xid renew) (r_chaddr renew) p) (c_dhcp_packet_cache w) = []"
    using n by (simp add: dropWhile_eq_Nil_conv)
  show ?thesis unfolding forget_def t d by simp
qed

lemma ack_at_env: "env_change w v \<Longrightarrow> ack_at p v i j = ack_at p w i j"
  by (simp add: ack_at_def env_change_def same_params_def lease_address_def block_subnet_def)

lemma ack_at_forget [simp]: "ack_at p (forget renew w) i j = ack_at p w i j"
  by (rule ack_at_env [OF forget_env])

lemma forget_blocks [simp]: "c_blocks (forget renew w) = c_blocks w"
  by (simp add: forget_def)

definition cache_ok :: "world \<Rightarrow> bool" where
  "cache_ok w \<longleftrightarrow> (\<forall>p \<in> set (c_dhcp_packet_cache w). wf_dhcp_packet p \<and> addressable p)"

definition ack_ready :: "world \<Rightarrow> bool" where
  "ack_ready w \<longleftrightarrow> (\<forall>p \<in> set (c_dhcp_packet_cache w). \<forall>i j. ack_at p w i j \<longrightarrow> b_addresses (c_blocks w ! i) \<noteq> None)"

lemma ack_readyD:
  "ack_ready w \<Longrightarrow> p \<in> set (c_dhcp_packet_cache w) \<Longrightarrow> ack_at p w i j \<Longrightarrow> b_addresses (c_blocks w ! i) \<noteq> None"
  by (simp add: ack_ready_def) blast

lemma ready_cong:
  "quiet w v \<Longrightarrow> cache_ok v = cache_ok w" "quiet w v \<Longrightarrow> ack_ready v = ack_ready w"
  using ack_at_env [of w v] by (simp_all add: cache_ok_def ack_ready_def quiet_def env_change_def)

lemma waiting_in: "waiting renew w = Some p \<Longrightarrow> p \<in> set (c_dhcp_packet_cache w)"
  by (auto simp: waiting_def find_Some_iff)

lemma leaseack_ok:
  assumes inv: "wf_state w" and cache: "cache_ok w" "ack_ready w" and body: "renew_payload packet = Some renew"
  shows "ok (ddhcp_dhcp_leaseack packet w) (\<lambda>w'. case waiting renew w of
      None \<Rightarrow> w' = w | Some p \<Rightarrow> \<exists>r. acknowledged p (forget renew w) r w')"
proof -
  have eq: "ddhcp_dhcp_leaseack packet w = (case waiting renew w of None \<Rightarrow> Some (forget renew w)
      | Some p \<Rightarrow> do { (_, w) \<leftarrow> dhcp_rhdl_ack p (forget renew w); _ \<leftarrow> dhcp_packet_free p; Some w })"
    using body by (cases "find (answers (r_xid renew) (r_chaddr renew)) (c_dhcp_packet_cache w)")
      (simp_all add: ddhcp_dhcp_leaseack_def dhcp_packet_list_find_eq waiting_def forget_def)
  show ?thesis
  proof (cases "waiting renew w")
    case None
    then show ?thesis by (simp add: eq forget_none)
  next
    case (Some p)
    note mem = waiting_in [OF Some]
    have "ok (dhcp_rhdl_ack p (forget renew w)) (\<lambda>(r, w'). acknowledged p (forget renew w) r w')"
      using mem cache(1) env_change_inv [OF forget_env inv] ack_readyD [OF cache(2) mem]
      by (intro rhdl_ack_ok) (simp_all add: cache_ok_def addressable_requested)
    moreover have "dhcp_packet_free p = Some ()" using mem cache(1) by (simp add: cache_ok_def free_wf)
    ultimately show ?thesis by (auto simp: eq Some ok_iff)
  qed
qed

lemma leasenak_ok:
  assumes inv: "wf_state w" and cache: "cache_ok w" and body: "renew_payload packet = Some renew"
  shows "ok (ddhcp_dhcp_leasenak packet w) (\<lambda>w'. case waiting renew w of
      None \<Rightarrow> w' = w | Some p \<Rightarrow> refused p (forget renew w) w')"
proof -
  have eq: "ddhcp_dhcp_leasenak packet w = (case waiting renew w of None \<Rightarrow> Some (forget renew w)
      | Some p \<Rightarrow> do { (_, w) \<leftarrow> dhcp_nack p (forget renew w); _ \<leftarrow> dhcp_packet_free p; Some w })"
    using body by (cases "find (answers (r_xid renew) (r_chaddr renew)) (c_dhcp_packet_cache w)")
      (simp_all add: ddhcp_dhcp_leasenak_def dhcp_packet_list_find_eq waiting_def forget_def)
  show ?thesis
  proof (cases "waiting renew w")
    case None
    then show ?thesis by (simp add: eq forget_none)
  next
    case (Some p)
    then have "wf_dhcp_header p" using waiting_in cache by (auto simp: cache_ok_def wf_dhcp_packet_def)
    moreover have "dhcp_packet_free p = Some ()" using waiting_in [OF Some] cache by (simp add: cache_ok_def free_wf)
    ultimately show ?thesis using dhcp_nack_ok [of p "forget renew w"] by (auto simp: eq Some ok_iff)
  qed
qed

subsection \<open>Any direct message\<close>

definition direct_served :: "ddhcp_mcast_packet \<Rightarrow> in6_addr \<Rightarrow> world \<Rightarrow> world \<Rightarrow> bool" where
  "direct_served p sender w w' = (case m_body p of
       Renew renew \<Rightarrow>
         if m_command p = DDHCP_MSG_RENEWLEASE
         then renewed renew sender (statistics_record STAT_DIRECT_RECV_RENEWLEASE 1 w) w'
         else if m_command p = DDHCP_MSG_LEASEACK
         then let v = statistics_record STAT_DIRECT_RECV_LEASEACK 1 w in (case waiting renew w of
             None \<Rightarrow> w' = v | Some q \<Rightarrow> \<exists>r. acknowledged q (forget renew v) r w')
         else let v = statistics_record STAT_DIRECT_RECV_LEASENAK 1 w in (case waiting renew w of
             None \<Rightarrow> w' = v | Some q \<Rightarrow> refused q (forget renew v) w')
     | _ \<Rightarrow> w' = w)"

lemma stat_ready [simp]:
  "cache_ok (statistics_record s n w) = cache_ok w" "ack_ready (statistics_record s n w) = ack_ready w"
  "waiting renew (statistics_record s n w) = waiting renew w"
  using ready_cong [of w "statistics_record s n w"]
  by (simp_all add: quiet_def waiting_def) (simp_all add: statistics_record_def)

lemma ddhcp_dhcp_process_ok:
  assumes inv: "wf_state w" and buf: "16 \<le> length buffer" "0 \<le> len" "len \<le> int (length buffer)"
    and cache: "cache_ok w" "ack_ready w"
  shows "ok (ddhcp_dhcp_process buffer len sender w) (\<lambda>w'. \<exists>r v. ntoh_mcast_packet buffer len w = Some (r, v) \<and>
    (case r of Inl _ \<Rightarrow> w' = v
     | Inr p \<Rightarrow> if ddhcp_check_packet p w = 0 then direct_served p sender v w' else w' = v))"
proof -
  obtain r v where rv: "ntoh_mcast_packet buffer len w = Some (r, v)"
    using ntoh_mcast_total [OF buf, of w] by auto
  have v: "v = w \<or> v = w\<lparr>w_allocs := stl (w_allocs w)\<rparr>" using ntoh_world [OF rv] .
  have invs: "wf_state (statistics_record s 1 v)" for s
  proof (rule env_change_inv [OF _ inv])
    have "env_change w v" using v by (elim disjE) simp_all
    then show "env_change w (statistics_record s 1 v)" using env_change_calls(5) by (rule env_change_trans)
  qed
  have ready: "cache_ok v" "ack_ready v"
  proof -
    from v have "quiet w v" by (elim disjE) simp_all
    with cache show "cache_ok v" "ack_ready v" using ready_cong by blast+
  qed
  have chk: "ddhcp_check_packet p v = ddhcp_check_packet p w" for p
    using v by (elim disjE) (simp_all add: ddhcp_check_packet_def)
  show ?thesis
  proof (cases r)
    case (Inl e)
    then show ?thesis using rv by (simp add: ddhcp_dhcp_process_def)
  next
    case (Inr p)
    have "wf_body (m_command p) (unat (m_count p)) (m_body p)"
      using hton_ntoh_lemma [OF rv [unfolded Inr] buf(2)] by (simp add: wf_mcast_def)
    then consider (pay) ps where "m_body p = Payload ps"
        "m_command p = DDHCP_MSG_UPDATECLAIM \<or> m_command p = DDHCP_MSG_INQUIRE"
      | (ren) renew where "m_body p = Renew renew" "m_command p = DDHCP_MSG_RENEWLEASE" "valid_renew renew"
      | (ack) renew where "m_body p = Renew renew" "m_command p = DDHCP_MSG_LEASEACK"
      | (nak) renew where "m_body p = Renew renew" "m_command p = DDHCP_MSG_LEASENAK"
      by (cases "m_body p") auto
    then show ?thesis
    proof cases
      case pay
      then show ?thesis using rv Inr chk by (auto simp: ddhcp_dhcp_process_def direct_served_def ddhcp_msgs)
    next
      case ren
      from renewlease_ok [OF invs [of STAT_DIRECT_RECV_RENEWLEASE] ren(3), of p sender] ren show ?thesis
        using rv Inr chk by (auto simp: ddhcp_dhcp_process_def direct_served_def renew_payload_def ok_iff)
    next
      case ack
      from leaseack_ok [OF invs [of STAT_DIRECT_RECV_LEASEACK], of p renew] ready ack show ?thesis
        using rv Inr chk
        by (auto simp: ddhcp_dhcp_process_def direct_served_def renew_payload_def ddhcp_msgs ok_iff Let_def)
    next
      case nak
      from leasenak_ok [OF invs [of STAT_DIRECT_RECV_LEASENAK], of p renew] ready nak show ?thesis
        using rv Inr chk
        by (auto simp: ddhcp_dhcp_process_def direct_served_def renew_payload_def ddhcp_msgs ok_iff Let_def)
    qed
  qed
qed

end
