(* ===== verification/Cache_Frame.thy ===== *)
theory Cache_Frame
  imports Ddhcp_Lease
begin

text \<open>
  Only the requests that wait for an answer of another node touch the packet cache: every
  other operation that returns leaves it as it found it.
\<close>

named_theorems frame "what a call leaves in the packet cache"

lemma cache_env [simp]:
  "c_dhcp_packet_cache (put_block i b w) = c_dhcp_packet_cache w"
  "c_dhcp_packet_cache (statistics_record s n w) = c_dhcp_packet_cache w"
  "c_dhcp_packet_cache (snd (time_null w)) = c_dhcp_packet_cache w"
  "c_dhcp_packet_cache (snd (calloc w)) = c_dhcp_packet_cache w"
  "c_dhcp_packet_cache (snd (rand_u32 w)) = c_dhcp_packet_cache w"
  "c_dhcp_packet_cache (snd (sendto e w)) = c_dhcp_packet_cache w"
  "c_dhcp_packet_cache (snd (new_ddhcp_packet c w)) = c_dhcp_packet_cache w"
  "c_dhcp_packet_cache (snd (build_initial_packet p w)) = c_dhcp_packet_cache w"
  "c_dhcp_packet_cache (hook_address t a ch w) = c_dhcp_packet_cache w"
  "c_dhcp_packet_cache (hook t w) = c_dhcp_packet_cache w"
  "c_dhcp_packet_cache (claim_list_del i w) = c_dhcp_packet_cache w"
  by (simp_all add: put_block_def statistics_record_def time_null_def calloc_def rand_u32_def sendto_def
      new_ddhcp_packet_def build_initial_packet_def Let_def hook_address_def hook_def claim_list_del_def split: option.splits)

text \<open>The same on the pairs the calls return.\<close>

lemma cache_call [frame]:
  "(x, w') = time_null w \<Longrightarrow> c_dhcp_packet_cache w' = c_dhcp_packet_cache w"
  "time_null w = (x, w') \<Longrightarrow> c_dhcp_packet_cache w' = c_dhcp_packet_cache w"
  "calloc w = (m, w') \<Longrightarrow> c_dhcp_packet_cache w' = c_dhcp_packet_cache w"
  "rand_u32 w = (r, w') \<Longrightarrow> c_dhcp_packet_cache w' = c_dhcp_packet_cache w"
  "sendto e w = (x, w') \<Longrightarrow> c_dhcp_packet_cache w' = c_dhcp_packet_cache w"
  "new_ddhcp_packet c w = (p, w') \<Longrightarrow> c_dhcp_packet_cache w' = c_dhcp_packet_cache w"
  "build_initial_packet q w = (a, w') \<Longrightarrow> c_dhcp_packet_cache w' = c_dhcp_packet_cache w"
  by (auto dest: arg_cong [where f = snd] arg_cong [where f = "\<lambda>p. c_dhcp_packet_cache (snd p)"])

lemmas frame_splits = if_split_asm option.split_asm prod.split_asm sum.split_asm

lemma block_alloc_frame [frame]: "block_alloc b w = Some (r, w') \<Longrightarrow> c_dhcp_packet_cache w' = c_dhcp_packet_cache w"
  by (auto simp: block_alloc_def Let_def elim!: bindE split: frame_splits dest!: frame)

lemma block_own_frame [frame]: "block_own b w = Some (r, w') \<Longrightarrow> c_dhcp_packet_cache w' = c_dhcp_packet_cache w"
  by (auto simp: block_own_def Let_def elim!: bindE split: frame_splits dest!: frame)

lemma block_free_frame [frame]: "block_free i w = Some w' \<Longrightarrow> c_dhcp_packet_cache w' = c_dhcp_packet_cache w"
  by (auto simp: block_free_def Let_def elim!: bindE dest!: frame)

lemma put_lease_frame [frame]: "put_lease i j l w = Some w' \<Longrightarrow> c_dhcp_packet_cache w' = c_dhcp_packet_cache w"
  by (auto simp: put_lease_def Let_def elim!: bindE dest!: frame)

lemma release_static_frame [frame]:
  "dhcp_release_lease_static i j w = Some w' \<Longrightarrow> c_dhcp_packet_cache w' = c_dhcp_packet_cache w"
  by (auto simp: dhcp_release_lease_static_def Let_def elim!: bindE dest!: frame)

lemma check_timeouts_frame [frame]:
  assumes "dhcp_check_timeouts i w = Some (n, w')"
  shows "c_dhcp_packet_cache w' = c_dhcp_packet_cache w"
proof -
  let ?m = "shd (w_times w)" and ?v = "w\<lparr>w_times := stl (w_times w)\<rparr>"
  obtain b :: ddhcp_block where v: "foldM (check_timeouts_step ?m i) [0..<unat (b_subnet_len b)] (0, ?v) = Some (n, w')"
    using assms by (auto simp: dhcp_check_timeouts_def time_null_def elim!: bindE dest!: frame)
  have "c_dhcp_packet_cache (snd (n, w')) = c_dhcp_packet_cache (snd (0 :: int, ?v))"
    by (rule foldM_frame [OF v, where g = "\<lambda>p. c_dhcp_packet_cache (snd p)"])
      (auto simp: check_timeouts_step_def elim!: bindE split: frame_splits dest!: frame)
  then show ?thesis by simp
qed

lemma check_block_frame: "check_block now i w = Some w' \<Longrightarrow> c_dhcp_packet_cache w' = c_dhcp_packet_cache w"
  by (auto simp: check_block_def Let_def elim!: bindE split: frame_splits dest!: frame)

lemma block_check_timeouts_frame [frame]:
  "block_check_timeouts w = Some w' \<Longrightarrow> c_dhcp_packet_cache w' = c_dhcp_packet_cache w"
  using foldM_frame [where g = c_dhcp_packet_cache, OF _ check_block_frame]
  by (fastforce simp: block_check_timeouts_def time_null_def)

lemma block_drop_unused_frame [frame]:
  "block_drop_unused w = Some w' \<Longrightarrow> c_dhcp_packet_cache w' = c_dhcp_packet_cache w"
  by (auto simp: block_drop_unused_def Let_def elim!: bindE split: frame_splits dest!: frame)

lemma block_unmark_frame [frame]:
  assumes "block_unmark_needless w = Some w'"
  shows "c_dhcp_packet_cache w' = c_dhcp_packet_cache w"
proof -
  have step: "unmark_step i u = Some v \<Longrightarrow> c_dhcp_packet_cache v = c_dhcp_packet_cache u" for i u v
    by (auto simp: unmark_step_def Let_def elim!: bindE dest!: frame)
  show ?thesis
    using assms foldM_frame [OF _ step] by (auto simp: block_unmark_needless_def Let_def elim!: bindE dest!: frame)
qed

lemma send_packet_frame [frame]:
  "send_packet d p w = Some (n, w') \<Longrightarrow> c_dhcp_packet_cache w' = c_dhcp_packet_cache w"
  by (auto simp: send_packet_def Let_def elim!: bindE split: frame_splits dest!: frame)

lemma send_dest_frame [frame]:
  "send_packet_mcast p w = Some (n, w') \<Longrightarrow> c_dhcp_packet_cache w' = c_dhcp_packet_cache w"
  "send_packet_direct p a w = Some (n, w') \<Longrightarrow> c_dhcp_packet_cache w' = c_dhcp_packet_cache w"
  by (auto simp: send_packet_mcast_def send_packet_direct_def dest!: frame)

subsection \<open>Claims\<close>

lemma block_find_free_frame [frame]:
  "block_find_free w = Some (r, w') \<Longrightarrow> c_dhcp_packet_cache w' = c_dhcp_packet_cache w"
  by (auto simp: block_find_free_def Let_def elim!: bindE split: frame_splits dest!: frame)

lemma claim_step_frame: "claim_step i s = Some s' \<Longrightarrow> c_dhcp_packet_cache (snd s') = c_dhcp_packet_cache (snd s)"
  by (cases s) (auto simp: claim_step_def elim!: bindE split: frame_splits dest!: frame)

lemma claim_find_frame: "claim_find now w = Some w' \<Longrightarrow> c_dhcp_packet_cache w' = c_dhcp_packet_cache w"
  by (auto simp: claim_find_def Let_def elim!: bindE split: frame_splits dest!: frame)

lemma count_claim_frame: "count_claim i w = Some w' \<Longrightarrow> c_dhcp_packet_cache w' = c_dhcp_packet_cache w"
  by (auto simp: count_claim_def elim!: bindE dest!: frame)

lemma claim_folds_frame [frame]:
  "foldM claim_step xs (n, w) = Some (m, w') \<Longrightarrow> c_dhcp_packet_cache w' = c_dhcp_packet_cache w"
  "foldM (\<lambda>_. claim_find now) ys w = Some w' \<Longrightarrow> c_dhcp_packet_cache w' = c_dhcp_packet_cache w"
  "foldM count_claim xs w = Some w' \<Longrightarrow> c_dhcp_packet_cache w' = c_dhcp_packet_cache w"
  using foldM_frame [of claim_step xs "(n, w)" "(m, w')" "\<lambda>s. c_dhcp_packet_cache (snd s)"]
    foldM_frame [of "\<lambda>_. claim_find now" ys w w' c_dhcp_packet_cache]
    foldM_frame [of count_claim xs w w' c_dhcp_packet_cache]
  by (simp_all add: claim_step_frame claim_find_frame count_claim_frame)

lemma claim_inquire_frame [frame]:
  "claim_inquire w = Some (r, w') \<Longrightarrow> c_dhcp_packet_cache w' = c_dhcp_packet_cache w"
  by (auto simp: claim_inquire_def Let_def elim!: bindE split: frame_splits dest!: frame)

lemma block_claim_frame [frame]:
  "block_claim n w = Some (r, w') \<Longrightarrow> c_dhcp_packet_cache w' = c_dhcp_packet_cache w"
  by (auto simp: block_claim_def Let_def elim!: bindE split: frame_splits dest!: frame)

lemma set_timeout_frame: "set_timeout t ps i w = Some w' \<Longrightarrow> c_dhcp_packet_cache w' = c_dhcp_packet_cache w"
  by (auto simp: set_timeout_def Let_def elim!: bindE dest!: frame)

lemma claim_send_frame [frame]:
  "block_update_claim_send p ps t w = Some w' \<Longrightarrow> c_dhcp_packet_cache w' = c_dhcp_packet_cache w"
  using foldM_frame [where g = c_dhcp_packet_cache, OF _ set_timeout_frame]
  by (fastforce simp: block_update_claim_send_def Let_def elim!: bindE split: frame_splits dest!: frame)

lemma update_claims_step_frame:
  "update_claims_step p f t i s = Some s' \<Longrightarrow>
    c_dhcp_packet_cache (snd (snd (snd s'))) = c_dhcp_packet_cache (snd (snd (snd s)))"
  by (cases s) (auto simp: update_claims_step_def Let_def elim!: bindE split: frame_splits dest!: frame)

lemma update_claims_fold_frame [frame]:
  "foldM (update_claims_step p f t) xs (ps, send, index, w) = Some (ps', send', index', w') \<Longrightarrow>
    c_dhcp_packet_cache w' = c_dhcp_packet_cache w"
  using foldM_frame [of "update_claims_step p f t" xs "(ps, send, index, w)" "(ps', send', index', w')"
      "\<lambda>s. c_dhcp_packet_cache (snd (snd (snd s)))"]
  by (simp add: update_claims_step_frame)

lemma block_update_claims_frame [frame]:
  "block_update_claims w = Some w' \<Longrightarrow> c_dhcp_packet_cache w' = c_dhcp_packet_cache w"
  by (auto simp: block_update_claims_def Let_def elim!: bindE split: frame_splits dest!: frame)

subsection \<open>Messages about blocks\<close>

lemma ddhcp_block_free_frame [frame]:
  "ddhcp_block_free w = Some w' \<Longrightarrow> c_dhcp_packet_cache w' = c_dhcp_packet_cache w"
  using foldM_frame [where g = c_dhcp_packet_cache and f = block_free, OF _ block_free_frame]
  by (fastforce simp: ddhcp_block_free_def block_free_claims_def elim!: bindE)

lemma process_claim_frame: "process_claim p a now i w = Some w' \<Longrightarrow> c_dhcp_packet_cache w' = c_dhcp_packet_cache w"
  by (auto simp: process_claim_def Let_def elim!: bindE split: frame_splits dest!: frame)

lemma process_inquire_frame: "process_inquire p now i w = Some w' \<Longrightarrow> c_dhcp_packet_cache w' = c_dhcp_packet_cache w"
  by (auto simp: process_inquire_def Let_def elim!: bindE split: frame_splits dest!: frame)

lemma process_frame [frame]:
  "ddhcp_block_process_claims p a w = Some w' \<Longrightarrow> c_dhcp_packet_cache w' = c_dhcp_packet_cache w"
  "ddhcp_block_process_inquire p w = Some w' \<Longrightarrow> c_dhcp_packet_cache w' = c_dhcp_packet_cache w"
  using foldM_frame [where g = c_dhcp_packet_cache, OF _ process_claim_frame]
    foldM_frame [where g = c_dhcp_packet_cache, OF _ process_inquire_frame]
  by (fastforce simp: ddhcp_block_process_claims_def ddhcp_block_process_inquire_def split: frame_splits dest!: frame)+

lemma ntoh_mcast_frame [frame]:
  "ntoh_mcast_packet b n w = Some (r, w') \<Longrightarrow> c_dhcp_packet_cache w' = c_dhcp_packet_cache w"
  by (auto dest!: ntoh_world)

lemma ddhcp_block_process_frame:
  "ddhcp_block_process b n a w = Some w' \<Longrightarrow> c_dhcp_packet_cache w' = c_dhcp_packet_cache w"
  by (auto simp: ddhcp_block_process_def elim!: bindE split: frame_splits dest!: frame)

subsection \<open>Messages of clients\<close>

lemma dhcp_packet_send_frame [frame]:
  "dhcp_packet_send p w = Some (n, w') \<Longrightarrow> c_dhcp_packet_cache w' = c_dhcp_packet_cache w"
  by (auto simp: dhcp_packet_send_def Let_def elim!: bindE split: frame_splits dest!: frame)

lemma send_answer_frame [frame]:
  "send_answer k p w = Some (n, w') \<Longrightarrow> c_dhcp_packet_cache w' = c_dhcp_packet_cache w"
  by (auto simp: send_answer_def Let_def elim!: bindE dest!: frame)

lemma fill_options_frame [frame]:
  "fill_options os n st a w = Some (r, w') \<Longrightarrow> c_dhcp_packet_cache w' = c_dhcp_packet_cache w"
  by (auto simp: fill_options_def Let_def elim!: bindE split: frame_splits dest!: frame)

lemma default_options_frame [frame]:
  "dhcp_default_options t p q l w = Some (r, w') \<Longrightarrow> c_dhcp_packet_cache w' = c_dhcp_packet_cache w"
  by (auto simp: dhcp_default_options_def Let_def elim!: bindE split: frame_splits dest!: frame)

lemma dhcp_nack_frame [frame]: "dhcp_nack p w = Some (r, w') \<Longrightarrow> c_dhcp_packet_cache w' = c_dhcp_packet_cache w"
  by (auto simp: dhcp_nack_def Let_def elim!: bindE split: frame_splits dest!: frame)

lemma dhcp_ack_frame [frame]: "dhcp_ack p i j w = Some (r, w') \<Longrightarrow> c_dhcp_packet_cache w' = c_dhcp_packet_cache w"
  by (auto simp: dhcp_ack_def Let_def elim!: bindE split: frame_splits dest!: frame)

lemma dhcp_hdl_discover_frame:
  "dhcp_hdl_discover p w = Some (r, w') \<Longrightarrow> c_dhcp_packet_cache w' = c_dhcp_packet_cache w"
  by (auto simp: dhcp_hdl_discover_def Let_def elim!: bindE split: frame_splits dest!: frame)

lemma dhcp_hdl_release_frame:
  "dhcp_hdl_release p w = Some w' \<Longrightarrow> c_dhcp_packet_cache w' = c_dhcp_packet_cache w"
  by (auto simp: dhcp_hdl_release_def elim!: bindE split: frame_splits dest!: frame)

lemma dhcp_hdl_inform_frame:
  "dhcp_hdl_inform p w = Some w' \<Longrightarrow> c_dhcp_packet_cache w' = c_dhcp_packet_cache w"
  by (auto simp: dhcp_hdl_inform_def elim!: bindE split: frame_splits dest!: frame)

lemma dhcp_rhdl_frame [frame]:
  "dhcp_rhdl_request a w = Some (r, w') \<Longrightarrow> c_dhcp_packet_cache w' = c_dhcp_packet_cache w"
  "dhcp_rhdl_ack p w = Some (r, w') \<Longrightarrow> c_dhcp_packet_cache w' = c_dhcp_packet_cache w"
  by (auto simp: dhcp_rhdl_request_def dhcp_rhdl_ack_def elim!: bindE split: frame_splits dest!: frame)

end
