(* ===== verification/House_Keeping.thy ===== *)
theory House_Keeping
  imports Cache_Frame Dhcp_Decide Block_Refresh Block_Claim Block_Ops
begin

text \<open>
  \<open>house_keeping\<close> of main.c: the periodic pass that expires leases and claims, gives blocks
  back or claims new ones, refreshes the claims of the owned blocks and drops stale requests.
\<close>

subsection \<open>How many blocks are needed\<close>

text \<open>
  The difference is taken in \<open>int32_t\<close>; division and remainder are those of C, and a block
  size of zero divides by zero.
\<close>

definition blocks_needed :: "u8 \<Rightarrow> u8 \<Rightarrow> u32 \<Rightarrow> int option" where
  "blocks_needed spare_leases_needed block_size spare_leases =
     (let leases_needed = uint spare_leases_needed - sint spare_leases
      in if leases_needed \<ge> 2 ^ 31 \<or> block_size = 0 then None
         else let n = c_div leases_needed (uint block_size)
              in Some (if c_mod leases_needed (uint block_size) > 0 then n + 1 else n))"

definition house_keeping :: "world \<Rightarrow> world option" where
  "house_keeping w = do {
     w \<leftarrow> block_check_timeouts w;
     spare_leases \<leftarrow> block_num_free_leases w;
     n \<leftarrow> blocks_needed (c_spare_leases_needed w) (c_block_size w) spare_leases;
     w \<leftarrow> (if n < 0 then block_drop_unused w
          else do {
            w \<leftarrow> (if c_needless_marks w \<noteq> 0 then block_unmark_needless w else Some w);
            if n > 0 then do { (_, w) \<leftarrow> block_claim n w; Some w } else Some w });
     w \<leftarrow> block_update_claims w;
     dhcp_packet_list_timeout w }"

text \<open>
  The number of blocks: enough to have \<open>need\<close> free leases again, and negative exactly when
  a whole block of free leases is to spare.
\<close>

lemma round_up:
  fixes q m s need :: int
  assumes need: "need = q * s + m" and m: "0 \<le> m" "m < s" and q: "0 \<le> q" and s: "0 < s"
  defines "n \<equiv> if m > 0 then q + 1 else q"
  shows "n > 0 \<longleftrightarrow> need > 0" "need > 0 \<Longrightarrow> (n - 1) * s < need \<and> need \<le> n * s"
proof -
  have p: "0 \<le> q * s" "0 < q * s \<longleftrightarrow> 0 < q" using q s by (simp_all add: zero_less_mult_iff)
  show "n > 0 \<longleftrightarrow> need > 0"
  proof (cases "m > 0")
    case True
    then show ?thesis using p q need by (simp add: n_def)
  next
    case False
    then show ?thesis using p m need by (simp add: n_def)
  qed
  show "(n - 1) * s < need \<and> need \<le> n * s"
    using need m s by (cases "m > 0") (simp_all add: n_def algebra_simps)
qed

lemma blocks_needed_eq:
  fixes spare block_size :: u8
  assumes size: "block_size \<noteq> 0" and free: "free < 2 ^ 31"
  defines "need \<equiv> uint spare - int free" and "s \<equiv> uint block_size"
  obtains n where "blocks_needed spare block_size (of_nat free) = Some n"
    "n > 0 \<longleftrightarrow> need > 0" "need > 0 \<Longrightarrow> (n - 1) * s < need \<and> need \<le> n * s" "n < 0 \<longleftrightarrow> - need \<ge> s" "n \<le> 255"
proof -
  have s: "0 < s" using size uint_0_iff [of block_size] uint_ge_0 [of block_size] unfolding s_def by linarith
  have "sint (of_nat free :: u32) = int free" using free by (simp add: signed_of_nat signed_take_bit_int_eq_self)
  moreover have u: "uint spare \<le> 255" using uint_lt2p [of spare] by simp
  ultimately have eq: "blocks_needed spare block_size (of_nat free) =
      Some (if c_mod need s > 0 then c_div need s + 1 else c_div need s)"
    using size by (simp add: blocks_needed_def Let_def need_def s_def)
  show thesis
  proof (cases "need \<ge> 0")
    case True
    have d: "need = need div s * s + need mod s" "0 \<le> need mod s" "need mod s < s" using s by simp_all
    have q: "0 \<le> need div s" using True s by (simp add: pos_imp_zdiv_nonneg_iff)
    have le: "need div s + (if need mod s > 0 then 1 else 0) \<le> need"
    proof -
      have "need div s * 1 \<le> need div s * s" using s q by (intro mult_left_mono) simp_all
      then have "need div s + need mod s \<le> need" using d(1) by linarith
      then show ?thesis using d(2) by (cases "need mod s > 0") (simp_all del: mod_pos_pos_trivial)
    qed
    let ?n = "if need mod s > 0 then need div s + 1 else need div s"
    have "?n \<le> 255" using le u by (simp add: need_def split: if_splits)
    moreover note round_up [OF d q s]
    moreover have "\<not> ?n < 0" "\<not> - need \<ge> s" using q True s by auto
    ultimately show thesis
      using eq that [of ?n] True s by (simp add: c_div_nonneg c_mod_nonneg)
  next
    case False
    then have n: "need < 0" by simp
    have "(0 < (- need) div s) \<longleftrightarrow> s \<le> - need" using s n by (simp add: pos_imp_zdiv_pos_iff)
    moreover have "0 \<le> (- need) div s" "0 \<le> (- need) mod s" using s n by (simp_all add: pos_imp_zdiv_nonneg_iff)
    ultimately show thesis
      using n eq c_mod_neg [OF n s] c_div_neg [OF n s] that [of "- ((- need) div s)"]
      by simp
  qed
qed

subsection \<open>The free leases of the node\<close>

definition spare_total :: "world \<Rightarrow> nat" where
  "spare_total w = sum_list (map free_leases (c_blocks w))"

text \<open>A network of less than half the address space: its leases can be counted in \<open>int32_t\<close>.\<close>

definition countable_leases :: "world \<Rightarrow> bool" where
  "countable_leases w \<longleftrightarrow> num_blocks w * unat (c_block_size w) < 2 ^ 31"

lemma sum_list_bound: "(\<And>x. x \<in> set xs \<Longrightarrow> f x \<le> n) \<Longrightarrow> sum_list (map f xs) \<le> length xs * (n :: nat)"
  by (induction xs) (auto intro: add_mono)

lemma spare_total_le:
  assumes inv: "wf_state w"
  shows "spare_total w \<le> num_blocks w * unat (c_block_size w)"
proof -
  have "free_leases b \<le> unat (c_block_size w)" if b: "b \<in> set (c_blocks w)" for b
  proof -
    obtain i where i: "i < num_blocks w" "b = c_blocks w ! i"
      using b inv by (auto simp: in_set_conv_nth inv_length)
    have "length (block_leases b) \<le> unat (c_block_size w)"
      using inv_block [OF inv i(1)] i(2) by (cases "b_addresses b") (auto simp: wf_block_def block_leases_def)
    then show ?thesis using count_state_le [of FREE "block_leases b"] by (auto simp: free_leases_def)
  qed
  then have "sum_list (map free_leases (c_blocks w)) \<le> length (c_blocks w) * unat (c_block_size w)"
    by (rule sum_list_bound)
  then show ?thesis using inv by (simp add: spare_total_def inv_length)
qed

subsection \<open>The pass\<close>

text \<open>
  What a pass does about the number of blocks, from the count of free leases after the
  timeouts: it claims blocks while leases are short, gives one back when a whole block is
  to spare, and does neither in between.
\<close>

definition leases_short :: "world \<Rightarrow> int" where
  "leases_short w = uint (c_spare_leases_needed w) - int (spare_total w)"

definition adjusted :: "world \<Rightarrow> world \<Rightarrow> bool" where
  "adjusted w w' \<longleftrightarrow>
     (if uint (c_block_size w) \<le> - leases_short w then
        calm w w' \<and> same_claims w w' \<and>
        (\<exists>r. best (idle w) (\<lambda>i. - b_first_claimed (c_blocks w ! i)) (num_blocks w) r \<and>
           evolves (drop_rel w (shd (w_times w)) r) w w')
      else \<exists>u. calm w u \<and> same_claims w u \<and> evolves (\<lambda>k b b'. \<exists>t. b' = b\<lparr>b_needless_since := t\<rparr>) w u \<and>
        (if leases_short w \<le> 0 then w' = u
         else \<exists>n r. (n - 1) * uint (c_block_size w) < leases_short w \<and>
                leases_short w \<le> n * uint (c_block_size w) \<and> claimed_post n u r w'))"

text \<open>The duties on the blocks; the packet cache comes last and is another matter.\<close>

definition housekept :: "world \<Rightarrow> world \<Rightarrow> bool" where
  "housekept w x \<longleftrightarrow> (\<exists>u v.
     same_claims w u \<and> calm w u \<and> evolves (check_rel (w_times w) (shd (w_times w))) w u \<and>
     adjusted u v \<and> refreshed_post v x)"

definition overdue_whole :: "world \<Rightarrow> bool" where
  "overdue_whole w \<longleftrightarrow> (\<forall>p \<in> set (c_dhcp_packet_cache w). d_timeout p < shd (w_times w) \<longrightarrow> whole p)"

definition cache_swept :: "world \<Rightarrow> world" where
  "cache_swept w = w\<lparr>w_times := stl (w_times w),
     c_dhcp_packet_cache := filter (\<lambda>p. \<not> d_timeout p < shd (w_times w)) (c_dhcp_packet_cache w)\<rparr>"

lemma needless_id: "\<exists>t. b = (b :: ddhcp_block)\<lparr>b_needless_since := t\<rparr>"
  by (rule exI [of _ "b_needless_since b"]) simp

lemma adjust_ok:
  assumes inv: "wf_state w" and few: "countable_leases w"
  shows "ok (do {
     spare_leases \<leftarrow> block_num_free_leases w;
     n \<leftarrow> blocks_needed (c_spare_leases_needed w) (c_block_size w) spare_leases;
     (if n < 0 then block_drop_unused w
      else do {
        w \<leftarrow> (if c_needless_marks w \<noteq> 0 then block_unmark_needless w else Some w);
        if n > 0 then do { (_, w) \<leftarrow> block_claim n w; Some w } else Some w }) }) (adjusted w)"
proof -
  have size: "c_block_size w \<noteq> 0" using inv_params [OF inv] by (auto simp: wf_params_def)
  have "spare_total w < 2 ^ 31" using spare_total_le [OF inv] few by (simp add: countable_leases_def)
  then obtain n where n: "blocks_needed (c_spare_leases_needed w) (c_block_size w) (of_nat (spare_total w)) = Some n"
    "n > 0 \<longleftrightarrow> leases_short w > 0" "n < 0 \<longleftrightarrow> uint (c_block_size w) \<le> - leases_short w" "n \<le> 255"
    "leases_short w > 0 \<Longrightarrow> (n - 1) * uint (c_block_size w) < leases_short w \<and> leases_short w \<le> n * uint (c_block_size w)"
    using blocks_needed_eq [OF size, of "spare_total w" "c_spare_leases_needed w"] unfolding leases_short_def by metis
  have free: "block_num_free_leases w = Some (of_nat (spare_total w))"
    using block_num_free_leases_eq [OF inv] by (simp add: spare_total_def)
  show ?thesis
  proof (cases "n < 0")
    case True
    then have "uint (c_block_size w) \<le> - leases_short w" using n(3) by simp
    then show ?thesis
      using True free n(1) block_drop_unused_ok [OF inv] by (auto simp: adjusted_def elim!: ok_mono)
  next
    case False
    let ?unmark = "if c_needless_marks w \<noteq> 0 then block_unmark_needless w else Some w"
    have "ok ?unmark (\<lambda>u. calm w u \<and> same_claims w u \<and> evolves (\<lambda>k b b'. \<exists>t. b' = b\<lparr>b_needless_since := t\<rparr>) w u)"
    proof (cases "c_needless_marks w = 0")
      case True
      then show ?thesis using inv needless_id by (auto simp: evolves_def keeps_def)
    next
      case False
      then show ?thesis
        using block_unmark_needless_ok [OF inv] by (auto elim!: ok_mono evolves_mono)
    qed
    then obtain u where u: "?unmark = Some u" "calm w u" "same_claims w u"
      "evolves (\<lambda>k b b'. \<exists>t. b' = b\<lparr>b_needless_since := t\<rparr>) w u"
      by (auto simp: ok_iff)
    obtain r v where claim: "block_claim n u = Some (r, v)" "claimed_post n u r v"
      using block_claim_post [OF evolvesD(1) [OF u(4)] n(4)] by (auto simp: ok_iff)
    show ?thesis
    proof (cases "n > 0")
      case True
      then have "adjusted w v" using False n u claim by (auto simp: adjusted_def)
      then show ?thesis using True False n(1) free u(1) claim(1) by simp
    next
      case nz: False
      then have "adjusted w u" using False n u by (auto simp: adjusted_def)
      then show ?thesis using nz False n(1) free u(1) by simp
    qed
  qed
qed

text \<open>The whole pass, and its contract.\<close>

lemma refreshed_keeps: "refreshed_post w w' \<Longrightarrow> keeps w w'"
  using evolvesD(2) by (auto simp: refreshed_post_def)

lemma adjusted_keeps: "adjusted w w' \<Longrightarrow> keeps w w'"
  by (auto simp: adjusted_def claimed_post_def split: if_splits dest!: evolvesD(2) intro: keeps_trans)

lemma adjust_frame:
  "do {
     spare_leases \<leftarrow> block_num_free_leases u;
     n \<leftarrow> blocks_needed (c_spare_leases_needed u) (c_block_size u) spare_leases;
     (if n < 0 then block_drop_unused u
      else do {
        w \<leftarrow> (if c_needless_marks u \<noteq> 0 then block_unmark_needless u else Some u);
        if n > 0 then do { (_, w) \<leftarrow> block_claim n w; Some w } else Some w }) } = Some v \<Longrightarrow>
   c_dhcp_packet_cache v = c_dhcp_packet_cache u"
  by (auto elim!: bindE split: if_split_asm dest!: frame)

lemma house_keeping_eq:
  assumes inv: "wf_state w" and few: "countable_leases w"
  shows "\<exists>x. keeps w x \<and> housekept w x \<and> c_dhcp_packet_cache x = c_dhcp_packet_cache w \<and>
    house_keeping w = (if overdue_whole x then Some (cache_swept x) else None)"
proof -
  obtain u where u: "block_check_timeouts w = Some u" "same_claims w u" "calm w u"
    "evolves (check_rel (w_times w) (shd (w_times w))) w u"
    using block_check_timeouts_ok [OF inv] by (auto simp: ok_iff)
  have few': "countable_leases u"
    using few evolvesD(3,4) [OF u(4)] by (simp add: countable_leases_def)
  obtain v where v: "do {
     spare_leases \<leftarrow> block_num_free_leases u;
     n \<leftarrow> blocks_needed (c_spare_leases_needed u) (c_block_size u) spare_leases;
     (if n < 0 then block_drop_unused u
      else do {
        w \<leftarrow> (if c_needless_marks u \<noteq> 0 then block_unmark_needless u else Some u);
        if n > 0 then do { (_, w) \<leftarrow> block_claim n w; Some w } else Some w }) } = Some v" "adjusted u v"
    using adjust_ok [OF evolvesD(1) [OF u(4)] few'] by (auto simp only: ok_iff)
  have uv: "keeps u v" by (rule adjusted_keeps [OF v(2)])
  obtain x where x: "block_update_claims v = Some x" "refreshed_post v x"
    using block_update_claims_ok [OF keeps_inv [OF uv]] by (auto simp: ok_iff)
  have "house_keeping w = do { v \<leftarrow> Some v; w \<leftarrow> block_update_claims v; dhcp_packet_list_timeout w }"
    unfolding house_keeping_def u(1) v(1) [symmetric] by simp
  then have eq: "house_keeping w = dhcp_packet_list_timeout x" using x(1) by simp
  have "keeps w x"
    using evolvesD(2) [OF u(4)] uv refreshed_keeps [OF x(2)] by (blast intro: keeps_trans)
  moreover have "c_dhcp_packet_cache x = c_dhcp_packet_cache w"
    using u(1) adjust_frame [OF v(1)] x(1) by (auto dest!: frame)
  moreover have "housekept w x" using u(2-4) v(2) x(2) by (auto simp: housekept_def)
  moreover have "house_keeping w = (if overdue_whole x then Some (cache_swept x) else None)"
    unfolding eq dhcp_packet_list_timeout_eq overdue_whole_def cache_swept_def ..
  ultimately show ?thesis by blast
qed

lemma cache_swept_simps [simp]:
  "keeps w (cache_swept x) = keeps w x" "c_blocks (cache_swept x) = c_blocks x"
  by (simp_all add: cache_swept_def keeps_def same_params_def)

text \<open>The pass returns when no entry of the cache has lost its options, whatever is overdue.\<close>

lemma house_keeping_ok:
  assumes "wf_state w" "countable_leases w" "whole_cache w"
  shows "ok (house_keeping w) (\<lambda>w'. keeps w w' \<and> set (c_dhcp_packet_cache w') \<subseteq> set (c_dhcp_packet_cache w))"
proof -
  obtain x where "keeps w x" "c_dhcp_packet_cache x = c_dhcp_packet_cache w"
    "house_keeping w = (if overdue_whole x then Some (cache_swept x) else None)"
    using house_keeping_eq [OF assms(1,2)] by blast
  moreover from this have "overdue_whole x" using assms(3) by (simp add: overdue_whole_def whole_cache_def)
  ultimately show ?thesis by (auto simp: cache_swept_def keeps_def same_params_def)
qed

lemma house_keeping_keeps:
  assumes "wf_state w" "countable_leases w" "house_keeping w = Some w'"
  shows "keeps w w'" "set (c_dhcp_packet_cache w') \<subseteq> set (c_dhcp_packet_cache w)"
proof -
  obtain x where "keeps w x" "c_dhcp_packet_cache x = c_dhcp_packet_cache w" "w' = cache_swept x"
    using house_keeping_eq [OF assms(1,2)] assms(3) by (auto split: if_split_asm)
  then show "keeps w w'" "set (c_dhcp_packet_cache w') \<subseteq> set (c_dhcp_packet_cache w)"
    by (auto simp: cache_swept_def keeps_def same_params_def)
qed

subsection \<open>House keeping takes no lease away\<close>

text \<open>
  The stages, for a lease of an owned block that has not run out at any reading of the
  clock: its block stays owned and the lease stays as it is.
\<close>

lemma check_keeps_lease:
  assumes "check_rel ts now k b b'" "b_state b = DDHCP_OURS" "now \<le> b_timeout b"
    "j < length (block_leases b)" "\<forall>t \<in> sset ts. t \<le> l_lease_end (block_leases b ! j)"
  shows "b_state b' = DDHCP_OURS \<and> block_leases b' ! j = block_leases b ! j \<and> length (block_leases b') = length (block_leases b)"
  using assms
  by (cases "b_addresses b") (auto simp: check_rel_def checked_def block_leases_def with_leases_def expire_def Let_def)

lemma drop_keeps_lease:
  assumes "drop_rel w now r k b b'" "best (idle w) key n r" "b = c_blocks w ! k" "b_state b = DDHCP_OURS"
    "j < length (block_leases b)" "l_state (block_leases b ! j) \<noteq> FREE"
  shows "b_state b' = DDHCP_OURS \<and> block_leases b' = block_leases b"
proof -
  have "r \<noteq> Some k" using assms(2-6) nth_mem by (fastforce simp: best_def idle_def)
  then show ?thesis using assms by (simp add: drop_rel_def)
qed

lemma claim_keeps_lease:
  assumes "claim_rel w k b b'" "b_state b = DDHCP_OURS" "b_addresses b \<noteq> None"
  shows "b_state b' = DDHCP_OURS \<and> block_leases b' = block_leases b"
  using assms by (auto simp: claim_rel_def owned_def block_leases_def)

lemma adjusted_keeps_lease:
  assumes inv: "wf_state w" and adj: "adjusted w w'" and k: "k < num_blocks w" "b_state (c_blocks w ! k) = DDHCP_OURS"
    and j: "j < length (block_leases (c_blocks w ! k))" "l_state (block_leases (c_blocks w ! k) ! j) \<noteq> FREE"
  shows "b_state (c_blocks w' ! k) = DDHCP_OURS \<and> block_leases (c_blocks w' ! k) = block_leases (c_blocks w ! k)"
proof (cases "uint (c_block_size w) \<le> - leases_short w")
  case True
  then obtain r where r: "best (idle w) (\<lambda>i. - b_first_claimed (c_blocks w ! i)) (num_blocks w) r"
    "evolves (drop_rel w (shd (w_times w)) r) w w'" using adj by (auto simp: adjusted_def)
  show ?thesis by (rule drop_keeps_lease [OF evolvesD(5) [OF r(2) k(1)] r(1) refl k(2) j])
next
  case False
  then obtain u where u: "evolves (\<lambda>k b b'. \<exists>t. b' = b\<lparr>b_needless_since := t\<rparr>) w u"
    and w': "w' = u \<or> (\<exists>n r. claimed_post n u r w')"
    using adj by (auto simp: adjusted_def split: if_splits)
  have same: "b_state (c_blocks u ! k) = DDHCP_OURS" "b_addresses (c_blocks u ! k) = b_addresses (c_blocks w ! k)"
    using evolvesD(5) [OF u k(1)] k(2) by auto
  have ku: "k < num_blocks u" using k(1) evolvesD(3) [OF u] by simp
  have "b_addresses (c_blocks u ! k) \<noteq> None" using j(1) same(2) by (auto simp: block_leases_def split: option.splits)
  then show ?thesis
    using w' same claim_keeps_lease [of u k "c_blocks u ! k" "c_blocks w' ! k"] evolvesD(5) [OF _ ku, of _ w']
    by (auto simp: claimed_post_def block_leases_def)
qed

lemma housekept_keeps_lease:
  assumes inv: "wf_state w" and hk: "housekept w x" and h: "holds w c i j"
    and now: "shd (w_times w) \<le> b_timeout (c_blocks w ! i)"
    and run: "\<forall>t \<in> sset (w_times w). t \<le> l_lease_end (block_leases (c_blocks w ! i) ! j)"
  shows "holds x c i j \<and> block_leases (c_blocks x ! i) ! j = block_leases (c_blocks w ! i) ! j"
proof -
  obtain u v where u: "evolves (check_rel (w_times w) (shd (w_times w))) w u" and v: "adjusted u v"
    and x: "refreshed_post v x"
    using hk by (auto simp: housekept_def)
  have i: "i < num_blocks w" and st: "b_state (c_blocks w ! i) = DDHCP_OURS" using h by (simp_all add: holds_def)
  have j: "j < length (block_leases (c_blocks w ! i))"
  proof -
    obtain ls where "b_addresses (c_blocks w ! i) = Some ls" "length ls = unat (c_block_size w)"
      using inv_ours [OF inv i st] by blast
    then show ?thesis using h by (simp add: holds_def block_leases_def)
  qed
  have 1: "b_state (c_blocks u ! i) = DDHCP_OURS" "block_leases (c_blocks u ! i) ! j = block_leases (c_blocks w ! i) ! j"
    "length (block_leases (c_blocks u ! i)) = length (block_leases (c_blocks w ! i))"
    using check_keeps_lease [OF evolvesD(5) [OF u i] st now j run] by simp_all
  have iu: "i < num_blocks u" using i evolvesD(3) [OF u] by simp
  have 2: "b_state (c_blocks v ! i) = DDHCP_OURS \<and> block_leases (c_blocks v ! i) = block_leases (c_blocks u ! i)"
    using adjusted_keeps_lease [OF evolvesD(1) [OF u] v iu 1(1), of j] 1 j h by (simp add: holds_def)
  have uv: "num_blocks v = num_blocks u" "c_block_size v = c_block_size u"
    using adjusted_keeps [OF v] by (simp_all add: keeps_def same_params_def)
  have ev: "evolves (refresh_rel (refresh_until v) {k. ours v k}) v x" using x by (simp add: refreshed_post_def)
  have 3: "b_state (c_blocks x ! i) = b_state (c_blocks v ! i)" "block_leases (c_blocks x ! i) = block_leases (c_blocks v ! i)"
    using evolvesD(5) [OF ev, of i] iu uv by (auto simp: refresh_rel_def block_leases_def)
  have "num_blocks x = num_blocks w" "c_block_size x = c_block_size w"
    using evolvesD(3,4) [OF u] uv evolvesD(3,4) [OF ev] by simp_all
  then show ?thesis using 1 2 3 h by (simp add: holds_def)
qed

lemma house_keeping_lease:
  assumes "wf_state w" "countable_leases w" "holds w c i j" "shd (w_times w) \<le> b_timeout (c_blocks w ! i)"
    and "\<forall>t \<in> sset (w_times w). t \<le> l_lease_end (block_leases (c_blocks w ! i) ! j)" "house_keeping w = Some w'"
  shows "holds w' c i j \<and> block_leases (c_blocks w' ! i) ! j = block_leases (c_blocks w ! i) ! j"
proof -
  obtain x where "housekept w x" "w' = cache_swept x"
    using house_keeping_eq [OF assms(1,2)] assms(6) by (auto split: if_split_asm)
  moreover have "holds (cache_swept x) c i j = holds x c i j" by (simp add: holds_def cache_swept_def)
  ultimately show ?thesis using housekept_keeps_lease [OF assms(1) _ assms(3-5)] by simp
qed

end
