(* ===== verification/Control.thy ===== *)
theory Control
  imports Block_Inv
begin

text \<open>
  control.c: the commands of the control socket, with what they print (the status of the
  blocks, the option store and the statistics). Every \<open>dprintf\<close> is one entry of the trace.
  The option store is the only part of the configuration a command changes.
\<close>

subsection \<open>Printing\<close>

definition dprintf :: "string \<Rightarrow> world \<Rightarrow> world" where
  "dprintf s w = w\<lparr>w_out := w_out w @ [Ctrl_text s]\<rparr>"

definition tab :: string where "tab = [char_of (9 :: nat)]"

definition node_id_text :: "node_id \<Rightarrow> string option" where
  "node_id_text node_id = do { h \<leftarrow> take_opt 8 node_id; Some (concat (map hex2 h)) }"

fun state_number :: "block_state \<Rightarrow> nat" where
  "state_number DDHCP_FREE = 0"
| "state_number DDHCP_TENTATIVE = 1"
| "state_number DDHCP_CLAIMED = 2"
| "state_number DDHCP_CLAIMING = 3"
| "state_number DDHCP_OURS = 4"
| "state_number DDHCP_BLOCKED = 5"

subsection \<open>The blocks\<close>

text \<open>The buffer \<open>leases\<close> has sixteen bytes; the difference is taken in 32 bits.\<close>

definition leases_text :: "u8 \<Rightarrow> ddhcp_block \<Rightarrow> string option" where
  "leases_text block_size b =
     (if b_addresses b \<noteq> None then do {
        free_leases \<leftarrow> dhcp_num_free b;
        offered_leases \<leftarrow> dhcp_num_offered b;
        Some (take 15 (dec (unat offered_leases) @ ''/''
          @ dec (unat (ucast block_size - free_leases - offered_leases)))) }
      else Some ''-'')"

definition show_block :: "int \<Rightarrow> nat \<Rightarrow> u32 \<times> world \<Rightarrow> (u32 \<times> world) option" where
  "show_block now i = (\<lambda>(num_reserved_blocks, w). do {
     b \<leftarrow> get_block i w;
     leases \<leftarrow> leases_text (c_block_size w) b;
     node_id \<leftarrow> node_id_text (b_node_id b);
     let timeout = b_timeout b - now;
     if timeout > 0 then
       Some (num_reserved_blocks + 1,
         dprintf (dec_int (sint (b_index b)) @ tab @ dec (state_number (b_state b)) @ tab @ node_id @ tab
           @ dec (unat (b_claiming_counts b)) @ tab @ leases @ tab @ dec (nat timeout) @ newline) w)
     else Some (num_reserved_blocks, w) })"

definition block_show_status :: "world \<Rightarrow> world option" where
  "block_show_status w = do {
     let w = dprintf (''block size/number'' @ tab @ dec (unat (c_block_size w)) @ ''/''
       @ dec (unat (c_number_of_blocks w)) @ '' '' @ newline) w;
     let w = dprintf (''      tentative timeout'' @ tab @ dec (unat (c_tentative_timeout w)) @ newline) w;
     let w = dprintf (''      timeout'' @ tab @ dec (unat (c_block_timeout w)) @ newline) w;
     let w = dprintf (''      refresh factor'' @ tab @ dec (unat (c_block_refresh_factor w)) @ newline) w;
     let w = dprintf (''      spare leases needed'' @ tab @ dec (unat (c_spare_leases_needed w)) @ newline) w;
     let w = dprintf (''      network: '' @ inet_ntoa (c_prefix w) @ ''/'' @ dec (unat (c_prefix_len w))
       @ '' '' @ newline) w;
     node_id \<leftarrow> node_id_text (c_node_id w);
     let w = dprintf (''node id'' @ tab @ node_id @ newline) w;
     let w = dprintf (''ddhcp blocks'' @ newline) w;
     let w = dprintf (''index'' @ tab @ ''state'' @ tab @ ''owner'' @ tab @ tab @ tab @ ''claim'' @ tab
       @ ''leases'' @ tab @ ''timeout'' @ newline) w;
     let (now, w) = time_null w;
     (num_reserved_blocks, w) \<leftarrow> foldM (show_block now) [0..<num_blocks w] (0, w);
     Some (dprintf (newline @ ''blocks in use: '' @ dec_int (sint num_reserved_blocks) @ newline) w) }"

subsection \<open>The option store\<close>

definition show_option :: "dhcp_option \<Rightarrow> world \<Rightarrow> world option" where
  "show_option opt w = do {
     let w = dprintf (dec (unat (o_code opt)) @ tab @ dec (unat (o_len opt)) @ tab) w;
     w \<leftarrow> foldM (\<lambda>i w. do { b \<leftarrow> nth_opt (o_payload opt) i; Some (dprintf (dec (unat b) @ tab) w) })
       [0..<unat (o_len opt)] w;
     Some (dprintf newline w) }"

definition dhcp_options_show :: "world \<Rightarrow> world option" where
  "dhcp_options_show w = do {
     lease_time \<leftarrow> find_in_option_store_address_lease_time (c_options w);
     let w = dprintf (''DHCP Lease Time: '' @ dec (unat lease_time) @ newline @ newline) w;
     let w = dprintf (''DHCP Disabled: '' @ dec (unat (c_disable_dhcp w)) @ newline) w;
     let w = dprintf (''DHCP Option Store'' @ newline @ ''code'' @ tab @ ''len'' @ tab @ ''payload'' @ newline) w;
     foldM show_option (c_options w) w }"

subsection \<open>The statistics\<close>

definition statistics_lines :: "(string \<times> stat) list" where
  "statistics_lines =
     [(''mcast.recv_pkg'', STAT_MCAST_RECV_PKG), (''mcast.send_pkg'', STAT_MCAST_SEND_PKG),
      (''mcast.recv_byte'', STAT_MCAST_RECV_BYTE), (''mcast.send_byte'', STAT_MCAST_SEND_BYTE),
      (''mcast.send_updateclaim'', STAT_MCAST_SEND_UPDATECLAIM),
      (''mcast.recv_updateclaim'', STAT_MCAST_RECV_UPDATECLAIM),
      (''mcast.send_inquire'', STAT_MCAST_SEND_INQUIRE), (''mcast.recv_inquire'', STAT_MCAST_RECV_INQUIRE),
      (''direct.recv_pkg'', STAT_DIRECT_RECV_PKG), (''direct.send_pkg'', STAT_DIRECT_SEND_PKG),
      (''direct.recv_byte'', STAT_DIRECT_RECV_BYTE), (''direct.send_byte'', STAT_DIRECT_SEND_BYTE),
      (''direct.recv_renewlease'', STAT_DIRECT_RECV_RENEWLEASE),
      (''direct.send_renewlease'', STAT_DIRECT_SEND_RENEWLEASE),
      (''direct.recv_leaseack'', STAT_DIRECT_RECV_LEASEACK), (''direct.send_leaseack'', STAT_DIRECT_SEND_LEASEACK),
      (''direct.recv_leasenak'', STAT_DIRECT_RECV_LEASENAK), (''direct.send_leasenak'', STAT_DIRECT_SEND_LEASENAK),
      (''direct.recv_release'', STAT_DIRECT_RECV_RELEASE), (''direct.send_release'', STAT_DIRECT_SEND_RELEASE),
      (''dhcp.recv_pkg'', STAT_DHCP_RECV_PKG), (''dhcp.send_pkg'', STAT_DHCP_SEND_PKG),
      (''dhcp.recv_byte'', STAT_DHCP_RECV_BYTE), (''dhcp.send_byte'', STAT_DHCP_SEND_BYTE),
      (''dhcp.recv_discover'', STAT_DHCP_RECV_DISCOVER), (''dhcp.send_offer'', STAT_DHCP_SEND_OFFER),
      (''dhcp.recv_request'', STAT_DHCP_RECV_REQUEST), (''dhcp.send_ack'', STAT_DHCP_SEND_ACK),
      (''dhcp.send_nak'', STAT_DHCP_SEND_NAK), (''dhcp.recv_release'', STAT_DHCP_RECV_RELEASE)]"

definition count_block :: "nat \<Rightarrow> (u32 \<times> u32 \<times> u32) \<times> world \<Rightarrow> ((u32 \<times> u32 \<times> u32) \<times> world) option" where
  "count_block i = (\<lambda>((blocks_free, blocks_tentative, blocks_claimed), w). do {
     b \<leftarrow> get_block i w;
     let counts = (case b_state b of
         DDHCP_BLOCKED \<Rightarrow> (blocks_free + 1, blocks_tentative, blocks_claimed)
       | DDHCP_FREE \<Rightarrow> (blocks_free + 1, blocks_tentative, blocks_claimed)
       | DDHCP_CLAIMING \<Rightarrow> (blocks_free, blocks_tentative + 1, blocks_claimed)
       | DDHCP_TENTATIVE \<Rightarrow> (blocks_free, blocks_tentative + 1, blocks_claimed)
       | DDHCP_CLAIMED \<Rightarrow> (blocks_free, blocks_tentative, blocks_claimed + 1)
       | DDHCP_OURS \<Rightarrow> (blocks_free, blocks_tentative, blocks_claimed + 1));
     first \<leftarrow> nth_opt (b_node_id b) 0;
     Some (counts, dprintf (''block.'' @ dec (unat (b_index b)) @ ''.owner '' @ dec (unat first) @ newline) w) })"

definition statistics_show :: "bool \<Rightarrow> world \<Rightarrow> world option" where
  "statistics_show reset w = do {
     let w = fold (\<lambda>(name, field) w. dprintf (name @ '' '' @ dec_int (c_statistics w field) @ newline) w)
       statistics_lines w;
     ((blocks_free, blocks_tentative, blocks_claimed), w) \<leftarrow> foldM count_block [0..<num_blocks w] ((0, 0, 0), w);
     let w = dprintf (''ddhcp.blocks.free '' @ dec (unat blocks_free) @ newline) w;
     let w = dprintf (''ddhcp.blocks.tentative '' @ dec (unat blocks_tentative) @ newline) w;
     let w = dprintf (''ddhcp.blocks.claimed '' @ dec (unat blocks_claimed) @ newline) w;
     Some (if reset then w\<lparr>c_statistics := (\<lambda>_. 0)\<rparr> else w) }"

subsection \<open>Commands\<close>

definition DDHCPCTL_BLOCK_SHOW :: u8 where "DDHCPCTL_BLOCK_SHOW = 1"
definition DDHCPCTL_DHCP_OPTIONS_SHOW :: u8 where "DDHCPCTL_DHCP_OPTIONS_SHOW = 2"
definition DDHCPCTL_DHCP_OPTION_SET :: u8 where "DDHCPCTL_DHCP_OPTION_SET = 3"
definition DDHCPCTL_DHCP_OPTION_REMOVE :: u8 where "DDHCPCTL_DHCP_OPTION_REMOVE = 4"
definition DDHCPCTL_LOG_LEVEL_SET :: u8 where "DDHCPCTL_LOG_LEVEL_SET = 5"
definition DDHCPCTL_STATISTICS :: u8 where "DDHCPCTL_STATISTICS = 6"
definition DDHCPCTL_STATISTICS_RESET :: u8 where "DDHCPCTL_STATISTICS_RESET = 7"

lemmas ddhcpctl_codes = DDHCPCTL_BLOCK_SHOW_def DDHCPCTL_DHCP_OPTIONS_SHOW_def DDHCPCTL_DHCP_OPTION_SET_def
  DDHCPCTL_DHCP_OPTION_REMOVE_def DDHCPCTL_LOG_LEVEL_SET_def DDHCPCTL_STATISTICS_def DDHCPCTL_STATISTICS_RESET_def

definition option_set_command :: "u8 list \<Rightarrow> int \<Rightarrow> world \<Rightarrow> (int \<times> world) option" where
  "option_set_command buffer msglen w =
     (if msglen < 3 then Some (-2, w)
      else do {
        code \<leftarrow> nth_opt buffer 1;
        len \<leftarrow> nth_opt buffer 2;
        if uint len + 3 > msglen then Some (-2, w)
        else do {
          let (mem, w) = calloc w;
          if \<not> mem then Some (-1, w)
          else do {
            let w = w\<lparr>w_out := w_out w @ [Std_text (dec (unat code) @ '':'' @ dec (unat len) @ newline)]\<rparr>;
            let (mem, w) = calloc w;
            if \<not> mem then Some (-1, w)
            else do {
              payload \<leftarrow> take_opt (unat len) (drop 3 buffer);
              Some (0, w\<lparr>c_options := set_option_in_store (c_options w)
                \<lparr>o_code = code, o_len = len, o_payload = payload\<rparr>\<rparr>) } } } })"

definition handle_command :: "u8 list \<Rightarrow> int \<Rightarrow> world \<Rightarrow> (int \<times> world) option" where
  "handle_command buffer msglen w =
     (if msglen = 0 then Some (-2, w)
      else do {
        cmd \<leftarrow> nth_opt buffer 0;
        if cmd = DDHCPCTL_BLOCK_SHOW then
          (if msglen \<noteq> 1 then Some (-2, w) else do { w \<leftarrow> block_show_status w; Some (0, w) })
        else if cmd = DDHCPCTL_DHCP_OPTIONS_SHOW then
          (if msglen \<noteq> 1 then Some (-2, w) else do { w \<leftarrow> dhcp_options_show w; Some (0, w) })
        else if cmd = DDHCPCTL_STATISTICS then do { w \<leftarrow> statistics_show False w; Some (0, w) }
        else if cmd = DDHCPCTL_STATISTICS_RESET then do { w \<leftarrow> statistics_show True w; Some (0, w) }
        else if cmd = DDHCPCTL_DHCP_OPTION_SET then option_set_command buffer msglen w
        else if cmd = DDHCPCTL_DHCP_OPTION_REMOVE then
          (if msglen < 2 then Some (-2, w)
           else do {
             code \<leftarrow> nth_opt buffer 1;
             Some (0, w\<lparr>c_options := remove_option_in_store (c_options w) code\<rparr>) })
        else if cmd = DDHCPCTL_LOG_LEVEL_SET then
          (if msglen < 2 then Some (-2, w)
           else do { level \<leftarrow> nth_opt buffer 1; Some (0, w\<lparr>w_log_level := uint level\<rparr>) })
        else Some (-1, w) })"

subsection \<open>What is printed\<close>

text \<open>Text for the control socket, and nothing else.\<close>

definition print_all :: "string list \<Rightarrow> world \<Rightarrow> world" where
  "print_all ts w = w\<lparr>w_out := w_out w @ map Ctrl_text ts\<rparr>"

lemma dprintf_print: "dprintf s w = print_all [s] w"
  by (simp add: dprintf_def print_all_def)

lemma print_all_append: "print_all ts (print_all ss w) = print_all (ss @ ts) w"
  by (simp add: print_all_def)

lemma print_all_Nil: "print_all [] w = w"
  by (simp add: print_all_def)

lemma print_all_simps [simp]:
  "c_blocks (print_all ts w) = c_blocks w" "c_options (print_all ts w) = c_options w"
  "c_number_of_blocks (print_all ts w) = c_number_of_blocks w" "c_block_size (print_all ts w) = c_block_size w"
  "c_tentative_timeout (print_all ts w) = c_tentative_timeout w" "c_block_timeout (print_all ts w) = c_block_timeout w"
  "c_block_refresh_factor (print_all ts w) = c_block_refresh_factor w" "c_statistics (print_all ts w) = c_statistics w"
  "c_spare_leases_needed (print_all ts w) = c_spare_leases_needed w" "c_prefix (print_all ts w) = c_prefix w"
  "c_prefix_len (print_all ts w) = c_prefix_len w" "c_node_id (print_all ts w) = c_node_id w"
  "c_disable_dhcp (print_all ts w) = c_disable_dhcp w" "w_times (print_all ts w) = w_times w"
  "get_block i (print_all ts w) = get_block i w"
  by (simp_all add: print_all_def get_block_def)

lemmas prints = dprintf_print print_all_append

text \<open>The status, as a function of the state.\<close>

definition status_row :: "int \<Rightarrow> ddhcp_block \<Rightarrow> string" where
  "status_row now b = dec_int (sint (b_index b)) @ tab @ dec (state_number (b_state b)) @ tab
     @ concat (map hex2 (b_node_id b)) @ tab @ dec (unat (b_claiming_counts b)) @ tab
     @ (case b_addresses b of
          None \<Rightarrow> ''-''
        | Some ls \<Rightarrow> take 15 (dec (count_state OFFERED ls) @ ''/'' @ dec (count_state LEASED ls)))
     @ tab @ dec (nat (b_timeout b - now)) @ newline"

definition in_use :: "int \<Rightarrow> ddhcp_block \<Rightarrow> bool" where
  "in_use now b \<longleftrightarrow> now < b_timeout b"

definition status_head :: "world \<Rightarrow> string list" where
  "status_head w =
     [''block size/number'' @ tab @ dec (unat (c_block_size w)) @ ''/'' @ dec (unat (c_number_of_blocks w)) @ '' '' @ newline,
      ''      tentative timeout'' @ tab @ dec (unat (c_tentative_timeout w)) @ newline,
      ''      timeout'' @ tab @ dec (unat (c_block_timeout w)) @ newline,
      ''      refresh factor'' @ tab @ dec (unat (c_block_refresh_factor w)) @ newline,
      ''      spare leases needed'' @ tab @ dec (unat (c_spare_leases_needed w)) @ newline,
      ''      network: '' @ inet_ntoa (c_prefix w) @ ''/'' @ dec (unat (c_prefix_len w)) @ '' '' @ newline,
      ''node id'' @ tab @ concat (map hex2 (c_node_id w)) @ newline,
      ''ddhcp blocks'' @ newline,
      ''index'' @ tab @ ''state'' @ tab @ ''owner'' @ tab @ tab @ tab @ ''claim'' @ tab @ ''leases'' @ tab @ ''timeout'' @ newline]"

definition status_text :: "int \<Rightarrow> world \<Rightarrow> string list" where
  "status_text now w = status_head w @ map (status_row now) (filter (in_use now) (c_blocks w)) @
     [newline @ ''blocks in use: '' @ dec (length (filter (in_use now) (c_blocks w))) @ newline]"

text \<open>The leases of a block are free, offered or leased.\<close>

lemma count_states: "count_state FREE ls + count_state OFFERED ls + count_state LEASED ls = length ls"
proof (induction ls)
  case (Cons l ls)
  then show ?case by (cases "l_state l") (simp_all add: count_state_def)
qed (simp add: count_state_def)

lemma leases_text_eq:
  assumes "wf_block w i b"
  shows "leases_text (c_block_size w) b = Some (case b_addresses b of None \<Rightarrow> ''-''
    | Some ls \<Rightarrow> take 15 (dec (count_state OFFERED ls) @ ''/'' @ dec (count_state LEASED ls)))"
proof (cases "b_addresses b")
  case None
  then show ?thesis by (simp add: leases_text_def)
next
  case (Some ls)
  have len: "length ls = unat (c_block_size w)" using assms Some by (simp add: wf_block_def)
  have sc: "scannable b" "scanned b = ls"
    using wf_block_scannable [OF assms] Some by simp_all
  let ?f = "count_state FREE ls" and ?o = "count_state OFFERED ls" and ?l = "count_state LEASED ls"
  have sum: "?f + ?o + ?l = unat (c_block_size w)" using count_states [of ls] len by simp
  then have lt: "?f < 256" "?o < 256" "?l < 256" using unat_u8_less [of "c_block_size w"] by linarith+
  have "(ucast (c_block_size w) :: u32) = of_nat ?f + of_nat ?o + of_nat ?l"
    by (simp add: of_nat_add [symmetric] sum del: of_nat_add)
  then have "unat (ucast (c_block_size w) - of_nat ?f - of_nat ?o :: u32) = ?l"
    using lt(3) by (simp add: unat_of_nat)
  then show ?thesis
    using Some sc lt by (simp add: leases_text_def dhcp_num_free_eq dhcp_num_offered_eq unat_of_nat)
qed

lemma node_id_text_eq: "length n = 8 \<Longrightarrow> node_id_text n = Some (concat (map hex2 n))"
  by (simp add: node_id_text_def)

lemma show_loop:
  assumes inv: "wf_state w" and "n \<le> num_blocks w" and same: "c_blocks v = c_blocks w" "c_block_size v = c_block_size w"
  shows "foldM (show_block now) [0..<n] (0, v) =
    Some (of_nat (length (filter (in_use now) (take n (c_blocks w)))),
      print_all (map (status_row now) (filter (in_use now) (take n (c_blocks w)))) v)"
  using assms(2)
proof (induction n)
  case 0
  then show ?case by (simp add: print_all_Nil)
next
  case (Suc n)
  then have n: "n < length (c_blocks w)" "n < length (c_blocks v)" "n < num_blocks w" using inv same by (simp_all add: inv_length)
  let ?b = "c_blocks w ! n" and ?ts = "map (status_row now) (filter (in_use now) (take n (c_blocks w)))"
  have wfb: "wf_block w n ?b" using inv n(3) by (rule inv_block)
  have "show_block now n (m, print_all ?ts v) = Some (if in_use now ?b then (m + 1, print_all (?ts @ [status_row now ?b]) v)
      else (m, print_all ?ts v))" for m
    using n same leases_text_eq [OF wfb] wfb
    by (simp add: show_block_def prints in_use_def status_row_def node_id_text_eq wf_block_def)
  moreover have "take (Suc n) (c_blocks w) = take n (c_blocks w) @ [?b]" using n(1) by (simp add: take_Suc_conv_app_nth)
  ultimately show ?case using Suc by (simp add: foldM_append add.commute)
qed

lemma block_show_status_eq:
  assumes inv: "wf_state w" and few: "num_blocks w < 2 ^ 31"
  shows "block_show_status w =
    Some (print_all (status_text (shd (w_times w)) w) (w\<lparr>w_times := stl (w_times w)\<rparr>))"
proof -
  let ?w = "w\<lparr>w_times := stl (w_times w)\<rparr>" and ?now = "shd (w_times w)"
  have id: "node_id_text (c_node_id w) = Some (concat (map hex2 (c_node_id w)))"
    using wf_params_D(1) [OF inv_params [OF inv]] by (simp add: node_id_text_eq)
  have loop: "foldM (show_block ?now) [0..<num_blocks w] (0, print_all (status_head w) ?w) =
    Some (of_nat (length (filter (in_use ?now) (c_blocks w))),
      print_all (map (status_row ?now) (filter (in_use ?now) (c_blocks w))) (print_all (status_head w) ?w))"
    using show_loop [OF inv order_refl, of "print_all (status_head w) ?w" ?now] inv by (simp add: inv_length)
  have "length (filter (in_use ?now) (c_blocks w)) \<le> num_blocks w"
    using length_filter_le [of "in_use ?now" "c_blocks w"] inv by (simp add: inv_length)
  then have "sint (of_nat (length (filter (in_use ?now) (c_blocks w))) :: u32) = int (length (filter (in_use ?now) (c_blocks w)))"
    using few by (simp add: signed_of_nat signed_take_bit_int_eq_self)
  then have num: "dec_int (sint (of_nat (length (filter (in_use ?now) (c_blocks w))) :: u32)) =
      dec (length (filter (in_use ?now) (c_blocks w)))"
    by (simp add: dec_int_def)
  have time: "time_null (print_all ts w) = (?now, print_all ts ?w)" for ts
    by (simp add: time_null_def print_all_def)
  have "block_show_status w = do {
      (n, v) \<leftarrow> foldM (show_block ?now) [0..<num_blocks w] (0, print_all (status_head w) ?w);
      Some (dprintf (newline @ ''blocks in use: '' @ dec_int (sint n) @ newline) v) }"
    by (simp add: block_show_status_def prints id time status_head_def)
  then show ?thesis
    by (simp add: loop num prints status_text_def)
qed

text \<open>The options, each with its payload.\<close>

definition option_text :: "dhcp_option \<Rightarrow> string list" where
  "option_text x = (dec (unat (o_code x)) @ tab @ dec (unat (o_len x)) @ tab) #
     map (\<lambda>b. dec (unat b) @ tab) (o_payload x) @ [newline]"

lemma show_option_eq:
  assumes "wf_option x"
  shows "show_option x w = Some (print_all (option_text x) w)"
proof -
  have "foldM (\<lambda>i w. do { b \<leftarrow> nth_opt (o_payload x) i; Some (dprintf (dec (unat b) @ tab) w) }) [0..<n] v =
      Some (print_all (map (\<lambda>b. dec (unat b) @ tab) (take n (o_payload x))) v)" if "n \<le> length (o_payload x)" for n v
    using that
    by (induction n) (simp_all add: print_all_Nil foldM_append prints take_Suc_conv_app_nth)
  from this [of "unat (o_len x)"] assms show ?thesis
    by (simp add: show_option_def prints option_text_def wf_option_def)
qed

definition options_text :: "u32 \<Rightarrow> world \<Rightarrow> string list" where
  "options_text t w =
     [''DHCP Lease Time: '' @ dec (unat t) @ newline @ newline,
      ''DHCP Disabled: '' @ dec (unat (c_disable_dhcp w)) @ newline,
      ''DHCP Option Store'' @ newline @ ''code'' @ tab @ ''len'' @ tab @ ''payload'' @ newline] @
     concat (map option_text (c_options w))"

lemma dhcp_options_show_eq:
  assumes "wf_store (c_options w)" "find_in_option_store_address_lease_time (c_options w) = Some t"
  shows "dhcp_options_show w = Some (print_all (options_text t w) w)"
proof -
  have "foldM show_option xs v = Some (print_all (concat (map option_text xs)) v)" if "\<forall>x \<in> set xs. wf_option x" for xs v
    using that by (induction xs arbitrary: v) (simp_all add: print_all_Nil show_option_eq prints)
  then show ?thesis
    using assms by (simp add: dhcp_options_show_def prints options_text_def wf_store_def)
qed

text \<open>The statistics: the counters, the first byte of every owner, and the blocks by state.\<close>

definition owner_text :: "ddhcp_block \<Rightarrow> string" where
  "owner_text b = ''block.'' @ dec (unat (b_index b)) @ ''.owner '' @ dec (unat (b_node_id b ! 0)) @ newline"

definition in_states :: "block_state set \<Rightarrow> ddhcp_block list \<Rightarrow> nat" where
  "in_states S bs = length (filter (\<lambda>b. b_state b \<in> S) bs)"

definition statistics_text :: "world \<Rightarrow> string list" where
  "statistics_text w =
     map (\<lambda>(name, field). name @ '' '' @ dec_int (c_statistics w field) @ newline) statistics_lines @
     map owner_text (c_blocks w) @
     [''ddhcp.blocks.free '' @ dec (in_states {DDHCP_FREE, DDHCP_BLOCKED} (c_blocks w)) @ newline,
      ''ddhcp.blocks.tentative '' @ dec (in_states {DDHCP_TENTATIVE, DDHCP_CLAIMING} (c_blocks w)) @ newline,
      ''ddhcp.blocks.claimed '' @ dec (in_states {DDHCP_CLAIMED, DDHCP_OURS} (c_blocks w)) @ newline]"

lemma count_loop_blocks:
  assumes inv: "wf_state w" and "n \<le> num_blocks w" and same: "c_blocks v = c_blocks w"
  defines "bs \<equiv> \<lambda>n. take n (c_blocks w)"
  shows "foldM count_block [0..<n] ((0, 0, 0), v) =
    Some ((of_nat (in_states {DDHCP_FREE, DDHCP_BLOCKED} (bs n)), of_nat (in_states {DDHCP_TENTATIVE, DDHCP_CLAIMING} (bs n)),
        of_nat (in_states {DDHCP_CLAIMED, DDHCP_OURS} (bs n))), print_all (map owner_text (bs n)) v)"
  using assms(2)
proof (induction n)
  case 0
  then show ?case by (simp add: print_all_Nil bs_def in_states_def)
next
  case (Suc n)
  then have n: "n < length (c_blocks w)" "n < length (c_blocks v)" "n < num_blocks w" using inv same by (simp_all add: inv_length)
  have id: "0 < length (b_node_id (c_blocks w ! n))" using inv_block [OF inv n(3)] by (simp add: wf_block_def)
  have take: "bs (Suc n) = bs n @ [c_blocks w ! n]" using n(1) by (simp add: bs_def take_Suc_conv_app_nth)
  have "count_block n ((f, t, c), print_all ts v) = Some ((case b_state (c_blocks w ! n) of
         DDHCP_BLOCKED \<Rightarrow> (f + 1, t, c) | DDHCP_FREE \<Rightarrow> (f + 1, t, c) | DDHCP_CLAIMING \<Rightarrow> (f, t + 1, c)
       | DDHCP_TENTATIVE \<Rightarrow> (f, t + 1, c) | DDHCP_CLAIMED \<Rightarrow> (f, t, c + 1) | DDHCP_OURS \<Rightarrow> (f, t, c + 1)),
      print_all (ts @ [owner_text (c_blocks w ! n)]) v)" for f t c ts
    using n same id by (simp add: count_block_def prints owner_text_def)
  then show ?case
    using Suc by (cases "b_state (c_blocks w ! n)") (simp_all add: foldM_append take in_states_def add.commute)
qed

lemma statistics_show_eq:
  assumes inv: "wf_state w"
  shows "statistics_show reset w = Some (let v = print_all (statistics_text w) w
    in if reset then v\<lparr>c_statistics := (\<lambda>_. 0)\<rparr> else v)"
proof -
  have lines: "fold (\<lambda>(name, field) w. dprintf (name @ '' '' @ dec_int (c_statistics w field) @ newline) w) xs v =
      print_all (map (\<lambda>(name, field). name @ '' '' @ dec_int (c_statistics v field) @ newline) xs) v" for xs v
    by (induction xs arbitrary: v) (auto simp: print_all_Nil prints)
  have le: "in_states S (c_blocks w) \<le> num_blocks w" for S
    using length_filter_le [of "\<lambda>b. b_state b \<in> S" "c_blocks w"] inv by (simp add: in_states_def inv_length)
  have cnt: "unat (of_nat (in_states S (c_blocks w)) :: u32) = in_states S (c_blocks w)" for S
    using le_less_trans [OF le [of S] unat_u32_less [of "c_number_of_blocks w"]] by (intro of_nat_inverse) simp_all
  let ?c = "\<lambda>S. of_nat (in_states S (c_blocks w)) :: u32"
  have loop: "foldM count_block [0..<num_blocks w] ((0, 0, 0), print_all xs w) =
      Some ((?c {DDHCP_FREE, DDHCP_BLOCKED}, ?c {DDHCP_TENTATIVE, DDHCP_CLAIMING}, ?c {DDHCP_CLAIMED, DDHCP_OURS}),
        print_all (map owner_text (c_blocks w)) (print_all xs w))" for xs
    using count_loop_blocks [OF inv order_refl, of "print_all xs w"] inv by (simp add: inv_length)
  show ?thesis
    unfolding statistics_show_def lines by (cases reset) (simp_all add: loop cnt prints statistics_text_def Let_def)
qed

subsection \<open>What a command does\<close>

text \<open>
  The messages the code refuses for their length. Bytes behind an option, a code or a level are
  not looked at, and the commands on the statistics are carried out whatever their length is.
\<close>

definition malformed :: "u8 list \<Rightarrow> int \<Rightarrow> bool" where
  "malformed buffer msglen \<longleftrightarrow> msglen = 0
     \<or> buffer ! 0 \<in> {DDHCPCTL_BLOCK_SHOW, DDHCPCTL_DHCP_OPTIONS_SHOW} \<and> msglen \<noteq> 1
     \<or> buffer ! 0 = DDHCPCTL_DHCP_OPTION_SET \<and> (msglen < 3 \<or> uint (buffer ! 2) + 3 > msglen)
     \<or> buffer ! 0 \<in> {DDHCPCTL_DHCP_OPTION_REMOVE, DDHCPCTL_LOG_LEVEL_SET} \<and> msglen < 2"

definition known_command :: "u8 \<Rightarrow> bool" where
  "known_command cmd \<longleftrightarrow> cmd \<in> {DDHCPCTL_BLOCK_SHOW, DDHCPCTL_DHCP_OPTIONS_SHOW, DDHCPCTL_DHCP_OPTION_SET,
     DDHCPCTL_DHCP_OPTION_REMOVE, DDHCPCTL_LOG_LEVEL_SET, DDHCPCTL_STATISTICS, DDHCPCTL_STATISTICS_RESET}"

text \<open>The effect of each accepted command, as a function of the state.\<close>

definition option_in :: "u8 list \<Rightarrow> dhcp_option" where
  "option_in buffer = \<lparr>o_code = buffer ! 1, o_len = buffer ! 2, o_payload = take (unat (buffer ! 2)) (drop 3 buffer)\<rparr>"

definition command_effect :: "u8 list \<Rightarrow> world \<Rightarrow> world" where
  "command_effect buffer w = (let cmd = buffer ! 0 in
     if cmd = DDHCPCTL_BLOCK_SHOW then
       print_all (status_text (shd (w_times w)) w) (w\<lparr>w_times := stl (w_times w)\<rparr>)
     else if cmd = DDHCPCTL_DHCP_OPTIONS_SHOW then
       print_all (options_text (the (find_in_option_store_address_lease_time (c_options w))) w) w
     else if cmd = DDHCPCTL_STATISTICS then print_all (statistics_text w) w
     else if cmd = DDHCPCTL_STATISTICS_RESET then print_all (statistics_text w) (w\<lparr>c_statistics := (\<lambda>_. 0)\<rparr>)
     else if cmd = DDHCPCTL_DHCP_OPTION_SET then
       w\<lparr>w_allocs := stl (stl (w_allocs w)),
         w_out := w_out w @ [Std_text (dec (unat (buffer ! 1)) @ '':'' @ dec (unat (buffer ! 2)) @ newline)],
         c_options := set_option_in_store (c_options w) (option_in buffer)\<rparr>
     else if cmd = DDHCPCTL_DHCP_OPTION_REMOVE then
       w\<lparr>c_options := remove_option_in_store (c_options w) (buffer ! 1)\<rparr>
     else w\<lparr>w_log_level := uint (buffer ! 1)\<rparr>)"

text \<open>
  The answer to a command. The two requests for memory of a new option are the only
  calls that can fail on an accepted command.
\<close>

definition two_allocs :: "u8 list \<Rightarrow> world \<Rightarrow> bool" where
  "two_allocs buffer w \<longleftrightarrow> (buffer ! 0 = DDHCPCTL_DHCP_OPTION_SET \<longrightarrow> shd (w_allocs w) \<and> shd (stl (w_allocs w)))"

lemma command_cases:
  obtains "cmd = DDHCPCTL_BLOCK_SHOW" | "cmd = DDHCPCTL_DHCP_OPTIONS_SHOW" | "cmd = DDHCPCTL_DHCP_OPTION_SET"
    | "cmd = DDHCPCTL_DHCP_OPTION_REMOVE" | "cmd = DDHCPCTL_LOG_LEVEL_SET" | "cmd = DDHCPCTL_STATISTICS"
    | "cmd = DDHCPCTL_STATISTICS_RESET" | "\<not> known_command cmd"
  by (auto simp: known_command_def)

lemma handle_command_refused:
  assumes "buffer \<noteq> []" "msglen \<le> int (length buffer)" "malformed buffer msglen"
  shows "handle_command buffer msglen w = Some (-2, w)"
proof (cases "msglen = 0")
  case False
  have first: "nth_opt buffer 0 = Some (buffer ! 0)" using assms(1) by simp
  show ?thesis
  proof (cases "buffer ! 0" rule: command_cases)
    case 3
    then show ?thesis
      using assms(2,3) False first
      by (cases "msglen < 3") (simp_all add: handle_command_def malformed_def option_set_command_def ddhcpctl_codes)
  qed (use assms(3) False first in \<open>simp_all add: handle_command_def malformed_def known_command_def ddhcpctl_codes\<close>)
qed (simp add: handle_command_def)

lemma handle_command_unknown:
  assumes "buffer \<noteq> []" "msglen \<noteq> 0" "\<not> known_command (buffer ! 0)"
  shows "handle_command buffer msglen w = Some (-1, w)"
  using assms by (simp add: handle_command_def known_command_def)

lemma room_for_option:
  "msglen \<le> int (length buffer) \<Longrightarrow> \<not> uint (b :: u8) + 3 > msglen \<Longrightarrow> unat b + 3 \<le> length buffer"
  using uint_nat [of b] by linarith

lemma option_set_command_eq:
  assumes len: "msglen \<le> int (length buffer)" "\<not> msglen < 3" "\<not> uint (buffer ! 2) + 3 > msglen"
    and mem: "shd (w_allocs w)" "shd (stl (w_allocs w))"
  shows "option_set_command buffer msglen w = Some (0,
    w\<lparr>w_allocs := stl (stl (w_allocs w)),
      w_out := w_out w @ [Std_text (dec (unat (buffer ! 1)) @ '':'' @ dec (unat (buffer ! 2)) @ newline)],
      c_options := set_option_in_store (c_options w) (option_in buffer)\<rparr>)"
proof -
  have "unat (buffer ! 2) + 3 \<le> length buffer" using room_for_option len by blast
  then have "nth_opt buffer 1 = Some (buffer ! 1)" "nth_opt buffer 2 = Some (buffer ! 2)"
    "take_opt (unat (buffer ! 2)) (drop 3 buffer) = Some (take (unat (buffer ! 2)) (drop 3 buffer))"
    by simp_all
  then show ?thesis
    using len mem unfolding option_set_command_def calloc_def option_in_def
    by (simp del: One_nat_def)
qed

lemma handle_command_eq:
  assumes inv: "wf_state w" and few: "num_blocks w < 2 ^ 31" and len: "buffer \<noteq> []" "msglen \<le> int (length buffer)"
    and accepted: "\<not> malformed buffer msglen" "known_command (buffer ! 0)" and mem: "two_allocs buffer w"
  shows "handle_command buffer msglen w = Some (0, command_effect buffer w)"
proof -
  obtain t where t: "find_in_option_store_address_lease_time (c_options w) = Some t"
    using lease_time_ok inv by (auto simp: wf_state_def)
  have options: "dhcp_options_show w = Some (print_all (options_text t w) w)"
    using dhcp_options_show_eq [OF _ t] inv by (simp add: wf_state_def)
  have zero: "(print_all ts w)\<lparr>c_statistics := (\<lambda>_. 0)\<rparr> = print_all ts (w\<lparr>c_statistics := (\<lambda>_. 0)\<rparr>)" for ts
    by (simp add: print_all_def)
  have first: "nth_opt buffer 0 = Some (buffer ! 0)" "msglen \<noteq> 0" using len accepted(1) by (simp_all add: malformed_def)
  show ?thesis
  proof (cases "buffer ! 0" rule: command_cases)
    case 3
    then show ?thesis
      using accepted(1) first mem option_set_command_eq [OF len(2)]
      by (simp add: handle_command_def malformed_def two_allocs_def command_effect_def ddhcpctl_codes)
  next
    case 1
    then show ?thesis
      using accepted(1) first block_show_status_eq [OF inv few]
      by (simp add: handle_command_def command_effect_def malformed_def ddhcpctl_codes)
  next
    case 2
    then show ?thesis
      using accepted(1) first options t
      by (simp add: handle_command_def command_effect_def malformed_def ddhcpctl_codes)
  next
    case 4
    then show ?thesis
      using accepted(1) first len
      by (simp add: handle_command_def command_effect_def malformed_def ddhcpctl_codes nth_opt_def)
  next
    case 5
    then show ?thesis
      using accepted(1) first len
      by (simp add: handle_command_def command_effect_def malformed_def ddhcpctl_codes nth_opt_def)
  next
    case 6
    then show ?thesis
      using first statistics_show_eq [OF inv, of False]
      by (simp add: handle_command_def command_effect_def ddhcpctl_codes)
  next
    case 7
    then show ?thesis
      using first statistics_show_eq [OF inv, of True] zero
      by (simp add: handle_command_def command_effect_def ddhcpctl_codes)
  next
    case 8
    then show ?thesis using accepted(2) by simp
  qed
qed

text \<open>Whatever comes in, the daemon goes on with a good state, its blocks and its packet cache untouched.\<close>

definition commanded :: "world \<Rightarrow> world \<Rightarrow> bool" where
  "commanded w w' \<longleftrightarrow> keeps w w' \<and> c_blocks w' = c_blocks w \<and>
     c_claiming_blocks w' = c_claiming_blocks w \<and> c_dhcp_packet_cache w' = c_dhcp_packet_cache w"

lemma commanded_env:
  assumes "wf_state w" "env_change w v" "c_dhcp_packet_cache v = c_dhcp_packet_cache w" "wf_store os"
  shows "commanded w (v\<lparr>c_options := os, w_log_level := l\<rparr>)"
  using assms env_change_inv [OF assms(2,1)]
  by (simp add: commanded_def keeps_def same_params_def env_change_def wf_state_def wf_params_def wf_blocks_def
      wf_block_def wf_claiming_def block_subnet_def)

lemma handle_command_ok:
  assumes inv: "wf_state w" and few: "num_blocks w < 2 ^ 31" and len: "buffer \<noteq> []" "msglen \<le> int (length buffer)"
  shows "ok (handle_command buffer msglen w) (\<lambda>(r, w'). commanded w w')"
proof -
  have store: "wf_store (c_options w)" using inv by (simp add: wf_state_def)
  have env: "commanded w v" if "env_change w v" "c_dhcp_packet_cache v = c_dhcp_packet_cache w" for v
    using commanded_env [OF inv that, of "c_options v" "w_log_level v"] store that by (simp add: env_change_def)
  consider (bad) "malformed buffer msglen" | (unknown) "msglen \<noteq> 0" "\<not> known_command (buffer ! 0)"
    | (memory) "\<not> malformed buffer msglen" "\<not> two_allocs buffer w"
    | (good) "\<not> malformed buffer msglen" "known_command (buffer ! 0)" "two_allocs buffer w"
    by (auto simp: malformed_def)
  then show ?thesis
  proof cases
    case bad
    then show ?thesis using handle_command_refused [OF len] env [of w] by simp
  next
    case unknown
    then show ?thesis using handle_command_unknown [OF len(1)] env [of w] by simp
  next
    case memory
    have n: "nth_opt buffer 0 = Some (buffer ! 0)" "nth_opt buffer 1 = Some (buffer ! 1)" "nth_opt buffer 2 = Some (buffer ! 2)"
      "\<not> msglen < 3" "\<not> uint (buffer ! 2) + 3 > msglen" "msglen \<noteq> 0"
      using memory len by (simp_all add: two_allocs_def malformed_def)
    show ?thesis
      using memory n env
      by (auto simp: two_allocs_def handle_command_def option_set_command_def ddhcpctl_codes calloc_def env_change_def
          same_params_def)
  next
    case good
    have "wf_store (set_option_in_store (c_options w) (option_in buffer))"
      if "buffer ! 0 = DDHCPCTL_DHCP_OPTION_SET"
      using wf_set_option_in_store [OF store] that good(1) room_for_option [OF len(2), of "buffer ! 2"]
      by (simp add: option_in_def wf_option_def malformed_def)
    then have "commanded w (command_effect buffer w)"
      using inv wf_remove_option_in_store [OF store] store
      by (cases "buffer ! 0" rule: command_cases)
        (simp_all add: command_effect_def good ddhcpctl_codes commanded_def keeps_def print_all_def same_params_def
          wf_state_def wf_params_def wf_blocks_def wf_block_def wf_claiming_def block_subnet_def)
    then show ?thesis using handle_command_eq [OF inv few len good] by simp
  qed
qed

end
