(* ===== verification/Sockets.thy ===== *)
theory Sockets
  imports Types
begin

text \<open>
  netsock.c, netlink.c and epoll.c: the file descriptors of the daemon.

  The kernel's side is the state \<open>kernel\<close>: the open descriptors, those registered with
  the one \<open>epoll\<close> instance with the data that registration points to, the settings the
  sockets got, and the descriptors that were closed without being open. Whether a call
  succeeds is the next of a stream about which nothing is assumed, but a call on a descriptor
  that is not open fails. \<open>nl_connect\<close> of libnl is a parameter of the state.
  \<open>Inl\<close> is a call of \<open>exit\<close> or \<open>abort\<close>, \<open>None\<close> undefined behaviour.
\<close>

subsection \<open>Data\<close>

text \<open>The functions a descriptor's data may point to.\<close>

datatype socket_init =
    Netsock_multicast_init | Netsock_server_init | Netsock_dhcp_init | Netsock_control_init | Netlink_init

datatype epoll_in = Hdl_ddhcp_block | Hdl_ddhcp_dhcp | Hdl_dhcp | Hdl_ctrl_new | Hdl_ctrl_cmd | Netlink_in_hdl

datatype epoll_hup = Hdl_epoll_hup | Netlink_close

record ddhcp_epoll_data =
  e_fd :: int
  e_interface_id :: int
  e_interface_name :: string
  e_setup :: "socket_init option"
  e_epollin :: epoll_in
  e_epollhup :: epoll_hup

datatype address = Unix string | Inet6 in6_addr u16 int | Inet in_addr u16

datatype setting =
    Unlink string | Bind_device string | Bind address | Nonblock | Listen nat
  | Join in6_addr int | Loop_off | Broadcast | Connect address

record kernel =
  k_open :: "int list"
  k_polled :: "ddhcp_epoll_data list"
  k_set :: "(int \<times> setting) list"
  k_stray :: "int list"
  k_answers :: "bool stream"
  k_index :: "string \<Rightarrow> int"
  k_nl_connect :: "int list \<Rightarrow> int option"

subsection \<open>System calls\<close>

definition answer :: "kernel \<Rightarrow> bool \<times> kernel" where
  "answer k = (shd (k_answers k), k\<lparr>k_answers := stl (k_answers k)\<rparr>)"

text \<open>The lowest number that is not open.\<close>

definition new_fd :: "int list \<Rightarrow> int" where
  "new_fd fds = hd (filter (\<lambda>i. i \<notin> set fds) (map int [0..<Suc (length fds)]))"

definition open_fd :: "int \<Rightarrow> kernel \<Rightarrow> kernel" where
  "open_fd fd k = k\<lparr>k_open := fd # k_open k\<rparr>"

definition socket :: "kernel \<Rightarrow> int \<times> kernel" where
  "socket k = (let (a, k) = answer k; fd = new_fd (k_open k) in if a then (fd, open_fd fd k) else (-1, k))"

definition accept :: "int \<Rightarrow> kernel \<Rightarrow> int \<times> kernel" where
  "accept fd k = (let (a, k) = answer k; new = new_fd (k_open k)
     in if a \<and> fd \<in> set (k_open k) then (new, open_fd new k) else (-1, k))"

text \<open>Closing a descriptor ends its registration.\<close>

definition close_fd :: "int \<Rightarrow> kernel \<Rightarrow> kernel" where
  "close_fd fd k =
     (if fd \<in> set (k_open k)
      then k\<lparr>k_open := remove1 fd (k_open k), k_polled := filter (\<lambda>d. e_fd d \<noteq> fd) (k_polled k)\<rparr>
      else k\<lparr>k_stray := k_stray k @ [fd]\<rparr>)"

text \<open>Calls that set up a socket; the first that fails ends the sequence.\<close>

definition call :: "int \<Rightarrow> setting \<Rightarrow> kernel \<Rightarrow> bool \<times> kernel" where
  "call fd c k = (let (a, k) = answer k
     in if a \<and> fd \<in> set (k_open k) then (True, k\<lparr>k_set := k_set k @ [(fd, c)]\<rparr>) else (False, k))"

fun calls :: "int \<Rightarrow> setting list \<Rightarrow> kernel \<Rightarrow> bool \<times> kernel" where
  "calls fd [] k = (True, k)"
| "calls fd (c # cs) k = (let (a, k) = call fd c k in if a then calls fd cs k else (False, k))"

definition registered :: "int \<Rightarrow> kernel \<Rightarrow> bool" where
  "registered fd k \<longleftrightarrow> fd \<in> e_fd ` set (k_polled k)"

definition epoll_ctl_add :: "int \<Rightarrow> ddhcp_epoll_data \<Rightarrow> kernel \<Rightarrow> bool \<times> kernel" where
  "epoll_ctl_add efd d k = (let (a, k) = answer k
     in if a \<and> efd \<in> set (k_open k) \<and> e_fd d \<in> set (k_open k) \<and> \<not> registered (e_fd d) k
        then (True, k\<lparr>k_polled := k_polled k @ [d]\<rparr>) else (False, k))"

definition epoll_ctl_del :: "int \<Rightarrow> int \<Rightarrow> kernel \<Rightarrow> bool \<times> kernel" where
  "epoll_ctl_del efd fd k = (let (a, k) = answer k
     in if a \<and> efd \<in> set (k_open k) \<and> registered fd k
        then (True, k\<lparr>k_polled := filter (\<lambda>d. e_fd d \<noteq> fd) (k_polled k)\<rparr>) else (False, k))"

subsection \<open>netsock.c\<close>

definition DDHCP_MULTICAST_PORT :: u16 where "DDHCP_MULTICAST_PORT = 1234"
definition DDHCP_UNICAST_PORT :: u16 where "DDHCP_UNICAST_PORT = 1235"

definition in6addr_localmcast :: in6_addr where
  "in6addr_localmcast =
     [0xff, 0x02, 0x00, 0x00, 0x00, 0x00, 0x00, 0x00, 0x00, 0x00, 0x00, 0x00, 0x00, 0x00, 0x12, 0x34]"

text \<open>One entry of \<open>getifaddrs\<close>: the name, and the address if it is an IPv6 address.\<close>

record ifaddr =
  ifa_name :: string
  ifa_addr6 :: "(in6_addr \<times> u32) option"

fun get_ipv6_linklokal :: "string \<Rightarrow> ifaddr list \<Rightarrow> in6_addr option" where
  "get_ipv6_linklokal interface [] = None"
| "get_ipv6_linklokal interface (ifa # ifas) =
     (if ifa_name ifa = interface then
        (case ifa_addr6 ifa of
           Some (a, scope) \<Rightarrow> if scope > 0 then Some a else get_ipv6_linklokal interface ifas
         | None \<Rightarrow> get_ipv6_linklokal interface ifas)
      else get_ipv6_linklokal interface ifas)"

text \<open>The first \<open>fcntl\<close> only reads the flags. \<open>socket\<close> is not checked for an error.\<close>

definition netsock_unix_socket_open ::
  "ddhcp_epoll_data \<Rightarrow> kernel \<Rightarrow> int \<times> ddhcp_epoll_data \<times> kernel" where
  "netsock_unix_socket_open data k =
     (let (ctl_sock, k) = socket k;
          k = k\<lparr>k_set := k_set k @ [(-1, Unlink (e_interface_name data))]\<rparr>;
          (bound, k) = call ctl_sock (Bind (Unix (take 108 (e_interface_name data)))) k
      in if \<not> bound then (-1, data, close_fd ctl_sock k)
         else let (_, k) = answer k;
                  (ready, k) = calls ctl_sock [Nonblock, Listen 2] k
           in if \<not> ready then (-1, data, close_fd ctl_sock k)
              else (0, data\<lparr>e_fd := ctl_sock, e_interface_id := 0\<rparr>, k))"

text \<open>Never called, and no code sets the descriptor it closes.\<close>

definition netsocket_unix_socket_close :: "int \<Rightarrow> string \<Rightarrow> kernel \<Rightarrow> kernel" where
  "netsocket_unix_socket_close control_socket control_path k =
     (let k = close_fd control_socket k in k\<lparr>k_set := k_set k @ [(-1, Unlink control_path)]\<rparr>)"

definition netsock_open_socket_v6 ::
  "in6_addr \<Rightarrow> u16 \<Rightarrow> ddhcp_epoll_data \<Rightarrow> kernel \<Rightarrow> int \<times> ddhcp_epoll_data \<times> kernel" where
  "netsock_open_socket_v6 addr port data k =
     (let name = e_interface_name data;
          scope_id = k_index k name;
          (sock, k) = socket k;
          (ready, k) = calls sock [Bind_device name, Bind (Inet6 addr port scope_id)] k
      in if \<not> ready then (-1, data, close_fd sock k)
         else (1, data\<lparr>e_fd := sock, e_interface_id := scope_id\<rparr>, k))"

definition netsock_multicast_join :: "in6_addr \<Rightarrow> ddhcp_epoll_data \<Rightarrow> kernel \<Rightarrow> int \<times> kernel" where
  "netsock_multicast_join addr data k =
     (let (ready, k) = calls (e_fd data) [Join addr (e_interface_id data), Loop_off] k
      in if \<not> ready then (-1, close_fd (e_fd data) k) else (1, k))"

definition netsock_open_dhcp :: "u16 \<Rightarrow> ddhcp_epoll_data \<Rightarrow> kernel \<Rightarrow> int \<times> ddhcp_epoll_data \<times> kernel" where
  "netsock_open_dhcp port data k =
     (let name = e_interface_name data;
          (sock, k) = socket k
      in if sock < 0 then (-1, data, k)
         else let (ready, k) = calls sock [Bind_device name, Bind (Inet [0, 0, 0, 0] port), Broadcast] k
           in if \<not> ready then (-1, data, close_fd sock k)
              else (sock, data\<lparr>e_fd := sock, e_interface_id := k_index k name\<rparr>, k))"

definition netsock_multicast_init :: "ddhcp_epoll_data \<Rightarrow> kernel \<Rightarrow> int \<times> ddhcp_epoll_data \<times> kernel" where
  "netsock_multicast_init data k =
     (let (r, data, k) = netsock_open_socket_v6 in6addr_localmcast DDHCP_MULTICAST_PORT data k
      in if r < 0 then (-1, data, k)
         else let (r, k) = netsock_multicast_join in6addr_localmcast data k
           in if r < 0 then (-1, data, close_fd (e_fd data) k) else (0, data, k))"

definition netsock_server_init :: "ddhcp_epoll_data \<Rightarrow> kernel \<Rightarrow> int \<times> ddhcp_epoll_data \<times> kernel" where
  "netsock_server_init data k =
     (let (r, data, k) = netsock_open_socket_v6 (replicate 16 0) DDHCP_UNICAST_PORT data k
      in if r < 0 then (-1, data, k) else (0, data, k))"

definition dhcp_port :: u16 where "dhcp_port = 67"

definition netsock_dhcp_init :: "ddhcp_epoll_data \<Rightarrow> kernel \<Rightarrow> int \<times> ddhcp_epoll_data \<times> kernel" where
  "netsock_dhcp_init data k =
     (let (r, data, k) = netsock_open_dhcp dhcp_port data k
      in if r < 0 then (-1, data, k) else (0, data, k))"

definition netsock_control_init :: "ddhcp_epoll_data \<Rightarrow> kernel \<Rightarrow> int \<times> ddhcp_epoll_data \<times> kernel" where
  "netsock_control_init data k =
     (let (r, data, k) = netsock_unix_socket_open data k
      in if r < 0 then (-1, data, k) else (0, data, k))"

subsection \<open>netlink.c\<close>

text \<open>\<open>nl_socket_alloc\<close> may fail; \<open>nl_connect\<close> opens the descriptor.\<close>

definition netlink_init :: "ddhcp_epoll_data \<Rightarrow> kernel \<Rightarrow> int \<times> ddhcp_epoll_data \<times> kernel" where
  "netlink_init data k =
     (let (sock, k) = answer k
      in if \<not> sock then (-1, data, k)
         else case k_nl_connect k (k_open k) of
             None \<Rightarrow> (-1, data, k)
           | Some fd \<Rightarrow> (0, data\<lparr>e_fd := fd\<rparr>, open_fd fd k))"

text \<open>\<open>nl_socket_free\<close> closes the descriptor.\<close>

definition netlink_close :: "ddhcp_epoll_data \<Rightarrow> kernel \<Rightarrow> kernel" where
  "netlink_close data k = close_fd (e_fd data) k"

subsection \<open>epoll.c\<close>

definition setup_socket :: "socket_init \<Rightarrow> ddhcp_epoll_data \<Rightarrow> kernel \<Rightarrow> int \<times> ddhcp_epoll_data \<times> kernel" where
  "setup_socket i = (case i of
       Netsock_multicast_init \<Rightarrow> netsock_multicast_init
     | Netsock_server_init \<Rightarrow> netsock_server_init
     | Netsock_dhcp_init \<Rightarrow> netsock_dhcp_init
     | Netsock_control_init \<Rightarrow> netsock_control_init
     | Netlink_init \<Rightarrow> netlink_init)"

definition SIGABRT :: int where "SIGABRT = 6"

definition epoll_init :: "kernel \<Rightarrow> int + int \<times> kernel" where
  "epoll_init k = (let (efd, k) = socket k in if efd = -1 then Inl SIGABRT else Inr (efd, k))"

definition epoll_data_new ::
  "string \<Rightarrow> socket_init option \<Rightarrow> epoll_in \<Rightarrow> epoll_hup option \<Rightarrow> kernel \<Rightarrow> int + ddhcp_epoll_data \<times> kernel" where
  "epoll_data_new interface_name setup epollin epollhup k =
     (let (mem, k) = answer k
      in if \<not> mem then Inl 2
         else Inr (\<lparr>e_fd = 0, e_interface_id = 0, e_interface_name = interface_name, e_setup = setup,
                    e_epollin = epollin, e_epollhup = (case epollhup of None \<Rightarrow> Hdl_epoll_hup | Some h \<Rightarrow> h)\<rparr>, k))"

text \<open>A descriptor 0 is taken for one that is not open yet. Calling a NULL \<open>setup\<close> is undefined.\<close>

definition register :: "int \<Rightarrow> ddhcp_epoll_data \<Rightarrow> kernel \<Rightarrow> int + ddhcp_epoll_data \<times> kernel" where
  "register efd data k = (let (a, k) = epoll_ctl_add efd data k in if a then Inr (data, k) else Inl 1)"

definition epoll_add_fd ::
  "int \<Rightarrow> ddhcp_epoll_data \<Rightarrow> kernel \<Rightarrow> (int + ddhcp_epoll_data \<times> kernel) option" where
  "epoll_add_fd efd data k =
     (if e_fd data = 0 then
        (case e_setup data of
           None \<Rightarrow> None
         | Some i \<Rightarrow> let (r, data, k) = setup_socket i data k
             in if r \<noteq> 0 then Some (Inl 2) else Some (register efd data k))
      else Some (register efd data k))"

definition del_fd :: "int \<Rightarrow> int \<Rightarrow> kernel \<Rightarrow> int + kernel" where
  "del_fd efd fd k = (let (a, k) = epoll_ctl_del efd fd k in if a then Inr k else Inl 1)"

text \<open>The end of \<open>hdl_ctrl_cmd\<close>, and all that is left to do of a connection that hangs up.\<close>

definition hdl_epoll_hup :: "int \<Rightarrow> int \<Rightarrow> kernel \<Rightarrow> int + kernel" where
  "hdl_epoll_hup efd fd k = (case del_fd efd fd k of Inl c \<Rightarrow> Inl c | Inr k \<Rightarrow> Inr (close_fd fd k))"

subsection \<open>The sockets of main.c\<close>

text \<open>Computations that may end the process, one after the other.\<close>

definition andthen :: "(int + 'a) option \<Rightarrow> ('a \<Rightarrow> (int + 'b) option) \<Rightarrow> (int + 'b) option" where
  "andthen m f = (case m of None \<Rightarrow> None | Some (Inl c) \<Rightarrow> Some (Inl c) | Some (Inr x) \<Rightarrow> f x)"

type_synonym socket_spec = "string \<times> socket_init \<times> epoll_in \<times> epoll_hup option"

fun new_data :: "socket_spec list \<Rightarrow> kernel \<Rightarrow> (int + ddhcp_epoll_data list \<times> kernel) option" where
  "new_data [] k = Some (Inr ([], k))"
| "new_data ((name, i, f, h) # specs) k =
     andthen (Some (epoll_data_new name (Some i) f h k)) (\<lambda>(d, k).
     andthen (new_data specs k) (\<lambda>(ds, k). Some (Inr (d # ds, k))))"

fun add_data :: "int \<Rightarrow> ddhcp_epoll_data list \<Rightarrow> kernel \<Rightarrow> (int + ddhcp_epoll_data list \<times> kernel) option" where
  "add_data efd [] k = Some (Inr ([], k))"
| "add_data efd (d # ds) k =
     andthen (epoll_add_fd efd d k) (\<lambda>(d, k).
     andthen (add_data efd ds k) (\<lambda>(ds, k). Some (Inr (d # ds, k))))"

definition node_sockets :: "string \<Rightarrow> string \<Rightarrow> socket_spec list" where
  "node_sockets interface control_path =
     [(interface, Netsock_multicast_init, Hdl_ddhcp_block, None),
      (interface, Netsock_server_init, Hdl_ddhcp_dhcp, None),
      (control_path, Netsock_control_init, Hdl_ctrl_new, None),
      ([], Netlink_init, Netlink_in_hdl, Some Netlink_close)]"

definition client_sockets :: "string \<Rightarrow> u8 \<Rightarrow> socket_spec list" where
  "client_sockets interface_client disable_dhcp =
     (if disable_dhcp = 0 then [(interface_client, Netsock_dhcp_init, Hdl_dhcp, None)] else [])"

record sockets =
  so_epoll_fd :: int
  so_control_path :: string
  so_data :: "ddhcp_epoll_data list"
  so_kernel :: kernel

definition open_sockets ::
  "string \<Rightarrow> string \<Rightarrow> string \<Rightarrow> u8 \<Rightarrow> kernel \<Rightarrow> (int + sockets) option" where
  "open_sockets interface interface_client control_path disable_dhcp k =
     andthen (Some (epoll_init k)) (\<lambda>(efd, k).
     andthen (new_data (node_sockets interface control_path) k) (\<lambda>(ds, k).
     andthen (add_data efd ds k) (\<lambda>(ds, k).
     andthen (new_data (client_sockets interface_client disable_dhcp) k) (\<lambda>(cs, k).
     andthen (add_data efd cs k) (\<lambda>(cs, k).
       Some (Inr \<lparr>so_epoll_fd = efd, so_control_path = control_path, so_data = ds @ cs, so_kernel = k\<rparr>))))))"

text \<open>
  A new connection on the control socket, and the end of one. The data of the event is the
  one that was registered for the control socket.
\<close>

definition control_fd :: "sockets \<Rightarrow> int" where
  "control_fd so = (case find (\<lambda>d. e_epollin d = Hdl_ctrl_new) (so_data so) of Some d \<Rightarrow> e_fd d | None \<Rightarrow> -1)"

definition hdl_ctrl_new :: "sockets \<Rightarrow> (int + sockets) option" where
  "hdl_ctrl_new so =
     andthen (Some (epoll_data_new (so_control_path so) None Hdl_ctrl_cmd None (so_kernel so))) (\<lambda>(control_link, k).
       let (new, k) = accept (control_fd so) k
       in andthen (epoll_add_fd (so_epoll_fd so) (control_link\<lparr>e_fd := new\<rparr>) k) (\<lambda>(_, k).
            Some (Inr (so\<lparr>so_kernel := k\<rparr>))))"

definition end_connection :: "int \<Rightarrow> sockets \<Rightarrow> int + sockets" where
  "end_connection fd so = (case hdl_epoll_hup (so_epoll_fd so) fd (so_kernel so) of
       Inl c \<Rightarrow> Inl c
     | Inr k \<Rightarrow> Inr (so\<lparr>so_kernel := k\<rparr>))"

text \<open>The descriptor of a connection that is open.\<close>

definition connection :: "int \<Rightarrow> sockets \<Rightarrow> bool" where
  "connection fd so \<longleftrightarrow> (\<exists>d \<in> set (k_polled (so_kernel so)). e_fd d = fd \<and> e_epollin d = Hdl_ctrl_cmd)"

text \<open>What the shutdown does: only the netlink socket is closed, the others are left to the kernel.\<close>

definition close_sockets :: "sockets \<Rightarrow> sockets" where
  "close_sockets so =
     (let k = so_kernel so;
          k = (case find (\<lambda>d. e_epollin d = Netlink_in_hdl) (so_data so) of
              Some d \<Rightarrow> netlink_close d k
            | None \<Rightarrow> k)
      in so\<lparr>so_kernel := k\<lparr>k_set := k_set k @ [(-1, Unlink (so_control_path so))]\<rparr>\<rparr>)"

end
