(* ===== verification/Main_Loop.thy ===== *)
theory Main_Loop
  imports House_Keeping Ddhcp_Lease Control Sockets
begin

text \<open>
  The event loop of main.c. The state is what \<open>main\<close> keeps over its iterations: the
  configuration, its sockets with the kernel's side of them, the global receive buffer of
  1500 bytes, which is written from its start and keeps the rest of older datagrams, the
  datagrams that wait on the sockets, and the local variables of the loop. What \<open>epoll_wait\<close> reports is an input of an iteration.
  \<open>None\<close> is undefined behaviour; \<open>Inl\<close> is a call of \<open>exit\<close>.
\<close>

subsection \<open>State\<close>

definition BUFSIZE :: nat where "BUFSIZE = 1500"

record daemon =
  s_config :: world
  s_sockets :: sockets
  s_buffer :: "u8 list"
  s_mcast :: "(u8 list \<times> in6_addr) list"
  s_server :: "(u8 list \<times> in6_addr) list"
  s_dhcp :: "u8 list list"
  s_config_loop_timeout :: u32
  s_loop_timeout :: u32
  s_timeout_time :: int
  s_learning_phase :: bool

text \<open>
  The data \<open>epoll_wait\<close> reports, by the function that handles it. A connection is named by
  its descriptor, and a command carries what \<open>read\<close> returns for it, \<open>None\<close> being an error;
  the result of the netlink library is its own. A hang-up is one of a connection: the
  daemon's own sockets take datagrams or listen and do not hang up.
\<close>

datatype event =
    Multicast_in | Server_in | Dhcp_in | Control_new
  | Control_in int "u8 list option" | Netlink_in int | Hangup int | Failure

subsection \<open>Receiving\<close>

definition receive :: "u8 list \<Rightarrow> u8 list \<Rightarrow> int \<times> u8 list" where
  "receive datagram buffer =
     (let data = take BUFSIZE datagram in (int (length data), data @ drop (length data) buffer))"

text \<open>The loop of the three receivers; an empty datagram ends it and the rest waits.\<close>

fun read_loop ::
  "('d \<Rightarrow> u8 list) \<Rightarrow> ('d \<Rightarrow> u8 list \<Rightarrow> int \<Rightarrow> world \<Rightarrow> (int \<times> world) option) \<Rightarrow> 'd list \<Rightarrow>
   bool \<times> u8 list \<times> world \<Rightarrow> ('d list \<times> bool \<times> u8 list \<times> world) option" where
  "read_loop bytes process [] s = Some ([], s)"
| "read_loop bytes process (d # queue) (need, buffer, w) =
     (let (len, buffer) = receive (bytes d) buffer
      in if len \<le> 0 then Some (queue, need, buffer, w)
         else do {
           (r, w) \<leftarrow> process d buffer len w;
           read_loop bytes process queue (need \<or> r \<noteq> 0, buffer, w) })"

definition process_direct :: "u8 list \<times> in6_addr \<Rightarrow> u8 list \<Rightarrow> int \<Rightarrow> world \<Rightarrow> (int \<times> world) option" where
  "process_direct d buffer len w = do {
     let w = statistics_record STAT_DIRECT_RECV_BYTE len w;
     let w = statistics_record STAT_DIRECT_RECV_PKG 1 w;
     w \<leftarrow> ddhcp_dhcp_process buffer len (snd d) w;
     Some (0, w) }"

definition process_mcast :: "u8 list \<times> in6_addr \<Rightarrow> u8 list \<Rightarrow> int \<Rightarrow> world \<Rightarrow> (int \<times> world) option" where
  "process_mcast d buffer len w = do {
     let w = statistics_record STAT_MCAST_RECV_BYTE len w;
     let w = statistics_record STAT_MCAST_RECV_PKG 1 w;
     w \<leftarrow> ddhcp_block_process buffer len (snd d) w;
     Some (0, w) }"

definition process_dhcp :: "u8 list \<Rightarrow> u8 list \<Rightarrow> int \<Rightarrow> world \<Rightarrow> (int \<times> world) option" where
  "process_dhcp d buffer len w = do {
     let w = statistics_record STAT_DHCP_RECV_BYTE len w;
     let w = statistics_record STAT_DHCP_RECV_PKG 1 w;
     dhcp_process buffer len w }"

definition hdl_ddhcp_dhcp :: "daemon \<Rightarrow> (bool \<times> daemon) option" where
  "hdl_ddhcp_dhcp s = do {
     (queue, _, buffer, w) \<leftarrow> read_loop fst process_direct (s_server s) (False, s_buffer s, s_config s);
     Some (False, s\<lparr>s_server := queue, s_buffer := buffer, s_config := w\<rparr>) }"

definition hdl_ddhcp_block :: "daemon \<Rightarrow> (bool \<times> daemon) option" where
  "hdl_ddhcp_block s = do {
     (queue, _, buffer, w) \<leftarrow> read_loop fst process_mcast (s_mcast s) (False, s_buffer s, s_config s);
     Some (True, s\<lparr>s_mcast := queue, s_buffer := buffer, s_config := w\<rparr>) }"

definition hdl_dhcp :: "daemon \<Rightarrow> (bool \<times> daemon) option" where
  "hdl_dhcp s = do {
     (queue, need, buffer, w) \<leftarrow> read_loop id process_dhcp (s_dhcp s) (False, s_buffer s, s_config s);
     Some (need, s\<lparr>s_dhcp := queue, s_buffer := buffer, s_config := w\<rparr>) }"

text \<open>The answer goes out before the connection is closed.\<close>

definition hdl_ctrl_cmd :: "int \<Rightarrow> u8 list option \<Rightarrow> daemon \<Rightarrow> (int + (bool \<times> daemon)) option" where
  "hdl_ctrl_cmd fd data s = do {
     let (len, buffer) = (case data of None \<Rightarrow> (-1, s_buffer s) | Some bs \<Rightarrow> receive bs (s_buffer s));
     (_, w) \<leftarrow> handle_command buffer len (s_config s);
     Some (case end_connection fd (s_sockets s) of
         Inl code \<Rightarrow> Inl code
       | Inr so \<Rightarrow> Inr (False, s\<lparr>s_buffer := buffer, s_config := w, s_sockets := so\<rparr>)) }"

subsection \<open>One iteration\<close>

definition get_loop_timeout :: "world \<Rightarrow> u32" where
  "get_loop_timeout w = ucast (c_tentative_timeout w) * 500"

text \<open>Nothing is reported for a descriptor that is no connection any more.\<close>

fun handle_event :: "event \<Rightarrow> daemon \<Rightarrow> (int + (bool \<times> daemon)) option" where
  "handle_event Multicast_in s = map_option Inr (hdl_ddhcp_block s)"
| "handle_event Server_in s = map_option Inr (hdl_ddhcp_dhcp s)"
| "handle_event Dhcp_in s = map_option Inr (hdl_dhcp s)"
| "handle_event (Control_in fd data) s =
     (if connection fd (s_sockets s) then hdl_ctrl_cmd fd data s else Some (Inr (False, s)))"
| "handle_event Control_new s =
     andthen (hdl_ctrl_new (s_sockets s)) (\<lambda>so. Some (Inr (False, s\<lparr>s_sockets := so\<rparr>)))"
| "handle_event (Netlink_in r) s = Some (Inr (r \<noteq> 0, s))"
| "handle_event (Hangup fd) s =
     (if connection fd (s_sockets s)
      then Some (case end_connection fd (s_sockets s) of
          Inl code \<Rightarrow> Inl code
        | Inr so \<Rightarrow> Inr (False, s\<lparr>s_sockets := so\<rparr>))
      else Some (Inr (False, s)))"
| "handle_event Failure s = Some (Inl 1)"

fun handle_events :: "event list \<Rightarrow> bool \<times> daemon \<Rightarrow> (int + (bool \<times> daemon)) option" where
  "handle_events [] (need, s) = Some (Inr (need, s))"
| "handle_events (e # es) (need, s) = do {
     r \<leftarrow> handle_event e s;
     case r of
       Inl code \<Rightarrow> Some (Inl code)
     | Inr (n, s) \<Rightarrow> handle_events es (need \<or> n, s) }"

text \<open>The clock decides whether house keeping is due and ends the learning phase.\<close>

definition check_time :: "daemon \<Rightarrow> bool \<times> daemon" where
  "check_time s =
     (let s = s\<lparr>s_loop_timeout := s_config_loop_timeout s\<rparr>;
          (now, w) = time_null (s_config s);
          s = s\<lparr>s_config := w\<rparr>
      in if s_timeout_time s \<le> now
         then let s = s\<lparr>s_timeout_time := now + uint (drop_bit 1 (c_tentative_timeout w))\<rparr>
              in if s_learning_phase s
                 then (True, s\<lparr>s_learning_phase := False, s_config := hook HOOK_LEARNING_PHASE_END w\<rparr>)
                 else (True, s)
         else (False, s))"

definition loop_iteration :: "event list \<Rightarrow> daemon \<Rightarrow> (int + daemon) option" where
  "loop_iteration es s = do {
     let (need_house_keeping, s) = check_time s;
     r \<leftarrow> handle_events es (need_house_keeping, s);
     case r of
       Inl code \<Rightarrow> Some (Inl code)
     | Inr (need_house_keeping, s) \<Rightarrow>
         if need_house_keeping \<and> \<not> s_learning_phase s then do {
           w \<leftarrow> house_keeping (s_config s);
           Some (Inr (s\<lparr>s_config := w\<rparr>)) }
         else Some (Inr s) }"

text \<open>The state before the first iteration.\<close>

definition loop_start :: "bool \<Rightarrow> u8 list \<Rightarrow> sockets \<Rightarrow> world \<Rightarrow> daemon" where
  "loop_start learning_phase buffer so w =
     (let t = get_loop_timeout w; (now, w) = time_null w
      in \<lparr>s_config = (if learning_phase then w else hook HOOK_LEARNING_PHASE_END w),
          s_sockets = so, s_buffer = buffer,
          s_mcast = [], s_server = [], s_dhcp = [], s_config_loop_timeout = t,
          s_loop_timeout = (if learning_phase then t else 0),
          s_timeout_time = (if learning_phase then now + uint (c_block_timeout w) else now),
          s_learning_phase = learning_phase\<rparr>)"

text \<open>The end of \<open>main\<close>, after a signal has stopped the loop.\<close>

definition shutdown :: "daemon \<Rightarrow> daemon option" where
  "shutdown s = do {
     w \<leftarrow> ddhcp_block_free (s_config s);
     let w = w\<lparr>c_options := free_option_store (c_options w)\<rparr>;
     w \<leftarrow> dhcp_packet_list_free w;
     Some (s\<lparr>s_config := w, s_buffer := [], s_sockets := close_sockets (s_sockets s)\<rparr>) }"

end
