(* ===== verification/Roaming.thy ===== *)
theory Roaming
  imports Ddhcp_Lease
begin

text \<open>
  A client that moved: its address lies in a block another node owns. The request crosses
  two nodes and comes back as one acknowledgement: the node the client talks to forwards
  it, the owner prolongs the lease and answers, and the first node acknowledges.
\<close>

subsection \<open>A message between two nodes of one network\<close>

lemma check_network:
  assumes "same_network w v" "m_prefix p = c_prefix v" "m_prefix_len p = c_prefix_len v" "m_blocksize p = c_block_size v"
  shows "ddhcp_check_packet p w = 0"
  using assms by (simp add: ddhcp_check_packet_def same_network_def)

lemma deliver_renew:
  assumes wf: "wf_mcast p" and mem: "shd (w_allocs w)" and bs: "hton_packet p = Some bs"
    and chk: "ddhcp_check_packet p w = 0" and body: "m_body p = Renew renew"
  defines "v \<equiv> w\<lparr>w_allocs := stl (w_allocs w)\<rparr>"
  shows "m_command p = DDHCP_MSG_RENEWLEASE \<Longrightarrow> ddhcp_dhcp_process bs (int (length bs)) sender w =
      ddhcp_dhcp_renewlease p sender (statistics_record STAT_DIRECT_RECV_RENEWLEASE 1 v)"
    "m_command p = DDHCP_MSG_LEASEACK \<Longrightarrow> ddhcp_dhcp_process bs (int (length bs)) sender w =
      ddhcp_dhcp_leaseack p (statistics_record STAT_DIRECT_RECV_LEASEACK 1 v)"
    "renew_payload p = Some renew"
proof -
  have dec: "ntoh_mcast_packet bs (int (length bs)) w = Some (Inr p, v)"
    using ntoh_hton_lemma [OF wf mem, of "[]"] bs unfolding v_def by fastforce
  have c: "ddhcp_check_packet p v = 0" using chk by (simp add: v_def ddhcp_check_packet_def)
  show "m_command p = DDHCP_MSG_RENEWLEASE \<Longrightarrow> ddhcp_dhcp_process bs (int (length bs)) sender w =
      ddhcp_dhcp_renewlease p sender (statistics_record STAT_DIRECT_RECV_RENEWLEASE 1 v)"
    "m_command p = DDHCP_MSG_LEASEACK \<Longrightarrow> ddhcp_dhcp_process bs (int (length bs)) sender w =
      ddhcp_dhcp_leaseack p (statistics_record STAT_DIRECT_RECV_LEASEACK 1 v)"
    using dec c by (simp_all add: ddhcp_dhcp_process_def ddhcp_msgs)
  show "renew_payload p = Some renew" using body by (simp add: renew_payload_def)
qed

lemma lease_address_net: "same_network w v \<Longrightarrow> lease_address v i j = lease_address w i j"
  by (simp add: same_network_def lease_address_def block_subnet_def)

lemma reliable_stat: "reliable w \<Longrightarrow> reliable (statistics_record s n (w\<lparr>w_allocs := stl (w_allocs w)\<rparr>))"
  by simp

subsection \<open>The owner\<close>

definition renew_of :: "dhcp_packet \<Rightarrow> in_addr \<Rightarrow> world \<Rightarrow> ddhcp_renew_payload" where
  "renew_of request a w = \<lparr>r_chaddr = d_chaddr request, r_address = load32 (w_little_endian w) a,
     r_xid = d_xid request, r_lease_seconds = 0\<rparr>"

lemma renew_packet_body: "m_body (renew_packet request a w) = Renew (renew_of request a w)"
  by (simp add: renew_packet_def renew_of_def)

lemma owner_answers:
  assumes w: "wf_state w" and v: "wf_state v" and net: "same_network v w" "w_little_endian v = w_little_endian w"
    and wf: "wf_dhcp_packet request" and rel: "reliable v"
    and ij: "i < num_blocks v" "j < unat (c_block_size v)" "ours v i"
    and bs: "hton_packet (renew_packet request (lease_address v i j) w) = Some bs"
  shows "ok (ddhcp_dhcp_process bs (int (length bs)) sender v) (\<lambda>v'.
    evolves (lease_rel i j prolonged) v v' \<and>
    (\<exists>cs. hton_packet (lease_packet DDHCP_MSG_LEASEACK (renew_of request (lease_address v i j) w) v) = Some cs \<and>
       w_out v' = w_out v @ [Direct_send sender cs]))"
proof -
  let ?a = "lease_address v i j" and ?p = "renew_packet request (lease_address v i j) w"
  let ?r = "renew_of request ?a w"
  let ?v = "statistics_record STAT_DIRECT_RECV_RENEWLEASE 1 (v\<lparr>w_allocs := stl (w_allocs v)\<rparr>)"
  have hd: "wf_dhcp_header request" using wf by (simp add: wf_dhcp_packet_def)
  have wfp: "wf_mcast ?p" using inv_params [OF w] hd by (rule wf_renew_packet)
  have chk: "ddhcp_check_packet ?p v = 0"
    using net by (intro check_network [of v w]) (simp_all add: renew_packet_def)
  note del = deliver_renew [OF wfp reliable_now(1) [OF rel] bs chk renew_packet_body]
  have eq: "ddhcp_dhcp_process bs (int (length bs)) sender v = ddhcp_dhcp_renewlease ?p sender ?v"
    by (rule del(1)) (simp add: renew_packet_def)
  have env: "env_change v ?v" by (simp add: statistics_record_def env_change_def same_params_def)
  have valid: "valid_renew ?r" using hd by (simp add: valid_renew_def renew_of_def wf_dhcp_header_def)
  have a: "store32 (w_little_endian ?v) (r_address ?r) = lease_address ?v i j"
    using net(2) by (simp add: renew_of_def statistics_record_def store32_load32 lease_address_def block_subnet_def)
  have same: "c_blocks ?v = c_blocks v" "num_blocks ?v = num_blocks v" "c_block_size ?v = c_block_size v"
    "w_out ?v = w_out v" "lease_packet c r ?v = lease_packet c r v" for c r
    by (simp_all add: statistics_record_def lease_packet_def)
  have "ok (ddhcp_dhcp_renewlease ?p sender ?v) (renewed ?r sender ?v)"
    using env_change_inv [OF env v] valid del(3) by (rule renewlease_ok)
  then show ?thesis
    unfolding eq
  proof (rule ok_mono)
    fix v'
    assume "renewed ?r sender ?v v'"
    then obtain k m where km: "k < num_blocks v" "m < unat (c_block_size v)" "lease_address ?v i j = lease_address ?v k m"
      "if ours v k then evolves (lease_rel k m prolonged) ?v v' \<and> lease_sent DDHCP_MSG_LEASEACK ?r sender ?v v'
       else quiet ?v v' \<and> lease_sent DDHCP_MSG_LEASENAK ?r sender ?v v'"
      using ij a unfolding renewed_def Let_def same ours_def by metis
    then have "k = i" "m = j"
      using lease_address_inj [OF env_change_inv [OF env v], of i j k m] ij same by auto
    then have ev: "evolves (lease_rel i j prolonged) ?v v'" and ls: "lease_sent DDHCP_MSG_LEASEACK ?r sender ?v v'"
      using km(4) ij(3) by simp_all
    have "evolves (lease_rel i j prolonged) v v'" using evolves_env_l [OF env v] ev by blast
    then show "evolves (lease_rel i j prolonged) v v' \<and>
        (\<exists>cs. hton_packet (lease_packet DDHCP_MSG_LEASEACK ?r v) = Some cs \<and> w_out v' = w_out v @ [Direct_send sender cs])"
      using ls rel by (simp add: lease_sent_def same)
  qed
qed

subsection \<open>The node the client talks to\<close>

text \<open>A requested address that is complete in its option survives the copy into the cache.\<close>

definition complete_address :: "dhcp_packet \<Rightarrow> bool" where
  "complete_address p \<longleftrightarrow>
     (\<forall>x \<in> set (sent_options p). o_code x = DHCP_CODE_REQUESTED_ADDRESS \<longrightarrow> 4 \<le> unat (o_len x))"

definition kept_copy :: "dhcp_packet \<Rightarrow> int \<Rightarrow> dhcp_packet" where
  "kept_copy p t = p\<lparr>d_options := map trimmed (sent_options p), d_timeout := t\<rparr>"

lemma sent_kept_copy: "wf_dhcp_packet p \<Longrightarrow> sent_options (kept_copy p t) = map trimmed (sent_options p)"
  by (simp add: sent_options_def kept_copy_def wf_dhcp_packet_def)

lemma find_trimmed:
  "find (\<lambda>x. o_code x = c) (map trimmed os) = map_option trimmed (find (\<lambda>x. o_code x = c) os)"
  by (induction os) (simp_all add: trimmed_def)

lemma requested_find:
  assumes "wf_dhcp_packet p"
  shows "requested_address p = (case find (\<lambda>x. o_code x = DHCP_CODE_REQUESTED_ADDRESS) (sent_options p) of
      Some x \<Rightarrow> map_option Some (take_opt 4 (o_payload x))
    | None \<Rightarrow> Some (if d_ciaddr p \<noteq> zero_addr then Some (d_ciaddr p) else None))"
proof -
  have "wf_options (d_options p) (d_options_len p)"
    using assms by (simp add: wf_options_def wf_dhcp_packet_def)
  then show ?thesis
    by (simp add: requested_address_def find_option_requested_address_def find_option_eq sent_options_def
        map_option_case Option.bind_eq_None_conv split: option.split)
qed

lemma kept_copy_ok:
  assumes wf: "wf_dhcp_packet p" and full: "complete_address p"
  shows "wf_dhcp_packet (kept_copy p t)" "addressable (kept_copy p t)" "addressable p"
    "requested_address (kept_copy p t) = requested_address p"
proof -
  have rd: "\<forall>x \<in> set (sent_options p). readable x" using wf by (simp add: wf_dhcp_packet_def sent_options_def)
  show wfk: "wf_dhcp_packet (kept_copy p t)"
    using wf rd sent_kept_copy [OF wf, of t]
    by (auto simp: wf_dhcp_packet_def wf_dhcp_header_def kept_copy_def sent_options_def readable_def trimmed_def)
  show "addressable (kept_copy p t)"
    using full rd sent_kept_copy [OF wf, of t]
    by (auto simp: addressable_def complete_address_def trimmed_def readable_def)
  show "addressable p" using full rd by (fastforce simp: addressable_def complete_address_def readable_def)
  have "take_opt 4 (o_payload (trimmed x)) = take_opt 4 (o_payload x)"
    if "find (\<lambda>x. o_code x = DHCP_CODE_REQUESTED_ADDRESS) (sent_options p) = Some x" for x
  proof -
    have "x \<in> set (sent_options p)" "o_code x = DHCP_CODE_REQUESTED_ADDRESS"
      using that by (auto simp: find_Some_iff)
    then have "4 \<le> unat (o_len x)" "unat (o_len x) \<le> length (o_payload x)"
      using full rd by (auto simp: complete_address_def readable_def)
    then show ?thesis by (simp add: take_opt_def trimmed_def min_def)
  qed
  then show "requested_address (kept_copy p t) = requested_address p"
    unfolding requested_find [OF wf] requested_find [OF wfk] sent_kept_copy [OF wf] find_trimmed
    by (auto simp: kept_copy_def split: option.split)
qed

lemma forwards:
  assumes inv: "wf_state w" and wf: "wf_dhcp_packet request" and ad: "addressable request" and rel: "reliable w"
    and want: "wants request w i j" and st: "b_state (c_blocks w ! i) = DDHCP_CLAIMED"
  shows "ok (dhcp_hdl_request request w) (\<lambda>(r, w'). r = 2 \<and> wf_state w' \<and> reliable w' \<and> same_params w w' \<and>
    b_state (c_blocks w' ! i) = DDHCP_CLAIMED \<and> b_addresses (c_blocks w' ! i) \<noteq> None \<and>
    (\<exists>t. c_dhcp_packet_cache w' = c_dhcp_packet_cache w @ [kept_copy request t]) \<and>
    (\<exists>bs. hton_packet (renew_packet request (lease_address w i j) w) = Some bs \<and>
       w_out w' = w_out w @ [Direct_send (b_owner_address (c_blocks w ! i)) bs]))"
proof (rule ok_mono [OF dhcp_hdl_request_ok [OF inv wf ad reliable_now(1) [OF rel]]], clarify)
  fix r w' d
  assume d: "decides request w d" and perf: "performs request d w r w'"
  have "d = Forward i j" using decides_wants [OF inv want d] st by simp
  with perf have fw: "forwarded request (lease_address w i j) i j w r w'"
    by simp
  then have ev: "evolves (forward_rel request (c_block_size w) i j) w w'" by (simp add: forwarded_def)
  have "forward_rel request (c_block_size w) i j i (c_blocks w ! i) (c_blocks w' ! i)"
    using evolvesD(5) [OF ev] want by (simp add: wants_def)
  then show "r = 2 \<and> wf_state w' \<and> reliable w' \<and> same_params w w' \<and>
    b_state (c_blocks w' ! i) = DDHCP_CLAIMED \<and> b_addresses (c_blocks w' ! i) \<noteq> None \<and>
    (\<exists>t. c_dhcp_packet_cache w' = c_dhcp_packet_cache w @ [kept_copy request t]) \<and>
    (\<exists>bs. hton_packet (renew_packet request (lease_address w i j) w) = Some bs \<and>
       w_out w' = w_out w @ [Direct_send (b_owner_address (c_blocks w ! i)) bs])"
    using fw rel st evolvesD(1,2) [OF ev]
    by (auto simp: forwarded_def forward_rel_def renew_sent_def stored_def kept_copy_def keeps_def)
qed

lemma client_acked:
  assumes w: "wf_state w" and v: "wf_state v" and net: "same_network w v" and rel: "reliable w"
    and wf: "wf_dhcp_packet request" and full: "complete_address request" and want: "wants request w i j"
    and st: "b_state (c_blocks w ! i) \<noteq> DDHCP_OURS" "b_addresses (c_blocks w ! i) \<noteq> None"
    and cache: "c_dhcp_packet_cache w = qs @ [kept_copy request t]"
      "\<forall>q \<in> set qs. \<not> answers (d_xid request) (d_chaddr request) q"
    and renew: "r_xid renew = d_xid request" "r_chaddr renew = d_chaddr request" "valid_renew renew"
    and cs: "hton_packet (lease_packet DDHCP_MSG_LEASEACK renew v) = Some cs"
  shows "ok (ddhcp_dhcp_process cs (int (length cs)) sender w) (\<lambda>w'.
    c_dhcp_packet_cache w' = qs \<and> evolves (lease_rel i j (granted (kept_copy request t))) w w' \<and>
    answer_sent DHCPACK True (kept_copy request t) (lease_address w i j)
      (lease_hooks w (lease_address w i j) (d_chaddr request)) w w')"
proof -
  let ?p = "lease_packet DDHCP_MSG_LEASEACK renew v" and ?q = "kept_copy request t"
  let ?w = "statistics_record STAT_DIRECT_RECV_LEASEACK 1 (w\<lparr>w_allocs := stl (w_allocs w)\<rparr>)"
  let ?u = "forget renew ?w"
  note q = kept_copy_ok [OF wf full]
  have chk: "ddhcp_check_packet ?p w = 0"
    using net by (intro check_network [of w v]) (simp_all add: lease_packet_def)
  have body: "m_body ?p = Renew renew" by (simp add: lease_packet_def)
  note del = deliver_renew [OF wf_lease_packet(1) [OF v renew(3) disjI1 [OF refl]] reliable_now(1) [OF rel] cs chk body]
  have eq: "ddhcp_dhcp_process cs (int (length cs)) sender w = ddhcp_dhcp_leaseack ?p ?w"
    by (rule del(2)) (simp add: lease_packet_def)
  have hit: "answers (r_xid renew) (r_chaddr renew) ?q" by (simp add: answers_def renew kept_copy_def)
  have miss: "\<forall>q \<in> set qs. \<not> answers (r_xid renew) (r_chaddr renew) q" using cache(2) by (simp add: renew)
  have cw: "c_dhcp_packet_cache ?w = qs @ [?q]" using cache(1) by (simp add: statistics_record_def)
  have find: "find (answers (r_xid renew) (r_chaddr renew)) (qs @ [?q]) = Some ?q"
    using miss hit by (induction qs) auto
  have uc: "c_dhcp_packet_cache ?u = qs" using cw miss hit by (simp add: forget_def)
  have env: "env_change w ?u"
    by (rule env_change_trans [OF _ forget_env]) (simp add: statistics_record_def env_change_def same_params_def)
  have out: "w_out ?u = w_out w" "reliable ?u" "c_options ?u = c_options w" "c_blocks ?u = c_blocks w"
    "lease_address ?u = lease_address w" "lease_hooks ?u = lease_hooks w"
    using rel stl_sset [of _ "w_allocs w"]
    by (auto simp: forget_def statistics_record_def reliable_def lease_address_def block_subnet_def lease_hooks_def fun_eq_iff)
  have at: "ack_at ?q ?u i j"
    using want st(1) q(4) unfolding ack_at_env [OF env] by (simp add: ack_at_def wants_def ack_address_def)
  have arr: "b_addresses (c_blocks ?u ! k) \<noteq> None" if "ack_at ?q ?u k m" for k m
  proof -
    have "k = i"
      using that at lease_address_inj [OF env_change_inv [OF env w], of k m i j] by (auto simp: ack_at_def)
    then show ?thesis using st(2) out(4) by simp
  qed
  have "ok (dhcp_rhdl_ack ?q ?u) (\<lambda>(r, w'). acknowledged ?q ?u r w')"
    using env_change_inv [OF env w] q(1) addressable_requested [OF q(1,2)] arr by (rule rhdl_ack_ok)
  then have "ok (ddhcp_dhcp_leaseack ?p ?w) (\<lambda>w'. \<exists>r. acknowledged ?q ?u r w')"
    using del(3) find cw free_wf [OF q(1)]
    by (simp add: ddhcp_dhcp_leaseack_def dhcp_packet_list_find_eq forget_def [symmetric]) (auto simp: ok_iff forget_def)
  then show ?thesis
    unfolding eq
  proof (rule ok_mono, elim exE)
    fix w' r
    assume "acknowledged ?q ?u r w'"
    then obtain k m where km: "ack_at ?q ?u k m" "grants ?q k m ?u r w'" using at by (auto simp: acknowledged_def)
    then have "k = i" "m = j"
      using at lease_address_inj [OF env_change_inv [OF env w], of k m i j] by (auto simp: ack_at_def)
    with km have g: "grants ?q i j ?u r w'" by simp
    then have ev: "evolves (lease_rel i j (granted ?q)) ?u w'" using out(2) by (simp add: grants_def)
    have "answer_sent DHCPACK True ?q (lease_address w i j) (lease_hooks w (lease_address w i j) (d_chaddr request)) ?u w'"
      using g out(2,5,6) by (auto simp: grants_def told_def kept_copy_def)
    then have "answer_sent DHCPACK True ?q (lease_address w i j) (lease_hooks w (lease_address w i j) (d_chaddr request)) w w'"
      using out(1,3) by (simp add: answer_sent_def)
    then show "c_dhcp_packet_cache w' = qs \<and> evolves (lease_rel i j (granted ?q)) w w' \<and>
      answer_sent DHCPACK True ?q (lease_address w i j) (lease_hooks w (lease_address w i j) (d_chaddr request)) w w'"
      using g uc evolves_env_l [OF env w] ev by (auto simp: grants_def)
  qed
qed

subsection \<open>There and back\<close>

lemma roaming_ok:
  assumes w: "wf_state w" "reliable w" and v: "wf_state v" "reliable v"
    and net: "same_network w v" "w_little_endian v = w_little_endian w"
    and wf: "wf_dhcp_packet request" and full: "complete_address request" and want: "wants request w i j"
    and st: "b_state (c_blocks w ! i) = DDHCP_CLAIMED" "ours v i"
    and new: "\<forall>q \<in> set (c_dhcp_packet_cache w). \<not> answers (d_xid request) (d_chaddr request) q"
  defines "a \<equiv> lease_address w i j" and "owner \<equiv> b_owner_address (c_blocks w ! i)"
  shows "ok (dhcp_hdl_request request w) (\<lambda>(_, w1). \<exists>bs. w_out w1 = w_out w @ [Direct_send owner bs] \<and>
    ok (ddhcp_dhcp_process bs (int (length bs)) node v) (\<lambda>v1. evolves (lease_rel i j prolonged) v v1 \<and>
      (\<exists>cs. w_out v1 = w_out v @ [Direct_send node cs] \<and>
        ok (ddhcp_dhcp_process cs (int (length cs)) owner w1) (\<lambda>w2.
          c_dhcp_packet_cache w2 = c_dhcp_packet_cache w \<and>
          (\<exists>t. evolves (lease_rel i j (granted (kept_copy request t))) w1 w2 \<and>
            answer_sent DHCPACK True (kept_copy request t) a (lease_hooks w a (d_chaddr request)) w1 w2)))))"
proof -
  have net': "same_network v w" using net(1) by (simp add: same_network_def)
  have av: "lease_address v i j = a" using lease_address_net [OF net(1)] by (simp add: a_def)
  have ij: "i < num_blocks v" "j < unat (c_block_size v)"
    using want net(1) by (simp_all add: wants_def same_network_def)
  have hd: "wf_dhcp_header request" using wf by (simp add: wf_dhcp_packet_def)
  obtain r w1 t bs where eq: "dhcp_hdl_request request w = Some (r, w1)"
    and w1: "wf_state w1" "reliable w1" "same_params w w1" "b_state (c_blocks w1 ! i) = DDHCP_CLAIMED"
    and arr: "b_addresses (c_blocks w1 ! i) \<noteq> None"
    and cache: "c_dhcp_packet_cache w1 = c_dhcp_packet_cache w @ [kept_copy request t]"
    and bs: "hton_packet (renew_packet request (lease_address w i j) w) = Some bs"
    and out: "w_out w1 = w_out w @ [Direct_send owner bs]"
    using forwards [OF w(1) wf kept_copy_ok(3) [OF wf full] w(2) want st(1)] by (auto simp: ok_iff owner_def)
  have same: "same_network w1 v" "wants request w1 i j" "lease_address w1 = lease_address w" "lease_hooks w1 = lease_hooks w"
    using w1(3) net(1) want
    by (simp_all add: same_network_def wants_def same_params_def lease_address_def block_subnet_def lease_hooks_def fun_eq_iff)
  let ?r = "renew_of request a w"
  have valid: "valid_renew ?r" using hd by (simp add: valid_renew_def renew_of_def wf_dhcp_header_def)
  have owner: "ok (ddhcp_dhcp_process bs (int (length bs)) node v) (\<lambda>v'.
      evolves (lease_rel i j prolonged) v v' \<and> (\<exists>cs. hton_packet (lease_packet DDHCP_MSG_LEASEACK ?r v) = Some cs \<and>
        w_out v' = w_out v @ [Direct_send node cs]))"
    using owner_answers [OF w(1) v(1) net' net(2) wf v(2) ij st(2)] bs by (simp add: av a_def)
  have client: "ok (ddhcp_dhcp_process cs (int (length cs)) owner w1) (\<lambda>w2.
      c_dhcp_packet_cache w2 = c_dhcp_packet_cache w \<and> evolves (lease_rel i j (granted (kept_copy request t))) w1 w2 \<and>
      answer_sent DHCPACK True (kept_copy request t) a (lease_hooks w a (d_chaddr request)) w1 w2)"
    if "hton_packet (lease_packet DDHCP_MSG_LEASEACK ?r v) = Some cs" for cs
    using client_acked [OF w1(1) v(1) same(1) w1(2) wf full same(2) _ _ cache new _ _ valid that] w1(4) arr same(3,4)
    by (auto simp: renew_of_def a_def)
  show ?thesis
    unfolding eq ok_Some prod.case
  proof (rule exI [of _ bs], rule conjI [OF out], rule ok_mono [OF owner], elim conjE exE)
    fix v1 cs
    assume ev: "evolves (lease_rel i j prolonged) v v1" and cs: "w_out v1 = w_out v @ [Direct_send node cs]"
      "hton_packet (lease_packet DDHCP_MSG_LEASEACK ?r v) = Some cs"
    have "ok (ddhcp_dhcp_process cs (int (length cs)) owner w1) (\<lambda>w2. c_dhcp_packet_cache w2 = c_dhcp_packet_cache w \<and>
        (\<exists>t. evolves (lease_rel i j (granted (kept_copy request t))) w1 w2 \<and>
          answer_sent DHCPACK True (kept_copy request t) a (lease_hooks w a (d_chaddr request)) w1 w2))"
      by (rule ok_mono [OF client [OF cs(2)]]) blast
    with ev cs(1) show "evolves (lease_rel i j prolonged) v v1 \<and> (\<exists>cs. w_out v1 = w_out v @ [Direct_send node cs] \<and>
        ok (ddhcp_dhcp_process cs (int (length cs)) owner w1) (\<lambda>w2. c_dhcp_packet_cache w2 = c_dhcp_packet_cache w \<and>
          (\<exists>t. evolves (lease_rel i j (granted (kept_copy request t))) w1 w2 \<and>
            answer_sent DHCPACK True (kept_copy request t) a (lease_hooks w a (d_chaddr request)) w1 w2)))"
      by blast
  qed
qed

end
