(* ===== verification/Sockets_Inv.thy ===== *)
theory Sockets_Inv
  imports Sockets
begin

text \<open>
  What the daemon does with its file descriptors: a socket is set up completely or not at
  all, the descriptors that are open are those that were before, the \<open>epoll\<close> instance and
  the registered ones (\<open>fds_ok\<close>), and none is closed twice unless the process ends.
\<close>

subsection \<open>The kernel\<close>

lemma new_fd_fresh: "new_fd fds \<notin> set fds" "0 \<le> new_fd fds"
proof -
  let ?xs = "map int [0..<Suc (length fds)]"
  have "\<exists>i \<in> set ?xs. i \<notin> set fds"
  proof (rule ccontr)
    assume "\<not> (\<exists>i \<in> set ?xs. i \<notin> set fds)"
    then have "set ?xs \<subseteq> set fds" by blast
    from card_mono [OF finite_set this] have "card (set ?xs) \<le> length fds"
      using card_length le_trans by blast
    moreover have "card (set ?xs) = length ?xs" by (rule distinct_card) (auto simp: distinct_map)
    then have "card (set ?xs) = Suc (length fds)" by simp
    ultimately show False by simp
  qed
  then have "filter (\<lambda>i. i \<notin> set fds) ?xs \<noteq> []" by (auto simp: filter_empty_conv)
  then have "new_fd fds \<in> set (filter (\<lambda>i. i \<notin> set fds) ?xs)"
    unfolding new_fd_def by (rule hd_in_set)
  then show "new_fd fds \<notin> set fds" "0 \<le> new_fd fds" by (auto simp del: upt_Suc)
qed

text \<open>\<open>nl_connect\<close> opens a new descriptor.\<close>

definition nl_fresh :: "kernel \<Rightarrow> bool" where
  "nl_fresh k \<longleftrightarrow> (\<forall>fds fd. k_nl_connect k fds = Some fd \<longrightarrow> 0 \<le> fd \<and> fd \<notin> set fds)"

text \<open>No call fails from here on.\<close>

definition obliging :: "kernel \<Rightarrow> bool" where
  "obliging k \<longleftrightarrow> sset (k_answers k) \<subseteq> {True} \<and> (\<forall>fds. k_nl_connect k fds \<noteq> None)"

definition same_fds :: "kernel \<Rightarrow> kernel \<Rightarrow> bool" where
  "same_fds k k' \<longleftrightarrow> k_open k' = k_open k \<and> k_polled k' = k_polled k \<and> k_stray k' = k_stray k \<and>
     k_index k' = k_index k \<and> k_nl_connect k' = k_nl_connect k \<and> (obliging k \<longrightarrow> obliging k')"

lemma same_fds_refl [simp]: "same_fds k k"
  by (simp add: same_fds_def)

lemma same_fds_trans: "same_fds j k \<Longrightarrow> same_fds k l \<Longrightarrow> same_fds j l"
  by (simp add: same_fds_def)

lemma obliging_now: "obliging k \<Longrightarrow> shd (k_answers k)"
  using shd_sset [of "k_answers k"] by (auto simp: obliging_def)

lemma obliging_update [simp]:
  "obliging (k\<lparr>k_open := xs\<rparr>) = obliging k" "obliging (k\<lparr>k_polled := ds\<rparr>) = obliging k"
  "obliging (k\<lparr>k_set := cs\<rparr>) = obliging k" "obliging (k\<lparr>k_stray := ys\<rparr>) = obliging k"
  "obliging k \<Longrightarrow> obliging (k\<lparr>k_answers := stl (k_answers k)\<rparr>)"
  using stl_sset [of _ "k_answers k"] by (auto simp: obliging_def)

lemma answer_frame: "answer k = (a, k') \<Longrightarrow> same_fds k k' \<and> k_set k' = k_set k \<and> (obliging k \<longrightarrow> a)"
  using obliging_now by (auto simp: answer_def same_fds_def)

lemma calls_frame:
  "calls fd cs k = (a, k') \<Longrightarrow> same_fds k k' \<and>
    (if a then k_set k' = k_set k @ map (Pair fd) cs else \<not> (obliging k \<and> fd \<in> set (k_open k)))"
proof (induction fd cs k rule: calls.induct)
  case (2 fd c cs k)
  obtain b k1 where c: "call fd c k = (b, k1)" by fastforce
  have k1: "same_fds k k1" "b \<Longrightarrow> k_set k1 = k_set k @ [(fd, c)]" "\<not> b \<Longrightarrow> \<not> (obliging k \<and> fd \<in> set (k_open k))"
    using c obliging_now [of k] by (auto simp: call_def answer_def same_fds_def Let_def split: if_split_asm)
  show ?case
  proof (cases b)
    case True
    then have r: "calls fd cs k1 = (a, k')" using "2.prems" c by simp
    show ?thesis using "2.IH" [OF c [symmetric] refl True r] k1(2) [OF True] k1(1) same_fds_trans [OF k1(1)]
      by (auto simp: same_fds_def)
  qed (use "2.prems" c k1 in auto)
qed simp

lemma socket_new:
  assumes "socket k = (fd, k')"
  shows "fd = -1 \<and> same_fds k k' \<and> k_set k' = k_set k \<and> \<not> obliging k \<or>
    fd \<notin> set (k_open k) \<and> 0 \<le> fd \<and> (\<exists>k1. same_fds k k1 \<and> k_set k1 = k_set k \<and> k' = open_fd fd k1)"
proof -
  obtain a k1 where n: "answer k = (a, k1)" by fastforce
  note f = answer_frame [OF n]
  then have "k_open k1 = k_open k" by (simp add: same_fds_def)
  then have "if a then fd = new_fd (k_open k) \<and> k' = open_fd fd k1 else fd = -1 \<and> k' = k1"
    using assms n by (auto simp: socket_def Let_def)
  then show ?thesis using f new_fd_fresh [of "k_open k"] by (cases a) auto
qed

subsection \<open>Setting up a socket\<close>

text \<open>What a socket gets, in the order of the calls.\<close>

fun settings_of :: "socket_init \<Rightarrow> string \<Rightarrow> int \<Rightarrow> int \<Rightarrow> (int \<times> setting) list" where
  "settings_of Netsock_multicast_init name index fd =
     map (Pair fd) [Bind_device name, Bind (Inet6 in6addr_localmcast DDHCP_MULTICAST_PORT index),
       Join in6addr_localmcast index, Loop_off]"
| "settings_of Netsock_server_init name index fd =
     map (Pair fd) [Bind_device name, Bind (Inet6 (replicate 16 0) DDHCP_UNICAST_PORT index)]"
| "settings_of Netsock_dhcp_init name index fd =
     map (Pair fd) [Bind_device name, Bind (Inet [0, 0, 0, 0] dhcp_port), Broadcast]"
| "settings_of Netsock_control_init name index fd =
     (-1, Unlink name) # map (Pair fd) [Bind (Unix (take 108 name)), Nonblock, Listen 2]"
| "settings_of Netlink_init name index fd = []"

text \<open>The number of the interface that \<open>setup\<close> leaves in the data.\<close>

definition index_of :: "kernel \<Rightarrow> socket_init \<Rightarrow> ddhcp_epoll_data \<Rightarrow> int" where
  "index_of k i d = (case i of
       Netsock_control_init \<Rightarrow> 0
     | Netlink_init \<Rightarrow> e_interface_id d
     | _ \<Rightarrow> k_index k (e_interface_name d))"

text \<open>The socket is open with all its settings, or what was opened is closed again.\<close>

definition socket_opened :: "socket_init \<Rightarrow> ddhcp_epoll_data \<Rightarrow> kernel \<Rightarrow> ddhcp_epoll_data \<Rightarrow> kernel \<Rightarrow> bool" where
  "socket_opened i d k d' k' \<longleftrightarrow> (\<exists>fd. fd \<notin> set (k_open k) \<and> 0 \<le> fd \<and>
     d' = d\<lparr>e_fd := fd, e_interface_id := index_of k i d\<rparr> \<and> same_fds (open_fd fd k) k' \<and>
     k_set k' = k_set k @ settings_of i (e_interface_name d) (k_index k (e_interface_name d)) fd)"

definition same_open :: "kernel \<Rightarrow> kernel \<Rightarrow> bool" where
  "same_open k k' \<longleftrightarrow> k_open k' = k_open k \<and> k_polled k' = k_polled k"

lemma open_close:
  assumes "fd \<notin> set (k_open k)" "e_fd ` set (k_polled k) \<subseteq> set (k_open k)" "same_fds (open_fd fd k) k'"
  shows "same_open k (close_fd fd k')" "same_open k (close_fd fd (close_fd fd k'))"
proof -
  have k: "k_open k' = fd # k_open k" "k_polled k' = k_polled k"
    using assms(3) by (simp_all add: same_fds_def open_fd_def)
  have f: "filter (\<lambda>d. e_fd d \<noteq> fd) (k_polled k) = k_polled k"
    by (rule filter_True) (use assms(1,2) in auto)
  show o: "same_open k (close_fd fd k')" using k f by (simp add: same_open_def close_fd_def)
  then have "fd \<notin> set (k_open (close_fd fd k'))" using assms(1) by (simp add: same_open_def)
  then show "same_open k (close_fd fd (close_fd fd k'))"
    using o by (simp add: same_open_def close_fd_def [of fd "close_fd fd k'"])
qed

lemma open_frame: "same_fds k k1 \<Longrightarrow> same_fds (open_fd fd k) (open_fd fd k1)"
  by (simp add: same_fds_def open_fd_def)

text \<open>\<open>socket\<close> returned \<open>fd\<close>, which has got the settings \<open>cs\<close> since, or it failed.\<close>

definition new_socket :: "int \<Rightarrow> kernel \<Rightarrow> kernel \<Rightarrow> (int \<times> setting) list \<Rightarrow> bool" where
  "new_socket fd k k' cs \<longleftrightarrow>
     fd = -1 \<and> same_fds k k' \<and> \<not> obliging k \<or>
     fd \<notin> set (k_open k) \<and> 0 \<le> fd \<and> same_fds (open_fd fd k) k' \<and> k_set k' = k_set k @ cs"

definition well_polled :: "kernel \<Rightarrow> bool" where
  "well_polled k \<longleftrightarrow> e_fd ` set (k_polled k) \<subseteq> set (k_open k) \<and> (\<forall>fd \<in> set (k_open k). 0 \<le> fd)"

lemma new_socket_socket: "socket k = (fd, k') \<Longrightarrow> new_socket fd k k' []"
  using socket_new [of k fd k'] open_frame [of k _ fd] by (auto simp: new_socket_def open_fd_def)

lemma new_socket_answer: "new_socket fd k k1 cs \<Longrightarrow> answer k1 = (a, k2) \<Longrightarrow> new_socket fd k k2 cs"
  using answer_frame [of k1 a k2] same_fds_trans [of k k1 k2] same_fds_trans [of "open_fd fd k" k1 k2]
  unfolding new_socket_def by metis

lemma new_socket_set:
  "new_socket fd k k1 cs \<Longrightarrow> new_socket fd k (k1\<lparr>k_set := k_set k1 @ [c]\<rparr>) (cs @ [c])"
  by (auto simp: new_socket_def same_fds_def)

lemma new_socket_calls:
  assumes s: "new_socket fd k k1 cs0" and c: "calls fd cs k1 = (a, k2)" and cs: "cs \<noteq> []" and p: "well_polled k"
  shows "if a then new_socket fd k k2 (cs0 @ map (Pair fd) cs) \<and> 0 \<le> fd
    else same_open k (close_fd fd k2) \<and> same_open k (close_fd fd (close_fd fd k2)) \<and> \<not> obliging k"
proof -
  note f = calls_frame [OF c]
  from s [unfolded new_socket_def] show ?thesis
  proof (elim disjE conjE)
    assume e: "fd = -1" "same_fds k k1" "\<not> obliging k"
    then have no: "fd \<notin> set (k_open k2)" using p f by (auto simp: well_polled_def same_fds_def)
    then have "\<not> a" using c cs f by (cases cs) (auto simp: call_def Let_def answer_def same_fds_def split: if_split_asm)
    moreover have "same_open k (close_fd fd k2)" "same_open k (close_fd fd (close_fd fd k2))"
      using e f no by (auto simp: same_open_def close_fd_def same_fds_def)
    ultimately show ?thesis using e(3) by simp
  next
    assume e: "fd \<notin> set (k_open k)" "0 \<le> fd" "same_fds (open_fd fd k) k1" "k_set k1 = k_set k @ cs0"
    have o: "same_fds (open_fd fd k) k2" using same_fds_trans [OF e(3)] f by simp
    show ?thesis
    proof (cases a)
      case True
      then show ?thesis using e f o by (simp add: new_socket_def)
    next
      case False
      then have "\<not> (obliging k1 \<and> fd \<in> set (k_open k1))" using f by simp
      then have "\<not> obliging k" using e(3) by (auto simp: same_fds_def open_fd_def)
      then show ?thesis using False open_close [OF e(1) _ o] p by (simp add: well_polled_def)
    qed
  qed
qed

lemma call_calls: "call fd c k = calls fd [c] k"
  by (auto split: prod.split)

lemma new_socket_opened:
  "new_socket fd k k' (settings_of i (e_interface_name d) (k_index k (e_interface_name d)) fd) \<Longrightarrow> 0 \<le> fd \<Longrightarrow>
    d' = d\<lparr>e_fd := fd, e_interface_id := index_of k i d\<rparr> \<Longrightarrow> socket_opened i d k d' k'"
  by (auto simp: new_socket_def socket_opened_def)

definition socket_refused :: "kernel \<Rightarrow> kernel \<Rightarrow> bool" where
  "socket_refused k k' \<longleftrightarrow> same_open k k' \<and> \<not> obliging k"

lemma index_frame: "new_socket fd k k' cs \<Longrightarrow> k_index k' = k_index k"
  by (auto simp: new_socket_def same_fds_def open_fd_def)

lemma open_v6:
  assumes m: "netsock_open_socket_v6 addr port d k = (r, d', k')" and p: "well_polled k"
  shows "if r < 0 then socket_refused k k'
    else new_socket (e_fd d') k k' (map (Pair (e_fd d')) [Bind_device (e_interface_name d),
        Bind (Inet6 addr port (k_index k (e_interface_name d)))]) \<and> 0 \<le> e_fd d' \<and>
      d' = d\<lparr>e_fd := e_fd d', e_interface_id := k_index k (e_interface_name d)\<rparr>"
proof -
  let ?cs = "[Bind_device (e_interface_name d), Bind (Inet6 addr port (k_index k (e_interface_name d)))]"
  obtain fd k1 where s: "socket k = (fd, k1)" by fastforce
  obtain a k2 where c: "calls fd ?cs k1 = (a, k2)" by fastforce
  have "if a then new_socket fd k k2 ([] @ map (Pair fd) ?cs) \<and> 0 \<le> fd
    else same_open k (close_fd fd k2) \<and> same_open k (close_fd fd (close_fd fd k2)) \<and> \<not> obliging k"
    by (rule new_socket_calls [OF new_socket_socket [OF s] c _ p]) simp
  then show ?thesis
    using m s c by (cases a) (auto simp: netsock_open_socket_v6_def Let_def socket_refused_def)
qed

lemma multicast_init_ok:
  assumes m: "netsock_multicast_init d k = (r, d', k')" and p: "well_polled k"
  shows "if r = 0 then socket_opened Netsock_multicast_init d k d' k' else socket_refused k k'"
proof -
  obtain s d1 k1 where v: "netsock_open_socket_v6 in6addr_localmcast DDHCP_MULTICAST_PORT d k = (s, d1, k1)"
    by (metis prod_cases3)
  note o = open_v6 [OF v p]
  show ?thesis
  proof (cases "s < 0")
    case True
    then show ?thesis using m v o
      by (auto simp: netsock_multicast_init_def)
  next
    case False
    let ?n = "e_interface_name d" and ?fd = "e_fd d1"
    let ?cs = "[Join in6addr_localmcast (e_interface_id d1), Loop_off]"
    have o: "new_socket ?fd k k1 (map (Pair ?fd) [Bind_device ?n, Bind (Inet6 in6addr_localmcast DDHCP_MULTICAST_PORT (k_index k ?n))])"
      and d1: "d1 = d\<lparr>e_fd := ?fd, e_interface_id := k_index k ?n\<rparr>"
      using o False by simp_all
    then have id: "e_interface_id d1 = k_index k ?n" by (metis ddhcp_epoll_data.select_convs(2) ddhcp_epoll_data.surjective
        ddhcp_epoll_data.update_convs(2))
    obtain a k2 where c: "calls ?fd ?cs k1 = (a, k2)" by fastforce
    note n = new_socket_calls [OF o c _ p]
    have "if a then r = 0 \<and> k' = k2 \<and> d' = d1 else r \<noteq> 0 \<and> k' = close_fd ?fd (close_fd ?fd k2)"
      using m v c False
      by (auto simp: netsock_multicast_init_def netsock_multicast_join_def Let_def split: if_split_asm)
    moreover have "socket_opened Netsock_multicast_init d k d1 k2" if a
      by (rule new_socket_opened [where fd = ?fd])
        (use n that id d1 in \<open>simp_all add: index_of_def\<close>)
    ultimately show ?thesis using n by (cases a) (auto simp: socket_refused_def)
  qed
qed

lemma server_init_ok:
  assumes m: "netsock_server_init d k = (r, d', k')" and p: "well_polled k"
  shows "if r = 0 then socket_opened Netsock_server_init d k d' k' else socket_refused k k'"
proof -
  obtain s d1 k1 where v: "netsock_open_socket_v6 (replicate 16 0) DDHCP_UNICAST_PORT d k = (s, d1, k1)"
    by (metis prod_cases3)
  note o = open_v6 [OF v p]
  have e: "r = (if s < 0 then -1 else 0)" "d' = d1" "k' = k1"
    using m v by (auto simp: netsock_server_init_def split: if_split_asm)
  show ?thesis
  proof (cases "s < 0")
    case False
    then have "socket_opened Netsock_server_init d k d1 k1"
      by (intro new_socket_opened [where fd = "e_fd d1"]) (use o in \<open>simp_all add: index_of_def\<close>)
    then show ?thesis using e False by simp
  qed (use o e in simp)
qed

lemma dhcp_init_ok:
  assumes m: "netsock_dhcp_init d k = (r, d', k')" and p: "well_polled k"
  shows "if r = 0 then socket_opened Netsock_dhcp_init d k d' k' else socket_refused k k'"
proof -
  let ?n = "e_interface_name d"
  let ?cs = "[Bind_device ?n, Bind (Inet [0, 0, 0, 0] dhcp_port), Broadcast]"
  obtain fd k1 where s: "socket k = (fd, k1)" by fastforce
  note n1 = new_socket_socket [OF s]
  show ?thesis
  proof (cases "fd < 0")
    case True
    then have "r \<noteq> 0 \<and> k' = k1"
      using m s by (auto simp: netsock_dhcp_init_def netsock_open_dhcp_def)
    then show ?thesis using n1 True by (auto simp: new_socket_def socket_refused_def same_open_def same_fds_def)
  next
    case False
    obtain a k2 where c: "calls fd ?cs k1 = (a, k2)" by fastforce
    note n = new_socket_calls [OF n1 c _ p]
    have "if a then r = 0 \<and> k' = k2 \<and> d' = d\<lparr>e_fd := fd, e_interface_id := k_index k2 ?n\<rparr>
        else r \<noteq> 0 \<and> k' = close_fd fd k2"
      using m s c False
      by (auto simp: netsock_dhcp_init_def netsock_open_dhcp_def Let_def split: if_split_asm)
    moreover have "socket_opened Netsock_dhcp_init d k (d\<lparr>e_fd := fd, e_interface_id := k_index k2 ?n\<rparr>) k2" if a
      by (rule new_socket_opened [where fd = fd])
        (use n that index_frame [of fd k k2] in \<open>auto simp: index_of_def\<close>)
    ultimately show ?thesis using n by (cases a) (auto simp: socket_refused_def)
  qed
qed

lemma control_init_ok:
  assumes m: "netsock_control_init d k = (r, d', k')" and p: "well_polled k"
  shows "if r = 0 then socket_opened Netsock_control_init d k d' k' else socket_refused k k'"
proof -
  let ?n = "e_interface_name d"
  let ?b = "Bind (Unix (take 108 ?n))" and ?cs = "[Nonblock, Listen 2]"
  obtain fd k1 where s: "socket k = (fd, k1)" by fastforce
  let ?k2 = "k1\<lparr>k_set := k_set k1 @ [(-1, Unlink ?n)]\<rparr>"
  obtain a k3 where b: "call fd ?b ?k2 = (a, k3)" by fastforce
  obtain x k4 where f: "answer k3 = (x, k4)" by fastforce
  obtain c k5 where l: "calls fd ?cs k4 = (c, k5)" by fastforce
  have "new_socket fd k ?k2 ([] @ [(-1, Unlink ?n)])"
    by (rule new_socket_set [OF new_socket_socket [OF s]])
  note n = new_socket_calls [OF this b [unfolded call_calls] _ p]
  show ?thesis
  proof (cases a)
    case False
    then have "r \<noteq> 0" "k' = close_fd fd k3"
      using m s b by (auto simp: netsock_control_init_def netsock_unix_socket_open_def Let_def)
    then show ?thesis using n False by (simp add: socket_refused_def)
  next
    case True
    then have "new_socket fd k k4 ([(-1, Unlink ?n)] @ map (Pair fd) [?b])"
      using n new_socket_answer [OF _ f] by simp
    note n' = new_socket_calls [OF this l _ p]
    have "if c then r = 0 \<and> k' = k5 \<and> d' = d\<lparr>e_fd := fd, e_interface_id := 0\<rparr> else r \<noteq> 0 \<and> k' = close_fd fd k5"
      using m s b f l True by (auto simp: netsock_control_init_def netsock_unix_socket_open_def Let_def split: if_split_asm)
    moreover have "socket_opened Netsock_control_init d k (d\<lparr>e_fd := fd, e_interface_id := 0\<rparr>) k5" if c
      by (rule new_socket_opened [where fd = fd]) (use n' that in \<open>simp_all add: index_of_def\<close>)
    ultimately show ?thesis using n' by (cases c) (auto simp: socket_refused_def)
  qed
qed

lemma netlink_init_ok:
  assumes m: "netlink_init d k = (r, d', k')" and nl: "nl_fresh k"
  shows "if r = 0 then socket_opened Netlink_init d k d' k' else socket_refused k k'"
proof -
  obtain a k1 where n: "answer k = (a, k1)" by fastforce
  note f = answer_frame [OF n]
  show ?thesis
  proof (cases "a \<and> k_nl_connect k (k_open k) \<noteq> None")
    case True
    then obtain fd where fd: "k_nl_connect k (k_open k) = Some fd" "0 \<le> fd" "fd \<notin> set (k_open k)"
      using nl by (auto simp: nl_fresh_def)
    then have "r = 0" "d' = d\<lparr>e_fd := fd\<rparr>" "k' = open_fd fd k1"
      using m n f True by (auto simp: netlink_init_def same_fds_def)
    then show ?thesis
      using fd f open_frame [of k k1 fd]
      by (auto simp: socket_opened_def index_of_def open_fd_def intro!: exI [of _ fd])
  next
    case False
    then have "r \<noteq> 0" "k' = k1" "\<not> obliging k"
      using m n f by (auto simp: netlink_init_def same_fds_def obliging_def split: if_split_asm)
    then show ?thesis using f by (simp add: socket_refused_def same_open_def same_fds_def)
  qed
qed

lemma setup_socket_ok:
  assumes "setup_socket i d k = (r, d', k')" "well_polled k" "nl_fresh k"
  shows "if r = 0 then socket_opened i d k d' k' else socket_refused k k'"
  using assms multicast_init_ok server_init_ok dhcp_init_ok control_init_ok netlink_init_ok
  by (cases i) (simp_all add: setup_socket_def)

subsection \<open>The descriptors of the daemon\<close>

text \<open>
  Open are the descriptors the process was started with, the \<open>epoll\<close> instance and one for
  each registration; none was closed that was not open.
\<close>

definition fds_ok :: "int set \<Rightarrow> int \<Rightarrow> kernel \<Rightarrow> bool" where
  "fds_ok base efd k \<longleftrightarrow> distinct (k_open k) \<and> (\<forall>fd \<in> set (k_open k). 0 \<le> fd) \<and> 0 \<in> base \<and>
     distinct (efd # map e_fd (k_polled k)) \<and> base \<inter> insert efd (e_fd ` set (k_polled k)) = {} \<and>
     set (k_open k) = base \<union> insert efd (e_fd ` set (k_polled k)) \<and> k_stray k = []"

lemma fds_ok_polled: "fds_ok base efd k \<Longrightarrow> well_polled k"
  by (auto simp: fds_ok_def well_polled_def)

lemma fds_ok_same: "same_fds k k' \<Longrightarrow> fds_ok base efd k' = fds_ok base efd k"
  by (simp add: fds_ok_def same_fds_def)

lemma nl_fresh_same: "same_fds k k' \<Longrightarrow> nl_fresh k' = nl_fresh k"
  by (simp add: nl_fresh_def same_fds_def)

lemma ok_andthen [wp]:
  "ok (andthen m f) Q = ok m (\<lambda>r. case r of Inl c \<Rightarrow> Q (Inl c) | Inr x \<Rightarrow> ok (f x) Q)"
  by (cases m) (auto simp: andthen_def split: sum.split)

text \<open>A descriptor that was just opened is registered, unless the process ends.\<close>

lemma register_ok:
  assumes k: "fds_ok base efd k" and fd: "fd \<notin> set (k_open k)" "0 \<le> fd" "e_fd d = fd"
    and s: "same_fds (open_fd fd k) k1" and r: "register efd d k1 = r"
  shows "case r of Inl c \<Rightarrow> c = 1 \<and> \<not> obliging k
    | Inr (d', k') \<Rightarrow> d' = d \<and> fds_ok base efd k' \<and> k_polled k' = k_polled k @ [d] \<and> k_set k' = k_set k1 \<and>
        k_index k' = k_index k \<and> k_nl_connect k' = k_nl_connect k \<and> (obliging k \<longrightarrow> obliging k')"
proof -
  obtain a k2 where n: "answer k1 = (a, k2)" by fastforce
  note f = answer_frame [OF n]
  have o: "k_open k2 = fd # k_open k" "k_polled k2 = k_polled k" "k_stray k2 = k_stray k"
    "k_index k2 = k_index k" "k_nl_connect k2 = k_nl_connect k" "obliging k \<Longrightarrow> obliging k2" "obliging k \<Longrightarrow> a"
    using s f by (auto simp: same_fds_def open_fd_def)
  have "efd \<in> set (k_open k)" "\<not> registered fd k2"
    using k fd o by (auto simp: fds_ok_def registered_def)
  then have "r = (if a then Inr (d, k2\<lparr>k_polled := k_polled k @ [d]\<rparr>) else Inl 1)"
    using r n o fd by (cases a) (simp_all add: register_def epoll_ctl_add_def Let_def)
  moreover have "fds_ok base efd (k2\<lparr>k_polled := k_polled k @ [d]\<rparr>)"
    using k fd o by (auto simp: fds_ok_def)
  ultimately show ?thesis using o f by (auto simp: same_fds_def)
qed

definition settings_for :: "(string \<Rightarrow> int) \<Rightarrow> ddhcp_epoll_data \<Rightarrow> (int \<times> setting) list" where
  "settings_for index d = (case e_setup d of
       None \<Rightarrow> []
     | Some i \<Rightarrow> settings_of i (e_interface_name d) (index (e_interface_name d)) (e_fd d))"

text \<open>Data before and after its socket was opened.\<close>

definition prepared :: "ddhcp_epoll_data \<Rightarrow> ddhcp_epoll_data \<Rightarrow> bool" where
  "prepared d d' \<longleftrightarrow> (\<exists>fd i. 0 < fd \<and> d' = d\<lparr>e_fd := fd, e_interface_id := i\<rparr>)"

lemma add_fd_ok:
  assumes k: "fds_ok base efd k" "nl_fresh k" and d: "e_fd d = 0" "e_setup d = Some i"
  shows "ok (epoll_add_fd efd d k) (\<lambda>r. case r of
      Inl c \<Rightarrow> c \<in> {1, 2} \<and> \<not> obliging k
    | Inr (d', k') \<Rightarrow> prepared d d' \<and> fds_ok base efd k' \<and> k_polled k' = k_polled k @ [d'] \<and>
        k_set k' = k_set k @ settings_for (k_index k) d' \<and>
        k_index k' = k_index k \<and> k_nl_connect k' = k_nl_connect k \<and> (obliging k \<longrightarrow> obliging k'))"
proof -
  obtain r d1 k1 where s: "setup_socket i d k = (r, d1, k1)" by (metis prod_cases3)
  note o = setup_socket_ok [OF s fds_ok_polled [OF k(1)] k(2)]
  show ?thesis
  proof (cases "r = 0")
    case True
    then obtain fd where fd: "fd \<notin> set (k_open k)" "0 \<le> fd" "same_fds (open_fd fd k) k1"
      "d1 = d\<lparr>e_fd := fd, e_interface_id := index_of k i d\<rparr>"
      "k_set k1 = k_set k @ settings_of i (e_interface_name d) (k_index k (e_interface_name d)) fd"
      using o by (auto simp: socket_opened_def)
    have "0 \<in> set (k_open k)" using k(1) by (auto simp: fds_ok_def)
    then have pos: "0 < fd" using fd(1,2) by (metis order_le_imp_less_or_eq)
    have "e_fd d1 = fd" using fd(4) by simp
    note reg = register_ok [OF k(1) fd(1,2) this fd(3) refl]
    have "epoll_add_fd efd d k = Some (register efd d1 k1)"
      using d s True by (simp add: epoll_add_fd_def Let_def)
    moreover have "prepared d d1" using fd(4) pos by (auto simp: prepared_def)
    moreover have "k_set k1 = k_set k @ settings_for (k_index k) d1" using fd(4,5) d by (simp add: settings_for_def)
    ultimately show ?thesis using reg by (auto split: sum.split)
  next
    case False
    then show ?thesis using d s o by (simp add: epoll_add_fd_def Let_def socket_refused_def)
  qed
qed

fun spec_data :: "socket_spec \<Rightarrow> ddhcp_epoll_data" where
  "spec_data (name, i, f, h) =
     \<lparr>e_fd = 0, e_interface_id = 0, e_interface_name = name, e_setup = Some i, e_epollin = f,
      e_epollhup = (case h of None \<Rightarrow> Hdl_epoll_hup | Some h \<Rightarrow> h)\<rparr>"

definition data_made :: "socket_spec list \<Rightarrow> kernel \<Rightarrow> int + ddhcp_epoll_data list \<times> kernel \<Rightarrow> bool" where
  "data_made specs k r = (case r of
       Inl c \<Rightarrow> c = 2 \<and> \<not> obliging k
     | Inr (ds, k') \<Rightarrow> ds = map spec_data specs \<and> same_fds k k' \<and> k_set k' = k_set k)"

lemma new_data_ok: "ok (new_data specs k) (data_made specs k)"
proof (induction specs arbitrary: k)
  case (Cons spec specs)
  obtain name i f h where spec: "spec = (name, i, f, h)" by (metis prod_cases4)
  obtain a k1 where n: "answer k = (a, k1)" by fastforce
  note fr = answer_frame [OF n]
  have e: "epoll_data_new name (Some i) f h k = (if a then Inr (spec_data spec, k1) else Inl 2)"
    using n spec by (simp add: epoll_data_new_def)
  obtain r where r: "new_data specs k1 = Some r" "data_made specs k1 r" using Cons.IH [of k1] by (auto simp: ok_iff)
  show ?case
  proof (cases a)
    case False
    then show ?thesis using e fr spec by (simp add: andthen_def data_made_def)
  next
    case True
    show ?thesis
    proof (cases r)
      case (Inl c)
      then have "c = 2" "\<not> obliging k" using r(2) fr by (auto simp: data_made_def same_fds_def)
      then show ?thesis using True Inl e r(1) spec by (simp add: andthen_def data_made_def)
    next
      case (Inr q)
      obtain ds k2 where q: "q = (ds, k2)" by (cases q)
      then have "ds = map spec_data specs" "same_fds k k2" "k_set k2 = k_set k"
        using r(2) Inr fr same_fds_trans [of k k1 k2] by (simp_all add: data_made_def)
      then show ?thesis using True Inr q e r(1) spec by (simp add: andthen_def data_made_def)
    qed
  qed
qed (simp add: data_made_def)

definition fresh_data :: "ddhcp_epoll_data \<Rightarrow> bool" where
  "fresh_data d \<longleftrightarrow> e_fd d = 0 \<and> e_setup d \<noteq> None"

definition data_added ::
  "int set \<Rightarrow> int \<Rightarrow> ddhcp_epoll_data list \<Rightarrow> kernel \<Rightarrow> int + ddhcp_epoll_data list \<times> kernel \<Rightarrow> bool" where
  "data_added base efd ds k r = (case r of
       Inl c \<Rightarrow> c \<in> {1, 2} \<and> \<not> obliging k
     | Inr (ds', k') \<Rightarrow> list_all2 prepared ds ds' \<and> fds_ok base efd k' \<and> k_polled k' = k_polled k @ ds' \<and>
         k_set k' = k_set k @ concat (map (settings_for (k_index k)) ds') \<and>
         k_index k' = k_index k \<and> k_nl_connect k' = k_nl_connect k \<and> (obliging k \<longrightarrow> obliging k'))"

lemma add_data_ok:
  assumes "fds_ok base efd k" "nl_fresh k" "\<forall>d \<in> set ds. fresh_data d"
  shows "ok (add_data efd ds k) (data_added base efd ds k)"
  using assms
proof (induction ds arbitrary: k)
  case (Cons d ds)
  obtain i where d: "e_fd d = 0" "e_setup d = Some i" using Cons.prems(3) by (auto simp: fresh_data_def)
  obtain r where r: "epoll_add_fd efd d k = Some r"
    and rr: "case r of
      Inl c \<Rightarrow> c \<in> {1, 2} \<and> \<not> obliging k
    | Inr (d', k') \<Rightarrow> prepared d d' \<and> fds_ok base efd k' \<and> k_polled k' = k_polled k @ [d'] \<and>
        k_set k' = k_set k @ settings_for (k_index k) d' \<and>
        k_index k' = k_index k \<and> k_nl_connect k' = k_nl_connect k \<and> (obliging k \<longrightarrow> obliging k')"
    using add_fd_ok [OF Cons.prems(1,2) d] unfolding ok_iff by blast
  show ?case
  proof (cases r)
    case (Inr q)
    obtain d' k1 where q: "q = (d', k1)" by (cases q)
    have k1: "prepared d d'" "fds_ok base efd k1" "k_polled k1 = k_polled k @ [d']"
      "k_set k1 = k_set k @ settings_for (k_index k) d'" "k_index k1 = k_index k"
      "k_nl_connect k1 = k_nl_connect k" "obliging k \<longrightarrow> obliging k1"
      using rr Inr q by simp_all
    have "nl_fresh k1" using Cons.prems(2) k1(6) by (simp add: nl_fresh_def)
    from Cons.IH [OF k1(2) this] Cons.prems(3)
    obtain r' where r': "add_data efd ds k1 = Some r'" "data_added base efd ds k1 r'" unfolding ok_iff by auto
    show ?thesis
    proof (cases r')
      case (Inl c)
      then show ?thesis using r r' Inr q k1(7) by (auto simp: andthen_def data_added_def)
    next
      case (Inr q')
      obtain ds' k2 where q': "q' = (ds', k2)" by (cases q')
      then show ?thesis
        using r r' Inr \<open>r = Inr q\<close> q k1 by (simp add: andthen_def data_added_def)
    qed
  qed (use r rr in \<open>simp add: andthen_def data_added_def\<close>)
qed (simp add: data_added_def)

subsection \<open>Start\<close>

text \<open>The descriptors a process has when it starts.\<close>

definition started :: "kernel \<Rightarrow> bool" where
  "started k \<longleftrightarrow> distinct (k_open k) \<and> (\<forall>fd \<in> set (k_open k). 0 \<le> fd) \<and> 0 \<in> set (k_open k) \<and>
     k_polled k = [] \<and> k_stray k = []"

lemma epoll_init_ok:
  assumes "started k"
  shows "case epoll_init k of
      Inl c \<Rightarrow> c = SIGABRT \<and> \<not> obliging k
    | Inr (efd, k') \<Rightarrow> fds_ok (set (k_open k)) efd k' \<and> k_polled k' = [] \<and> k_set k' = k_set k \<and>
        k_index k' = k_index k \<and> k_nl_connect k' = k_nl_connect k \<and> (obliging k \<longrightarrow> obliging k')"
proof -
  obtain fd k1 where s: "socket k = (fd, k1)" by fastforce
  from new_socket_socket [OF s, unfolded new_socket_def] show ?thesis
  proof (elim disjE conjE)
    assume e: "fd \<notin> set (k_open k)" "0 \<le> fd" "same_fds (open_fd fd k) k1" "k_set k1 = k_set k @ []"
    then have "fds_ok (set (k_open k)) fd k1"
      using assms by (auto simp: started_def fds_ok_def same_fds_def open_fd_def)
    then show ?thesis using e s assms by (simp add: epoll_init_def started_def same_fds_def open_fd_def)
  qed (use s in \<open>simp add: epoll_init_def\<close>)
qed

definition all_sockets :: "string \<Rightarrow> string \<Rightarrow> string \<Rightarrow> u8 \<Rightarrow> socket_spec list" where
  "all_sockets interface interface_client control_path disable_dhcp =
     node_sockets interface control_path @ client_sockets interface_client disable_dhcp"

definition sockets_opened ::
  "socket_spec list \<Rightarrow> kernel \<Rightarrow> int + sockets \<Rightarrow> bool" where
  "sockets_opened specs k r = (case r of
       Inl c \<Rightarrow> c \<in> {1, 2, SIGABRT} \<and> \<not> obliging k
     | Inr so \<Rightarrow> fds_ok (set (k_open k)) (so_epoll_fd so) (so_kernel so) \<and>
         k_polled (so_kernel so) = so_data so \<and> list_all2 prepared (map spec_data specs) (so_data so) \<and>
         k_set (so_kernel so) = k_set k @ concat (map (settings_for (k_index k)) (so_data so)) \<and>
         (obliging k \<longrightarrow> obliging (so_kernel so)))"

lemma fresh_specs: "\<forall>d \<in> set (map spec_data specs). fresh_data d"
  by (auto simp: fresh_data_def)

lemma made_added:
  assumes k: "fds_ok base efd k" "nl_fresh k"
  shows "ok (andthen (new_data specs k) (\<lambda>(ds, k). add_data efd ds k)) (data_added base efd (map spec_data specs) k)"
proof -
  obtain r where r: "new_data specs k = Some r" "data_made specs k r" using new_data_ok unfolding ok_iff by blast
  show ?thesis
  proof (cases r)
    case (Inl c)
    then show ?thesis using r by (simp add: andthen_def data_made_def data_added_def)
  next
    case (Inr q)
    obtain ds k1 where q: "q = (ds, k1)" by (cases q)
    have k1: "ds = map spec_data specs" "same_fds k k1" "k_set k1 = k_set k"
      using r(2) Inr q by (simp_all add: data_made_def)
    have "fds_ok base efd k1" "nl_fresh k1" using k k1(2) by (simp_all add: fds_ok_same nl_fresh_same)
    note added = add_data_ok [OF this fresh_specs]
    show ?thesis
      using r(1) Inr q k1 added [of specs]
      by (auto simp: andthen_def data_added_def same_fds_def elim!: ok_mono split: sum.splits)
  qed
qed

lemma andthen_assoc: "andthen (andthen m f) g = andthen m (\<lambda>x. andthen (f x) g)"
  by (auto simp: andthen_def split: option.split sum.split)

lemma andthen_pair: "(\<lambda>x. andthen (case x of (a, b) \<Rightarrow> f a b) g) = (\<lambda>(a, b). andthen (f a b) g)"
  by (simp add: fun_eq_iff)

lemma open_sockets_ok:
  assumes k: "started k" "nl_fresh k"
  shows "ok (open_sockets interface interface_client control_path disable_dhcp k)
    (sockets_opened (all_sockets interface interface_client control_path disable_dhcp) k)"
proof (cases "epoll_init k")
  case (Inl c)
  then show ?thesis using epoll_init_ok [OF k(1)] by (simp add: open_sockets_def andthen_def sockets_opened_def)
next
  case (Inr q)
  let ?ns = "node_sockets interface control_path" and ?cs = "client_sockets interface_client disable_dhcp"
  obtain efd k1 where q: "q = (efd, k1)" by (cases q)
  have k1: "fds_ok (set (k_open k)) efd k1" "k_polled k1 = []" "k_set k1 = k_set k" "k_index k1 = k_index k"
    "k_nl_connect k1 = k_nl_connect k" "obliging k \<longrightarrow> obliging k1"
    using epoll_init_ok [OF k(1)] Inr q by simp_all
  have "nl_fresh k1" using k(2) k1(5) by (simp add: nl_fresh_def)
  from made_added [OF k1(1) this, of ?ns] obtain r
    where r: "andthen (new_data ?ns k1) (\<lambda>(ds, k). add_data efd ds k) = Some r"
      "data_added (set (k_open k)) efd (map spec_data ?ns) k1 r"
    unfolding ok_iff by blast
  let ?rest = "\<lambda>(ds, k). andthen (andthen (new_data ?cs k) (\<lambda>(cs, k). add_data efd cs k)) (\<lambda>(cs, k).
       Some (Inr \<lparr>so_epoll_fd = efd, so_control_path = control_path, so_data = ds @ cs, so_kernel = k\<rparr>))"
  have o: "open_sockets interface interface_client control_path disable_dhcp k = andthen (Some r) ?rest"
    using Inr q by (simp add: open_sockets_def andthen_assoc andthen_pair flip: r(1)) (simp add: andthen_def)
  show ?thesis
  proof (cases r)
    case (Inl c)
    then show ?thesis using o r(2) k1(6) by (auto simp: andthen_def data_added_def sockets_opened_def)
  next
    case (Inr q)
    obtain ds k2 where q: "q = (ds, k2)" by (cases q)
    have k2: "list_all2 prepared (map spec_data ?ns) ds" "fds_ok (set (k_open k)) efd k2" "k_polled k2 = ds"
      "k_set k2 = k_set k @ concat (map (settings_for (k_index k)) ds)" "k_index k2 = k_index k"
      "k_nl_connect k2 = k_nl_connect k" "obliging k \<longrightarrow> obliging k2"
      using r(2) Inr q k1 by (simp_all add: data_added_def)
    have "nl_fresh k2" using k(2) k2(6) by (simp add: nl_fresh_def)
    from made_added [OF k2(2) this, of ?cs] obtain r'
      where r': "andthen (new_data ?cs k2) (\<lambda>(cs, k). add_data efd cs k) = Some r'"
        "data_added (set (k_open k)) efd (map spec_data ?cs) k2 r'"
      unfolding ok_iff by blast
    have e: "andthen (Some r) ?rest = andthen (Some r') (\<lambda>(cs, k).
       Some (Inr \<lparr>so_epoll_fd = efd, so_control_path = control_path, so_data = ds @ cs, so_kernel = k\<rparr>))"
      using Inr q r'(1) by (simp add: andthen_def [of "Some (Inr _)"])
    have a: "list_all2 prepared (map spec_data (?ns @ ?cs)) (ds @ cs)" if "list_all2 prepared (map spec_data ?cs) cs" for cs
      using list_all2_appendI [OF k2(1) that] by simp
    show ?thesis
      using o e r'(2) k2 a unfolding all_sockets_def
      by (cases r') (auto simp: andthen_def data_added_def sockets_opened_def)
  qed
qed

subsection \<open>Connections\<close>

text \<open>
  While the loop runs, the daemon's own sockets are registered, one of them accepts
  connections, and whatever else is registered is a connection.
\<close>

definition sockets_ok :: "int set \<Rightarrow> sockets \<Rightarrow> bool" where
  "sockets_ok base so \<longleftrightarrow> fds_ok base (so_epoll_fd so) (so_kernel so) \<and>
     (\<forall>d \<in> set (so_data so). e_epollin d \<noteq> Hdl_ctrl_cmd) \<and> control_fd so \<in> e_fd ` set (so_data so) \<and>
     (\<exists>cs. k_polled (so_kernel so) = so_data so @ cs \<and> (\<forall>d \<in> set cs. e_epollin d = Hdl_ctrl_cmd))"

text \<open>Only the kernel's side changes, and calls do not begin to fail.\<close>

definition sockets_step :: "int set \<Rightarrow> sockets \<Rightarrow> sockets \<Rightarrow> bool" where
  "sockets_step base so so' \<longleftrightarrow> sockets_ok base so' \<and> (\<exists>k. so' = so\<lparr>so_kernel := k\<rparr>) \<and>
     (obliging (so_kernel so) \<longrightarrow> obliging (so_kernel so'))"

lemma sockets_step_refl: "sockets_ok base so \<Longrightarrow> sockets_step base so so"
  by (auto simp: sockets_step_def intro: exI [of _ "so_kernel so"])

lemma sockets_step_trans: "sockets_step base r s \<Longrightarrow> sockets_step base s t \<Longrightarrow> sockets_step base r t"
  by (auto simp: sockets_step_def)

lemma prepared_epollin: "list_all2 prepared ds ds' \<Longrightarrow> map e_epollin ds' = map e_epollin ds"
  by (induction rule: list_all2_induct) (auto simp: prepared_def)

lemma epollin_sockets: "map (e_epollin \<circ> spec_data) (all_sockets interface interface_client control_path disable_dhcp) =
    [Hdl_ddhcp_block, Hdl_ddhcp_dhcp, Hdl_ctrl_new, Netlink_in_hdl] @ (if disable_dhcp = 0 then [Hdl_dhcp] else [])"
  by (simp add: all_sockets_def node_sockets_def client_sockets_def)

lemma opened_ok:
  assumes "sockets_opened (all_sockets interface interface_client control_path disable_dhcp) k (Inr so)"
  shows "sockets_ok (set (k_open k)) so"
proof -
  have m: "map e_epollin (so_data so) = [Hdl_ddhcp_block, Hdl_ddhcp_dhcp, Hdl_ctrl_new, Netlink_in_hdl] @
      (if disable_dhcp = 0 then [Hdl_dhcp] else [])"
    using assms prepared_epollin epollin_sockets by (fastforce simp: sockets_opened_def)
  have "e_epollin ` set (so_data so) = set (map e_epollin (so_data so))" by simp
  also have "\<dots> \<subseteq> {Hdl_ddhcp_block, Hdl_ddhcp_dhcp, Hdl_ctrl_new, Netlink_in_hdl, Hdl_dhcp}" by (auto simp: m)
  finally have "\<forall>d \<in> set (so_data so). e_epollin d \<noteq> Hdl_ctrl_cmd" by fastforce
  moreover have "control_fd so \<in> e_fd ` set (so_data so)"
  proof (cases "find (\<lambda>d. e_epollin d = Hdl_ctrl_new) (so_data so)")
    case None
    then have "Hdl_ctrl_new \<notin> set (map e_epollin (so_data so))" by (auto simp: find_None_iff)
    then show ?thesis by (simp add: m)
  next
    case (Some d)
    then have "d \<in> set (so_data so)" by (auto simp: find_Some_iff)
    then show ?thesis using Some by (simp add: control_fd_def)
  qed
  ultimately show ?thesis using assms by (simp add: sockets_ok_def sockets_opened_def)
qed

lemma accept_ok:
  assumes k: "fds_ok base efd k" "fd \<in> set (k_open k)" "same_fds k k1" and acc: "accept fd k1 = (new, k2)"
  shows "new = -1 \<and> same_fds k k2 \<and> \<not> obliging k \<or>
    new \<notin> set (k_open k) \<and> 0 < new \<and> same_fds (open_fd new k) k2"
proof -
  obtain a k3 where n: "answer k1 = (a, k3)" by fastforce
  have k3: "same_fds k k3" "obliging k \<longrightarrow> a"
    using k(3) answer_frame [OF n] same_fds_trans by (auto simp: same_fds_def)
  then have "k_open k3 = k_open k" by (simp add: same_fds_def)
  then have e: "if a then new = new_fd (k_open k) \<and> k2 = open_fd new k3 else new = -1 \<and> k2 = k3"
    using acc n k(2) by (auto simp: accept_def Let_def)
  have "0 \<in> set (k_open k)" using k(1) by (auto simp: fds_ok_def)
  then have "0 < new_fd (k_open k)" using new_fd_fresh [of "k_open k"] by (metis order_le_imp_less_or_eq)
  then show ?thesis using e k3 new_fd_fresh(1) [of "k_open k"] open_frame [OF k3(1)] by (cases a) auto
qed

lemma add_nothing:
  assumes "fds_ok base efd k" "same_fds k k2" "e_fd d = -1"
  shows "epoll_add_fd efd d k2 = Some (Inl 1)"
proof -
  obtain a k3 where n: "answer k2 = (a, k3)" by fastforce
  have "k_open k3 = k_open k" using answer_frame [OF n] assms(2) by (simp add: same_fds_def)
  moreover have "\<forall>fd \<in> set (k_open k). 0 \<le> fd" using assms(1) by (simp add: fds_ok_def)
  ultimately have "-1 \<notin> set (k_open k3)" by fastforce
  then show ?thesis using n assms(3) by (simp add: epoll_add_fd_def register_def epoll_ctl_add_def Let_def)
qed

text \<open>A new connection is registered, or the process ends.\<close>

definition accepted :: "int set \<Rightarrow> sockets \<Rightarrow> int + sockets \<Rightarrow> bool" where
  "accepted base so r = (case r of
       Inl c \<Rightarrow> c \<in> {1, 2} \<and> \<not> obliging (so_kernel so)
     | Inr so' \<Rightarrow> sockets_step base so so' \<and> (\<exists>d. e_epollin d = Hdl_ctrl_cmd \<and>
         e_fd d \<notin> set (k_open (so_kernel so)) \<and> k_polled (so_kernel so') = k_polled (so_kernel so) @ [d]))"

lemma accepted_connection:
  assumes "sockets_ok base so" "fds_ok base (so_epoll_fd so) k" "k_polled k = k_polled (so_kernel so) @ [d]"
    "e_epollin d = Hdl_ctrl_cmd" "e_fd d \<notin> set (k_open (so_kernel so))" "obliging (so_kernel so) \<longrightarrow> obliging k"
  shows "accepted base so (Inr (so\<lparr>so_kernel := k\<rparr>))"
proof -
  have "control_fd (so\<lparr>so_kernel := k\<rparr>) = control_fd so" by (simp add: control_fd_def)
  then have "sockets_ok base (so\<lparr>so_kernel := k\<rparr>)" using assms by (auto simp: sockets_ok_def)
  then show ?thesis using assms(3-6) by (auto simp: accepted_def sockets_step_def)
qed

lemma ctrl_new_ok:
  assumes so: "sockets_ok base so"
  shows "ok (hdl_ctrl_new so) (accepted base so)"
proof -
  let ?k = "so_kernel so" and ?efd = "so_epoll_fd so"
  have k: "fds_ok base ?efd ?k" using so by (simp add: sockets_ok_def)
  obtain a k1 where n: "answer ?k = (a, k1)" by fastforce
  note f = answer_frame [OF n]
  define link where "link = \<lparr>e_fd = 0, e_interface_id = 0, e_interface_name = so_control_path so, e_setup = None,
      e_epollin = Hdl_ctrl_cmd, e_epollhup = Hdl_epoll_hup\<rparr>"
  obtain new k2 where acc: "accept (control_fd so) k1 = (new, k2)" by fastforce
  have new: "hdl_ctrl_new so = (if a then andthen (epoll_add_fd ?efd (link\<lparr>e_fd := new\<rparr>) k2)
      (\<lambda>(_, k). Some (Inr (so\<lparr>so_kernel := k\<rparr>))) else Some (Inl 2))"
    using n acc by (simp add: hdl_ctrl_new_def epoll_data_new_def link_def andthen_def [of "Some _"])
  have "control_fd so \<in> set (k_open ?k)" using so k by (auto simp: sockets_ok_def fds_ok_def)
  from accept_ok [OF k this _ acc] f have "new = -1 \<and> same_fds ?k k2 \<and> \<not> obliging ?k \<or>
    new \<notin> set (k_open ?k) \<and> 0 < new \<and> same_fds (open_fd new ?k) k2" by simp
  then show ?thesis
  proof (elim disjE conjE)
    assume "new = -1" "same_fds ?k k2" "\<not> obliging ?k"
    then show ?thesis
      using new add_nothing [OF k \<open>same_fds ?k k2\<close>, of "link\<lparr>e_fd := new\<rparr>"] by (simp add: andthen_def accepted_def)
  next
    assume nw: "new \<notin> set (k_open ?k)" "0 < new" "same_fds (open_fd new ?k) k2"
    obtain r where r: "register ?efd (link\<lparr>e_fd := new\<rparr>) k2 = r" by simp
    have "0 \<le> new" "e_fd (link\<lparr>e_fd := new\<rparr>) = new" using nw(2) by simp_all
    note reg = register_ok [OF k nw(1) this nw(3) r]
    have e: "hdl_ctrl_new so = (if a then andthen (Some r) (\<lambda>(_, k). Some (Inr (so\<lparr>so_kernel := k\<rparr>))) else Some (Inl 2))"
      using new r nw(2) by (simp add: epoll_add_fd_def)
    show ?thesis
    proof (cases r)
      case (Inl c)
      then show ?thesis using e reg f by (simp add: andthen_def accepted_def)
    next
      case (Inr q)
      obtain d k3 where q: "q = (d, k3)" by (cases q)
      have "accepted base so (Inr (so\<lparr>so_kernel := k3\<rparr>))"
        by (rule accepted_connection [OF so, where d = "link\<lparr>e_fd := new\<rparr>"])
          (use reg Inr q nw(1) in \<open>simp_all add: link_def\<close>)
      then show ?thesis using e Inr q f by (auto simp: andthen_def accepted_def)
    qed
  qed
qed

text \<open>The end of a connection: it is closed, or the process ends.\<close>

definition ended :: "int set \<Rightarrow> int \<Rightarrow> sockets \<Rightarrow> int + sockets \<Rightarrow> bool" where
  "ended base fd so r = (case r of
       Inl c \<Rightarrow> c = 1 \<and> \<not> obliging (so_kernel so)
     | Inr so' \<Rightarrow> sockets_step base so so' \<and> fd \<notin> set (k_open (so_kernel so')) \<and>
         k_polled (so_kernel so') = filter (\<lambda>d. e_fd d \<noteq> fd) (k_polled (so_kernel so)))"

lemma fds_ok_close:
  assumes "fds_ok base efd k" "fd \<in> e_fd ` set (k_polled k)"
    "k_open k' = remove1 fd (k_open k)" "k_polled k' = filter (\<lambda>d. e_fd d \<noteq> fd) (k_polled k)" "k_stray k' = k_stray k"
  shows "fds_ok base efd k'"
proof -
  have fd: "fd \<noteq> efd" "fd \<notin> base" using assms(1,2) by (auto simp: fds_ok_def)
  have "e_fd ` set (k_polled k') = e_fd ` set (k_polled k) - {fd}" using assms(4) by auto
  moreover have "set (k_open k') = set (k_open k) - {fd}" using assms(1,3) by (simp add: fds_ok_def)
  moreover have "distinct (map e_fd (k_polled k'))" using assms(1,4) by (simp add: fds_ok_def distinct_map_filter)
  ultimately show ?thesis using assms(1,3,5) fd by (auto simp: fds_ok_def)
qed

lemma end_connection_ok:
  assumes so: "sockets_ok base so" and c: "connection fd so"
  shows "ended base fd so (end_connection fd so)"
proof -
  let ?k = "so_kernel so" and ?efd = "so_epoll_fd so"
  let ?on = "filter (\<lambda>d. e_fd d \<noteq> fd)"
  have k: "fds_ok base ?efd ?k" using so by (simp add: sockets_ok_def)
  obtain d where d: "d \<in> set (k_polled ?k)" "e_fd d = fd" "e_epollin d = Hdl_ctrl_cmd"
    using c by (auto simp: connection_def)
  obtain a k1 where n: "answer ?k = (a, k1)" by fastforce
  note f = answer_frame [OF n]
  then have k1: "k_open k1 = k_open ?k" "k_polled k1 = k_polled ?k" "k_stray k1 = k_stray ?k" by (simp_all add: same_fds_def)
  have reg: "registered fd k1" "?efd \<in> set (k_open k1)" "fd \<in> set (k_open k1)"
    using d k1 k by (auto simp: registered_def fds_ok_def)
  show ?thesis
  proof (cases a)
    case False
    then show ?thesis using n f
      by (simp add: end_connection_def hdl_epoll_hup_def del_fd_def epoll_ctl_del_def ended_def)
  next
    case True
    let ?k2 = "k1\<lparr>k_open := remove1 fd (k_open ?k), k_polled := ?on (k_polled ?k)\<rparr>"
    have e: "end_connection fd so = Inr (so\<lparr>so_kernel := ?k2\<rparr>)"
      using True n reg k1 by (simp add: end_connection_def hdl_epoll_hup_def del_fd_def epoll_ctl_del_def close_fd_def)
    have f2: "fds_ok base ?efd ?k2" by (rule fds_ok_close [OF k]) (use d k1 in auto)
    obtain cs where cs: "k_polled ?k = so_data so @ cs" "\<forall>d \<in> set cs. e_epollin d = Hdl_ctrl_cmd"
      using so by (auto simp: sockets_ok_def)
    have "d \<in> set cs" using d cs(1) so by (auto simp: sockets_ok_def)
    then have "fd \<notin> e_fd ` set (so_data so)" using k cs(1) d(2) by (auto simp: fds_ok_def)
    then have "?on (so_data so) = so_data so" by (intro filter_True) auto
    then have "?on (k_polled ?k) = so_data so @ ?on cs" using cs(1) by simp
    moreover have "control_fd (so\<lparr>so_kernel := ?k2\<rparr>) = control_fd so" by (simp add: control_fd_def)
    ultimately have "sockets_ok base (so\<lparr>so_kernel := ?k2\<rparr>)" using so f2 cs(2) by (auto simp: sockets_ok_def)
    moreover have "fd \<notin> set (k_open ?k2)" using k by (simp add: fds_ok_def)
    ultimately show ?thesis using e f by (auto simp: ended_def sockets_step_def same_fds_def)
  qed
qed

end
