(* ===== verification/Daemon.thy ===== *)
theory Daemon
  imports Main_Loop Roaming Sockets_Inv
begin

text \<open>
  The daemon as a transition system: datagrams arrive on its sockets and the event loop
  turns, with any bytes from the network and any failure of the environment. Every state
  the daemon reaches is well formed. An iteration that runs into undefined behaviour has no
  successor here; which inputs do that is told by the lemmas on the single handlers.
\<close>

subsection \<open>The invariant\<close>

text \<open>
  A request that waits for an answer is a well-formed packet, or what is left of it when
  memory was short: its options are gone, its counter is not, and the requested address
  cannot be read.
\<close>

definition cached :: "dhcp_packet \<Rightarrow> bool" where
  "cached p \<longleftrightarrow> wf_dhcp_header p \<and> (wf_dhcp_packet p \<or> requested_address p = None)"

definition daemon_ok :: "world \<Rightarrow> bool" where
  "daemon_ok w \<longleftrightarrow> wf_state w \<and> (\<forall>p \<in> set (c_dhcp_packet_cache w). cached p)"

definition advances :: "world \<Rightarrow> world \<Rightarrow> bool" where
  "advances w w' \<longleftrightarrow> same_params w w' \<and> daemon_ok w'"

lemma advances_trans: "advances u v \<Longrightarrow> advances v w \<Longrightarrow> advances u w"
  by (auto simp: advances_def intro: same_params_trans)

lemma advancesI: "daemon_ok w \<Longrightarrow> keeps w w' \<Longrightarrow> set (c_dhcp_packet_cache w') \<subseteq> set (c_dhcp_packet_cache w) \<Longrightarrow> advances w w'"
  by (auto simp: advances_def daemon_ok_def keeps_def)

lemma advances_quiet: "daemon_ok w \<Longrightarrow> quiet w w' \<Longrightarrow> advances w w'"
  by (rule advancesI) (auto simp: quiet_def daemon_ok_def keeps_def env_change_def intro: env_change_inv [of w])

lemma advances_env:
  "daemon_ok w \<Longrightarrow> env_change w w' \<Longrightarrow> set (c_dhcp_packet_cache w') \<subseteq> set (c_dhcp_packet_cache w) \<Longrightarrow> advances w w'"
  by (rule advancesI) (auto simp: daemon_ok_def keeps_def env_change_def intro: env_change_inv [of w])

lemma daemon_okD: "daemon_ok w \<Longrightarrow> wf_state w" "daemon_ok w \<Longrightarrow> p \<in> set (c_dhcp_packet_cache w) \<Longrightarrow> cached p"
  by (simp_all add: daemon_ok_def)

lemma cached_no_options:
  assumes "wf_dhcp_packet p"
  shows "cached (p\<lparr>d_options := [], d_timeout := t\<rparr>)"
proof (cases "d_options_len p = 0")
  case True
  then show ?thesis using assms by (simp add: cached_def wf_dhcp_packet_def wf_dhcp_header_def)
next
  case False
  then have "[0..<unat (d_options_len p)] = 0 # [1..<unat (d_options_len p)]"
    by (simp add: upt_conv_Cons unat_gt_0)
  then have "requested_address (p\<lparr>d_options := [], d_timeout := t\<rparr>) = None"
    by (simp add: requested_address_def find_option_requested_address_def find_option_def)
  then show ?thesis using assms by (simp add: cached_def wf_dhcp_packet_def wf_dhcp_header_def)
qed

lemma wf_kept_copy: "wf_dhcp_packet p \<Longrightarrow> wf_dhcp_packet (kept_copy p t)"
  using sent_kept_copy [of p t]
  by (auto simp: wf_dhcp_packet_def wf_dhcp_header_def kept_copy_def sent_options_def readable_def trimmed_def)

lemma stored_cached:
  assumes "stored p w w'" "wf_dhcp_packet p" "q \<in> set (c_dhcp_packet_cache w')"
  shows "q \<in> set (c_dhcp_packet_cache w) \<or> cached q"
proof -
  have "cached (kept_copy p t)" for t
    using wf_kept_copy [OF assms(2), of t] by (simp add: cached_def wf_dhcp_packet_def)
  then show ?thesis
    using assms(1,3) cached_no_options [OF assms(2)] unfolding stored_def kept_copy_def by auto
qed

subsection \<open>Messages of clients\<close>

lemma performs_advances:
  assumes ok: "daemon_ok w" and wf: "wf_dhcp_packet p" and d: "decides p w d" "performs p d w r w'"
  shows "advances w w'"
proof -
  have k: "keeps w w'" using performs_spares [OF daemon_okD(1) [OF ok] d] by (simp add: spares_def)
  show ?thesis
  proof (cases d)
    case (Forward i j)
    then have "stored p w w'" using d(2) by (simp add: forwarded_def)
    then have "\<forall>q \<in> set (c_dhcp_packet_cache w'). cached q"
      using stored_cached [OF _ wf] daemon_okD(2) [OF ok] by blast
    then show ?thesis using k by (simp add: advances_def daemon_ok_def keeps_def)
  qed (use d(2) in \<open>auto intro!: advancesI [OF ok k] simp: refused_def quiet_def grants_def\<close>)
qed

lemma request_advances:
  assumes ok: "daemon_ok w" and wf: "wf_dhcp_packet p" and m: "dhcp_hdl_request p w = Some (r, w')"
  shows "advances w w'"
proof -
  note inv = daemon_okD(1) [OF ok]
  have "\<not> (requested_address p = None \<or> out_of_memory p w)"
    using dhcp_hdl_request_None [OF inv wf] m by simp
  then have "ok (dhcp_hdl_request p w) (\<lambda>(r, w'). \<exists>d. decides p w d \<and> performs p d w r w')"
    using dhcp_hdl_request_defined [OF inv wf] by simp
  then show ?thesis using m performs_advances [OF ok wf] by auto
qed

lemma spares_advances:
  "daemon_ok w \<Longrightarrow> spares c w w' \<Longrightarrow> c_dhcp_packet_cache w' = c_dhcp_packet_cache w \<Longrightarrow> advances w w'"
  by (rule advancesI) (simp_all add: spares_def)

lemma dhcp_process_advances:
  assumes ok: "daemon_ok w" and len: "len \<le> int (length buffer)" and m: "dhcp_process buffer len w = Some (r, w')"
  shows "advances w w'"
proof -
  from m obtain ret v where dec: "ntoh_dhcp_packet buffer len w = Some (ret, v)"
    by (auto simp: dhcp_process_def elim!: bindE)
  have v: "quiet w v"
    using dec by (auto simp: ntoh_dhcp_packet_def Let_def calloc_def elim!: bindE split: frame_splits)
  note va = advances_quiet [OF ok v]
  show ?thesis
  proof (cases ret)
    case (Inl e)
    then show ?thesis using m dec va by (simp add: dhcp_process_def)
  next
    case (Inr p)
    from accepted_wf [OF dec [unfolded Inr] len] have wf: "wf_dhcp_packet p" by blast
    then have hd: "wf_dhcp_header p" by (simp add: wf_dhcp_packet_def)
    let ?v = "\<lambda>s. statistics_record s 1 v"
    have vs: "daemon_ok (?v s)" "advances w (?v s)" for s
    proof -
      have "quiet v (?v s)" by simp
      then have "advances v (?v s)" using va by (intro advances_quiet) (auto simp: advances_def)
      with va show "advances w (?v s)" by (rule advances_trans)
      then show "daemon_ok (?v s)" by (simp add: advances_def)
    qed
    note inv = daemon_okD(1) [OF vs(1)]
    have 1: "advances w u" if "dhcp_hdl_discover p (?v s) = Some (x, u)" for s x u
      using vs(2) spares_advances [OF vs(1) okD [OF discover_spares [OF inv wf] that, simplified] dhcp_hdl_discover_frame [OF that]]
      by (rule advances_trans)
    have 2: "advances w u" if "dhcp_hdl_request p (?v s) = Some (x, u)" for s x u
      using vs(2) request_advances [OF vs(1) wf that] by (rule advances_trans)
    have 3: "advances w u" if "dhcp_hdl_release p (?v s) = Some u" for s u
      using vs(2) spares_advances [OF vs(1) okD [OF release_spares [OF inv hd] that] dhcp_hdl_release_frame [OF that]]
      by (rule advances_trans)
    have 4: "advances w u" if "dhcp_hdl_inform p (?v s) = Some u" for s u
      using vs(2) spares_advances [OF vs(1) okD [OF inform_spares [OF inv wf] that] dhcp_hdl_inform_frame [OF that]]
      by (rule advances_trans)
    show ?thesis
      using m dec Inr va
      by (auto simp: dhcp_process_def Let_def elim!: bindE split: if_split_asm
          dest!: 1 2 3 4)
  qed
qed

subsection \<open>Messages of other nodes\<close>

lemma grants_advances: "daemon_ok w \<Longrightarrow> grants p i j w r w' \<Longrightarrow> advances w w'"
  unfolding grants_def by (elim conjE disjE) (auto intro: advances_quiet advancesI dest: evolvesD(2))

lemma dhcp_ack_advances:
  assumes ok: "daemon_ok w" and wf: "wf_dhcp_packet p" and i: "i < num_blocks w" and j: "j < unat (c_block_size w)"
    and m: "dhcp_ack p i (of_nat j) w = Some (r, w')"
  shows "advances w w'"
proof (cases "b_addresses (c_blocks w ! i)")
  case None
  have "w' = w\<lparr>w_times := stl (w_times w), w_allocs := stl (w_allocs w)\<rparr>"
    using m None
    by (auto simp: dhcp_ack_def time_null_def build_initial_packet_def calloc_def get_lease_def get_block_def nth_opt_def
        block_leases_def elim!: bindE split: if_split_asm)
  then have "quiet w w'" by (simp add: quiet_def env_change_def same_params_def)
  with ok show ?thesis by (rule advances_quiet)
next
  case (Some ls)
  note inv = daemon_okD(1) [OF ok]
  have "length ls = unat (c_block_size w)" using inv_leases(1) [OF inv i Some] .
  then have "ok (dhcp_ack p i (of_nat j) w) (\<lambda>(r, w'). grants p i j w r w')"
    using dhcp_ack_ok [OF inv i Some _ wf, of j] j unfolding grants_def by simp
  then show ?thesis using m grants_advances [OF ok] by auto
qed

lemma rhdl_ack_advances:
  assumes ok: "daemon_ok w" and p: "cached p" and m: "dhcp_rhdl_ack p w = Some (r, w')"
  shows "advances w w'"
proof -
  have req: "requested_address p \<noteq> None" using m by (cases "requested_address p") (simp_all add: dhcp_rhdl_ack_def)
  then have wf: "wf_dhcp_packet p" using p by (auto simp: cached_def)
  from daemon_okD(1) [OF ok] wf req show ?thesis
  proof (cases rule: rhdl_ack_cases)
    case none
    then show ?thesis using m advances_quiet [OF ok] by simp
  next
    case (ack i j)
    then have "dhcp_ack p i (of_nat j) w = Some (r, w')" using m by simp
    then show ?thesis by (rule dhcp_ack_advances [OF ok wf, rotated 2]) (use ack(2) in \<open>simp_all add: ack_at_def\<close>)
  qed
qed

lemma set_tl: "set (tl xs) \<subseteq> set xs"
  by (cases xs) auto

lemma forget_advances: "daemon_ok w \<Longrightarrow> advances w (forget renew w)"
  by (rule advances_env [OF _ forget_env])
    (auto simp: forget_def dest: set_takeWhileD set_tl [THEN subsetD] set_dropWhileD)

lemma found_cached:
  "daemon_ok w \<Longrightarrow> waiting renew w = Some p \<Longrightarrow> cached p"
  using waiting_in daemon_okD(2) by blast

lemma leaseack_advances:
  assumes ok: "daemon_ok w" and m: "ddhcp_dhcp_leaseack q w = Some w'"
  shows "advances w w'"
proof -
  obtain renew where body: "renew_payload q = Some renew" using m by (auto simp: ddhcp_dhcp_leaseack_def elim!: bindE)
  note fw = forget_advances [OF ok, of renew]
  have ok': "daemon_ok (forget renew w)" using fw by (simp add: advances_def)
  have "ddhcp_dhcp_leaseack q w = (case waiting renew w of None \<Rightarrow> Some (forget renew w)
      | Some p \<Rightarrow> do { (_, w) \<leftarrow> dhcp_rhdl_ack p (forget renew w); _ \<leftarrow> dhcp_packet_free p; Some w })"
    using body by (cases "find (answers (r_xid renew) (r_chaddr renew)) (c_dhcp_packet_cache w)")
      (simp_all add: ddhcp_dhcp_leaseack_def dhcp_packet_list_find_eq waiting_def forget_def)
  then have "(case waiting renew w of None \<Rightarrow> Some (forget renew w)
      | Some p \<Rightarrow> do { (_, w) \<leftarrow> dhcp_rhdl_ack p (forget renew w); _ \<leftarrow> dhcp_packet_free p; Some w }) = Some w'" using m by simp
  then consider "w' = forget renew w" | p r where "waiting renew w = Some p" "dhcp_rhdl_ack p (forget renew w) = Some (r, w')"
    by (auto elim!: bindE split: option.split_asm)
  then show ?thesis
  proof cases
    case 1
    then show ?thesis using fw by simp
  next
    case (2 p r)
    then show ?thesis
      using advances_trans [OF fw rhdl_ack_advances [OF ok' found_cached [OF ok 2(1)] 2(2)]] by simp
  qed
qed

lemma leasenak_advances:
  assumes ok: "daemon_ok w" and m: "ddhcp_dhcp_leasenak q w = Some w'"
  shows "advances w w'"
proof -
  obtain renew where body: "renew_payload q = Some renew" using m by (auto simp: ddhcp_dhcp_leasenak_def elim!: bindE)
  note fw = forget_advances [OF ok, of renew]
  have ok': "daemon_ok (forget renew w)" using fw by (simp add: advances_def)
  have "ddhcp_dhcp_leasenak q w = (case waiting renew w of None \<Rightarrow> Some (forget renew w)
      | Some p \<Rightarrow> do { (_, w) \<leftarrow> dhcp_nack p (forget renew w); _ \<leftarrow> dhcp_packet_free p; Some w })"
    using body by (cases "find (answers (r_xid renew) (r_chaddr renew)) (c_dhcp_packet_cache w)")
      (simp_all add: ddhcp_dhcp_leasenak_def dhcp_packet_list_find_eq waiting_def forget_def)
  with m have eq: "Some w' = (case waiting renew w of None \<Rightarrow> Some (forget renew w)
      | Some p \<Rightarrow> do { (_, w) \<leftarrow> dhcp_nack p (forget renew w); _ \<leftarrow> dhcp_packet_free p; Some w })" by simp
  show ?thesis
  proof (cases "waiting renew w")
    case None
    then show ?thesis using eq fw by simp
  next
    case (Some p)
    have "wf_dhcp_header p" using found_cached [OF ok Some] by (simp add: cached_def)
    from dhcp_nack_ok [OF this, of "forget renew w"] have "quiet (forget renew w) w'"
      using eq Some by (auto simp: ok_iff refused_def dhcp_packet_free_eq split: if_split_asm)
    from advances_trans [OF fw advances_quiet [OF ok' this]] show ?thesis .
  qed
qed

lemma renewed_advances: "daemon_ok w \<Longrightarrow> renewed renew a w w' \<Longrightarrow> advances w w'"
  unfolding renewed_def Let_def
  by (elim conjE disjE exE) (auto intro: advances_quiet advancesI dest: evolvesD(2) split: if_split_asm)

lemma direct_advances:
  assumes ok: "daemon_ok w" and buf: "16 \<le> length buffer" "0 \<le> len" "len \<le> int (length buffer)"
    and m: "ddhcp_dhcp_process buffer len sender w = Some w'"
  shows "advances w w'"
proof -
  obtain r v where rv: "ntoh_mcast_packet buffer len w = Some (r, v)"
    using ntoh_mcast_total [OF buf, of w] by auto
  have "quiet w v" using ntoh_world [OF rv] by (elim disjE) simp_all
  note va = advances_quiet [OF ok this]
  have vs: "daemon_ok (statistics_record s 1 v)" "advances w (statistics_record s 1 v)" for s
  proof -
    have "quiet v (statistics_record s 1 v)" by simp
    then have "advances v (statistics_record s 1 v)" using va by (intro advances_quiet) (auto simp: advances_def)
    with va show "advances w (statistics_record s 1 v)" by (rule advances_trans)
    then show "daemon_ok (statistics_record s 1 v)" by (simp add: advances_def)
  qed
  show ?thesis
  proof (cases r)
    case (Inl e)
    then show ?thesis using m rv va by (simp add: ddhcp_dhcp_process_def)
  next
    case (Inr p)
    have body: "wf_body (m_command p) (unat (m_count p)) (m_body p)"
      using hton_ntoh_lemma [OF rv [unfolded Inr] buf(2)] by (simp add: wf_mcast_def)
    have no_release: "m_command p \<noteq> DDHCP_MSG_RELEASE"
      using body by (cases "m_body p") (auto simp: ddhcp_msgs)
    have ren: "advances w u" if c: "m_command p = DDHCP_MSG_RENEWLEASE"
      and u: "ddhcp_dhcp_renewlease p sender (statistics_record s 1 v) = Some u" for s u
    proof -
      obtain renew where "renew_payload p = Some renew" "valid_renew renew"
        using body c by (cases "m_body p") (auto simp: renew_payload_def ddhcp_msgs)
      from okD [OF renewlease_ok [OF daemon_okD(1) [OF vs(1)] this(2,1)] u]
      have "renewed renew sender (statistics_record s 1 v) u" .
      from advances_trans [OF vs(2) renewed_advances [OF vs(1) this]] show ?thesis .
    qed
    have ack: "advances w u" if "ddhcp_dhcp_leaseack p (statistics_record s 1 v) = Some u" for s u
      using vs(2) leaseack_advances [OF vs(1) that] by (rule advances_trans)
    have nak: "advances w u" if "ddhcp_dhcp_leasenak p (statistics_record s 1 v) = Some u" for s u
      using vs(2) leasenak_advances [OF vs(1) that] by (rule advances_trans)
    show ?thesis
      using m rv Inr va no_release
      by (auto simp: ddhcp_dhcp_process_def elim!: bindE split: if_split_asm dest!: ack nak intro: ren)
  qed
qed

lemma mcast_advances:
  assumes ok: "daemon_ok w" and buf: "16 \<le> length buffer" "0 \<le> len" "len \<le> int (length buffer)" "length sender = 16"
    and m: "ddhcp_block_process buffer len sender w = Some w'"
  shows "advances w w'"
proof -
  have "evolves (block_msg_rel buffer len sender w) w w'"
    using ddhcp_block_process_ok [OF daemon_okD(1) [OF ok] buf] m by simp
  then show ?thesis
    using ddhcp_block_process_frame [OF m] by (intro advancesI [OF ok evolvesD(2)]) auto
qed

subsection \<open>The event loop\<close>

text \<open>
  The whole state: the receive buffer has its size, senders are IPv6 addresses, and besides
  the descriptors the process was started with only the registered ones are open.
\<close>

definition loop_ok :: "int set \<Rightarrow> world \<Rightarrow> daemon \<Rightarrow> bool" where
  "loop_ok base w0 s \<longleftrightarrow> same_params w0 (s_config s) \<and> daemon_ok (s_config s) \<and>
     countable_leases (s_config s) \<and> length (s_buffer s) = BUFSIZE \<and>
     (\<forall>d \<in> set (s_mcast s) \<union> set (s_server s). length (snd d) = 16) \<and> sockets_ok base (s_sockets s)"

lemma countable_cong: "same_params w w' \<Longrightarrow> countable_leases w' = countable_leases w"
  by (simp add: countable_leases_def same_params_def)

lemma receive_length:
  assumes "receive d buffer = (len, buffer')" "length buffer = BUFSIZE"
  shows "length buffer' = BUFSIZE" "0 \<le> len" "len \<le> int (length buffer')"
  using assms by (auto simp: receive_def Let_def)

lemma read_loop_advances:
  assumes "read_loop bytes process queue (need, buffer, w) = Some (queue', need', buffer', w')"
    "daemon_ok w" "length buffer = BUFSIZE"
    "\<And>d b n u r v. d \<in> set queue \<Longrightarrow> length b = BUFSIZE \<Longrightarrow> 0 \<le> n \<Longrightarrow> n \<le> int (length b) \<Longrightarrow> daemon_ok u \<Longrightarrow>
      process d b n u = Some (r, v) \<Longrightarrow> advances u v"
  shows "advances w w'" "length buffer' = BUFSIZE" "set queue' \<subseteq> set queue"
proof -
  have "advances w w' \<and> length buffer' = BUFSIZE \<and> set queue' \<subseteq> set queue"
    using assms
  proof (induction queue arbitrary: need buffer w)
    case Nil
    then show ?case by (simp add: advances_def)
  next
    case (Cons d queue)
    obtain len b where b: "receive (bytes d) buffer = (len, b)" by (cases "receive (bytes d) buffer")
    note l = receive_length [OF b Cons.prems(3)]
    show ?case
    proof (cases "len \<le> 0")
      case True
      then show ?thesis using Cons.prems b l by (auto simp: advances_def)
    next
      case False
      then obtain r v where rv: "process d b len w = Some (r, v)"
        "read_loop bytes process queue (need \<or> r \<noteq> 0, b, v) = Some (queue', need', buffer', w')"
        using Cons.prems(1) b by (auto elim!: bindE)
      have wv: "advances w v" using Cons.prems(4) [OF _ l Cons.prems(2) rv(1)] by simp
      then have "advances v w' \<and> length buffer' = BUFSIZE \<and> set queue' \<subseteq> set queue"
        by (intro Cons.IH [OF rv(2) _ l(1) Cons.prems(4)]) (simp_all add: advances_def)
      then show ?thesis using advances_trans [OF wv] by auto
    qed
  qed
  then show "advances w w'" "length buffer' = BUFSIZE" "set queue' \<subseteq> set queue" by blast+
qed

lemma record_advances: "daemon_ok w \<Longrightarrow> daemon_ok (statistics_record s n w) \<and> advances w (statistics_record s n w)"
proof -
  assume ok: "daemon_ok w"
  have "quiet w (statistics_record s n w)" by simp
  from advances_quiet [OF ok this] show ?thesis by (simp add: advances_def)
qed

lemma process_direct_advances:
  assumes "length b = BUFSIZE" "0 \<le> n" "n \<le> int (length b)" "daemon_ok u" "process_direct d b n u = Some (r, v)"
  shows "advances u v"
proof -
  let ?u = "statistics_record STAT_DIRECT_RECV_PKG 1 (statistics_record STAT_DIRECT_RECV_BYTE n u)"
  have u: "advances u ?u" using record_advances advances_trans assms(4) by blast
  have "ddhcp_dhcp_process b n (snd d) ?u = Some v" using assms(5) by (auto simp: process_direct_def elim!: bindE)
  with u show ?thesis
    using assms(1-3) by (intro advances_trans [OF u direct_advances]) (auto simp: advances_def BUFSIZE_def)
qed

lemma process_mcast_advances:
  assumes "length (snd d) = 16" "length b = BUFSIZE" "0 \<le> n" "n \<le> int (length b)" "daemon_ok u"
    "process_mcast d b n u = Some (r, v)"
  shows "advances u v"
proof -
  let ?u = "statistics_record STAT_MCAST_RECV_PKG 1 (statistics_record STAT_MCAST_RECV_BYTE n u)"
  have u: "advances u ?u" using record_advances advances_trans assms(5) by blast
  have "ddhcp_block_process b n (snd d) ?u = Some v" using assms(6) by (auto simp: process_mcast_def elim!: bindE)
  with u show ?thesis
    using assms(1-4) by (intro advances_trans [OF u mcast_advances]) (auto simp: advances_def BUFSIZE_def)
qed

lemma process_dhcp_advances:
  assumes "n \<le> int (length b)" "daemon_ok u" "process_dhcp d b n u = Some (r, v)"
  shows "advances u v"
proof -
  let ?u = "statistics_record STAT_DHCP_RECV_PKG 1 (statistics_record STAT_DHCP_RECV_BYTE n u)"
  have u: "advances u ?u" using record_advances advances_trans assms(2) by blast
  have "dhcp_process b n ?u = Some (r, v)" using assms(3) by (simp add: process_dhcp_def)
  with u show ?thesis
    using assms(1) by (intro advances_trans [OF u dhcp_process_advances]) (auto simp: advances_def)
qed

lemma loop_okI:
  "loop_ok base w0 s \<Longrightarrow> advances (s_config s) (s_config s') \<Longrightarrow> length (s_buffer s') = BUFSIZE \<Longrightarrow>
    set (s_mcast s') \<subseteq> set (s_mcast s) \<Longrightarrow> set (s_server s') \<subseteq> set (s_server s) \<Longrightarrow>
    sockets_ok base (s_sockets s') \<Longrightarrow> loop_ok base w0 s'"
  using countable_cong [of "s_config s" "s_config s'"] same_params_trans [of w0 "s_config s" "s_config s'"]
  by (auto simp: loop_ok_def advances_def)

lemma loop_ok_sockets: "loop_ok base w0 s \<Longrightarrow> sockets_ok base (s_sockets s)"
  by (simp add: loop_ok_def)

lemma handle_sockets:
  "loop_ok base w0 s \<Longrightarrow> sockets_step base (s_sockets s) so \<Longrightarrow> loop_ok base w0 (s\<lparr>s_sockets := so\<rparr>)"
  by (simp add: loop_ok_def sockets_step_def)

lemma few_blocks:
  assumes "wf_state w" "countable_leases w"
  shows "num_blocks w < 2 ^ 31"
proof -
  have "0 < unat (c_block_size w)" using inv_params [OF assms(1)] by (simp add: wf_params_def word_less_nat_alt)
  then have "num_blocks w \<le> num_blocks w * unat (c_block_size w)" by simp
  then show ?thesis using assms(2) unfolding countable_leases_def by (rule le_less_trans)
qed

lemma handle_event_ok:
  assumes ok: "loop_ok base w0 s" and m: "handle_event e s = Some (Inr (need, s'))"
  shows "loop_ok base w0 s'"
proof (cases e)
  case Multicast_in
  with m obtain q n b w where r: "read_loop fst process_mcast (s_mcast s) (False, s_buffer s, s_config s) = Some (q, n, b, w)"
    "s' = s\<lparr>s_mcast := q, s_buffer := b, s_config := w\<rparr>" by (auto simp: hdl_ddhcp_block_def elim!: bindE)
  have s: "daemon_ok (s_config s)" "length (s_buffer s) = BUFSIZE" using ok by (simp_all add: loop_ok_def)
  have "advances (s_config s) w" "length b = BUFSIZE" "set q \<subseteq> set (s_mcast s)"
    by (rule read_loop_advances [OF r(1) s]; rule process_mcast_advances; (use ok in \<open>simp add: loop_ok_def\<close>)?)+
  then show ?thesis using r(2) loop_ok_sockets [OF ok] by (intro loop_okI [OF ok]) simp_all
next
  case Server_in
  with m obtain q n b w where r: "read_loop fst process_direct (s_server s) (False, s_buffer s, s_config s) = Some (q, n, b, w)"
    "s' = s\<lparr>s_server := q, s_buffer := b, s_config := w\<rparr>" by (auto simp: hdl_ddhcp_dhcp_def elim!: bindE)
  have s: "daemon_ok (s_config s)" "length (s_buffer s) = BUFSIZE" using ok by (simp_all add: loop_ok_def)
  have "advances (s_config s) w" "length b = BUFSIZE" "set q \<subseteq> set (s_server s)"
    by (rule read_loop_advances [OF r(1) s]; rule process_direct_advances; (use ok in \<open>simp add: loop_ok_def\<close>)?)+
  then show ?thesis using r(2) loop_ok_sockets [OF ok] by (intro loop_okI [OF ok]) simp_all
next
  case Dhcp_in
  with m obtain q n b w where r: "read_loop id process_dhcp (s_dhcp s) (False, s_buffer s, s_config s) = Some (q, n, b, w)"
    "s' = s\<lparr>s_dhcp := q, s_buffer := b, s_config := w\<rparr>" by (auto simp: hdl_dhcp_def elim!: bindE)
  have s: "daemon_ok (s_config s)" "length (s_buffer s) = BUFSIZE" using ok by (simp_all add: loop_ok_def)
  have "advances (s_config s) w" "length b = BUFSIZE" "set q \<subseteq> set (s_dhcp s)"
    by (rule read_loop_advances [OF r(1) s]; rule process_dhcp_advances; (use ok in \<open>simp add: loop_ok_def\<close>)?)+
  then show ?thesis using r(2) loop_ok_sockets [OF ok] by (intro loop_okI [OF ok]) simp_all
next
  case (Control_in fd data)
  obtain len b where b: "(case data of None \<Rightarrow> (-1, s_buffer s) | Some bs \<Rightarrow> receive bs (s_buffer s)) = (len, b)"
    by fastforce
  have l: "length b = BUFSIZE" "len \<le> int (length b)"
    using b ok receive_length [of _ "s_buffer s" len b] by (auto simp: loop_ok_def split: option.split_asm)
  show ?thesis
  proof (cases "connection fd (s_sockets s)")
    case False
    then show ?thesis using m Control_in ok by simp
  next
    case True
    then obtain r w so where r: "handle_command b len (s_config s) = Some (r, w)"
      "end_connection fd (s_sockets s) = Inr so" "s' = s\<lparr>s_buffer := b, s_config := w, s_sockets := so\<rparr>"
      using m Control_in b by (auto simp: hdl_ctrl_cmd_def elim!: bindE split: sum.split_asm)
    have inv: "wf_state (s_config s)" "num_blocks (s_config s) < 2 ^ 31"
      using ok few_blocks by (auto simp: loop_ok_def daemon_ok_def)
    have "b \<noteq> []" using l(1) by (auto simp: BUFSIZE_def)
    then have "commanded (s_config s) w" using handle_command_ok [OF inv _ l(2)] r(1) by auto
    then have "advances (s_config s) w" using ok by (intro advancesI) (auto simp: commanded_def loop_ok_def)
    moreover have "sockets_ok base so"
      using end_connection_ok [OF loop_ok_sockets [OF ok] True] r(2) by (simp add: ended_def sockets_step_def)
    ultimately show ?thesis using r(3) l(1) by (intro loop_okI [OF ok]) simp_all
  qed
next
  case Control_new
  then obtain so where "hdl_ctrl_new (s_sockets s) = Some (Inr so)" "s' = s\<lparr>s_sockets := so\<rparr>"
    using m by (auto simp: andthen_def split: option.split_asm sum.split_asm)
  then show ?thesis
    using ctrl_new_ok [OF loop_ok_sockets [OF ok]] handle_sockets [OF ok] by (simp add: accepted_def)
next
  case (Hangup fd)
  then show ?thesis
    using m ok end_connection_ok [OF loop_ok_sockets [OF ok], of fd] handle_sockets [OF ok]
    by (auto simp: ended_def split: if_split_asm sum.split_asm)
qed (use m ok in auto)

lemma handle_events_ok:
  "handle_events es (n, s) = Some (Inr (n', s')) \<Longrightarrow> loop_ok base w0 s \<Longrightarrow> loop_ok base w0 s'"
proof (induction es arbitrary: n s)
  case (Cons e es)
  then show ?case
    using handle_event_ok by (fastforce elim!: bindE split: sum.split_asm)
qed simp

lemma house_keeping_advances:
  assumes ok: "daemon_ok w" and few: "countable_leases w" and m: "house_keeping w = Some w'"
  shows "advances w w'"
  using house_keeping_keeps [OF daemon_okD(1) [OF ok] few m] by (rule advancesI [OF ok])

lemma check_time_ok: "loop_ok base w0 s \<Longrightarrow> check_time s = (n, s') \<Longrightarrow> loop_ok base w0 s'"
proof -
  assume ok: "loop_ok base w0 s" and eq: "check_time s = (n, s')"
  let ?w = "(s_config s)\<lparr>w_times := stl (w_times (s_config s))\<rparr>"
  have w: "advances (s_config s) ?w" "advances (s_config s) (hook HOOK_LEARNING_PHASE_END ?w)"
  proof -
    have d: "daemon_ok (s_config s)" using ok by (simp add: loop_ok_def)
    have "quiet (s_config s) ?w" by simp
    then show "advances (s_config s) ?w" by (rule advances_quiet [OF d])
    have "quiet (s_config s) (hook HOOK_LEARNING_PHASE_END ?w)"
      using hook_out [of HOOK_LEARNING_PHASE_END ?w] by (auto simp: quiet_def env_change_def same_params_def)
    then show "advances (s_config s) (hook HOOK_LEARNING_PHASE_END ?w)" by (rule advances_quiet [OF d])
  qed
  have s': "s_config s' = ?w \<or> s_config s' = hook HOOK_LEARNING_PHASE_END ?w" "s_buffer s' = s_buffer s"
    "s_mcast s' = s_mcast s" "s_server s' = s_server s" "s_sockets s' = s_sockets s"
    using eq by (auto simp: check_time_def time_null_def Let_def split: if_split_asm)
  show ?thesis using s' w ok by (intro loop_okI [OF ok]) (auto simp: loop_ok_def)
qed

lemma loop_iteration_ok:
  assumes ok: "loop_ok base w0 s" and m: "loop_iteration es s = Some (Inr s')"
  shows "loop_ok base w0 s'"
proof -
  obtain n u where u: "check_time s = (n, u)" by fastforce
  then have "loop_ok base w0 u" by (rule check_time_ok [OF ok])
  then have v: "loop_ok base w0 v" if "handle_events es (n, u) = Some (Inr (n', v))" for n' v
    using handle_events_ok that by blast
  obtain n' v where nv: "handle_events es (n, u) = Some (Inr (n', v))"
    "s' = v \<or> (\<exists>w. house_keeping (s_config v) = Some w \<and> s' = v\<lparr>s_config := w\<rparr>)"
    using m u by (auto simp: loop_iteration_def elim!: bindE split: sum.split_asm if_split_asm)
  note okv = v [OF nv(1)]
  from nv(2) show ?thesis
  proof (elim disjE exE conjE)
    fix w assume w: "house_keeping (s_config v) = Some w" "s' = v\<lparr>s_config := w\<rparr>"
    have "advances (s_config v) w" using house_keeping_advances [OF _ _ w(1)] okv by (simp add: loop_ok_def)
    then show "loop_ok base w0 s'" using w(2) okv by (intro loop_okI [OF okv]) (simp_all add: loop_ok_def)
  qed (use okv in simp)
qed

subsection \<open>The transition system\<close>

text \<open>Datagrams arrive at any time; a turn of the loop handles the events that are ready.\<close>

inductive daemon_step :: "daemon \<Rightarrow> daemon \<Rightarrow> bool" where
  mcast_arrives: "length a = 16 \<Longrightarrow> daemon_step s (s\<lparr>s_mcast := s_mcast s @ [(d, a)]\<rparr>)"
| direct_arrives: "length a = 16 \<Longrightarrow> daemon_step s (s\<lparr>s_server := s_server s @ [(d, a)]\<rparr>)"
| dhcp_arrives: "daemon_step s (s\<lparr>s_dhcp := s_dhcp s @ [d]\<rparr>)"
| iterates: "loop_iteration es s = Some (Inr s') \<Longrightarrow> daemon_step s s'"

inductive_cases daemon_stepE: "daemon_step s s'"

inductive reachable :: "daemon \<Rightarrow> daemon \<Rightarrow> bool" for s0 where
  start: "reachable s0 s0"
| step: "reachable s0 s \<Longrightarrow> daemon_step s s' \<Longrightarrow> reachable s0 s'"

lemma daemon_step_ok: "daemon_step s s' \<Longrightarrow> loop_ok base w0 s \<Longrightarrow> loop_ok base w0 s'"
proof (erule daemon_stepE)
  fix es assume "loop_ok base w0 s" "loop_iteration es s = Some (Inr s')"
  then show "loop_ok base w0 s'" by (rule loop_iteration_ok)
qed (auto simp: loop_ok_def)

lemma reachable_ok: "reachable s0 s \<Longrightarrow> loop_ok base w0 s0 \<Longrightarrow> loop_ok base w0 s"
  by (induction rule: reachable.induct) (auto intro: daemon_step_ok)

lemma loop_start_ok:
  assumes "wf_state w" "countable_leases w" "c_dhcp_packet_cache w = []" "length buffer = BUFSIZE" "sockets_ok base so"
  shows "loop_ok base w (loop_start learning buffer so w)"
proof -
  let ?w = "w\<lparr>w_times := stl (w_times w)\<rparr>"
  have ok: "daemon_ok w" using assms by (simp add: daemon_ok_def)
  have q: "quiet w ?w" "quiet w (hook HOOK_LEARNING_PHASE_END ?w)"
    using hook_out [of HOOK_LEARNING_PHASE_END ?w] by (auto simp: quiet_def env_change_def same_params_def)
  have "s_config (loop_start learning buffer so w) = (if learning then ?w else hook HOOK_LEARNING_PHASE_END ?w)"
    "s_buffer (loop_start learning buffer so w) = buffer" "s_mcast (loop_start learning buffer so w) = []"
    "s_server (loop_start learning buffer so w) = []" "s_sockets (loop_start learning buffer so w) = so"
    by (simp_all add: loop_start_def time_null_def Let_def)
  then show ?thesis
    using advances_quiet [OF ok q(1)] advances_quiet [OF ok q(2)] assms(2,4,5)
      countable_cong [of w ?w] countable_cong [of w "hook HOOK_LEARNING_PHASE_END ?w"]
    by (simp add: loop_ok_def advances_def)
qed

end
