(* ===== verification/Example.thy ===== *)
theory Example
  imports Daemon
begin

text \<open>
  A small network on which the properties are applied: four blocks of two addresses in
  10.0.0.0/29. The node owns block 0, of which one lease is taken; block 1 belongs to a
  node with a higher identifier, block 2 is being claimed, block 3 is free. Memory is
  available, the clock stands still and every datagram is accepted. The daemon's five sockets
  are open and no connection is.
\<close>

definition client :: "u8 list" where
  "client = [0xde, 0xad, 0xbe, 0xef, 0, 1] @ replicate 10 0"

definition other_client :: "u8 list" where
  "other_client = [0xca, 0xfe, 0, 0, 0, 2] @ replicate 10 0"

definition own_id :: node_id where
  "own_id = [2, 0, 0, 0, 0, 0, 0, 1]"

definition peer_id :: node_id where
  "peer_id = [2, 0, 0, 0, 0, 0, 0, 9]"

definition peer_address :: in6_addr where
  "peer_address = [0xfe, 0x80] @ replicate 13 0 @ [9]"

definition demo_block :: "nat \<Rightarrow> block_state \<Rightarrow> node_id \<Rightarrow> dhcp_lease list option \<Rightarrow> ddhcp_block" where
  "demo_block i st node ls = \<lparr>b_index = of_nat i, b_state = st, b_subnet = [10, 0, 0, of_nat (2 * i)],
     b_subnet_len = 2, b_claiming_counts = 0, b_node_id = node,
     b_owner_address = peer_address, b_first_claimed = 900, b_needless_since = 0, b_timeout = 1010,
     b_addresses = ls\<rparr>"

definition held_lease :: dhcp_lease where
  "held_lease = \<lparr>l_chaddr = client, l_state = LEASED, l_xid = 7, l_lease_end = 1200\<rparr>"

definition lease_time_option :: dhcp_option where
  "lease_time_option = \<lparr>o_code = DHCP_CODE_ADDRESS_LEASE_TIME, o_len = 4, o_payload = [0, 0, 1, 44]\<rparr>"

definition server_option :: dhcp_option where
  "server_option = \<lparr>o_code = DHCP_CODE_SERVER_IDENTIFIER, o_len = 4, o_payload = [10, 0, 0, 1]\<rparr>"

definition node_world :: "node_id \<Rightarrow> nat list \<Rightarrow> ddhcp_block list \<Rightarrow> world" where
  "node_world node claiming blocks = \<lparr>c_node_id = node, c_number_of_blocks = 4, c_block_timeout = 60,
     c_block_refresh_factor = 4, c_block_needless_timeout = 300, c_tentative_timeout = 15, c_block_size = 2,
     c_spare_leases_needed = 2, c_prefix = [10, 0, 0, 0], c_prefix_len = 29, c_disable_dhcp = 0,
     c_claiming_blocks_amount = of_nat (length claiming), c_needless_marks = 0, c_blocks = blocks,
     c_claiming_blocks = claiming, c_dhcp_packet_cache = [], c_options = [lease_time_option, server_option],
     c_hook_command = Some ''/bin/hook'', c_statistics = (\<lambda>_. 0), w_times = sconst 1000,
     w_rands = sconst 5, w_allocs = sconst True, w_sends = sconst 100, w_out = [], w_little_endian = True,
     w_log_level = 0\<rparr>"

definition demo :: world where
  "demo = node_world own_id [2] [demo_block 0 DDHCP_OURS own_id (Some [held_lease, zero_lease]),
     demo_block 1 DDHCP_CLAIMED peer_id None, demo_block 2 DDHCP_CLAIMING zero_node_id None,
     demo_block 3 DDHCP_FREE zero_node_id None]"

text \<open>The neighbour, which owns block 1, and a rival, which believes that it owns block 0 as well.\<close>

definition peer :: world where
  "peer = node_world peer_id [] [demo_block 0 DDHCP_CLAIMED own_id None,
     demo_block 1 DDHCP_OURS peer_id (Some [zero_lease, zero_lease]), demo_block 2 DDHCP_FREE zero_node_id None,
     demo_block 3 DDHCP_FREE zero_node_id None]"

definition rival :: world where
  "rival = node_world peer_id [] [demo_block 0 DDHCP_OURS peer_id (Some [zero_lease, zero_lease]),
     demo_block 1 DDHCP_OURS peer_id (Some [zero_lease, zero_lease]), demo_block 2 DDHCP_FREE zero_node_id None,
     demo_block 3 DDHCP_FREE zero_node_id None]"

lemma demo_sizes [simp]:
  "length client = 16" "length other_client = 16" "length own_id = 8" "length peer_id = 8"
  "length peer_address = 16" "length zero_node_id = 8"
  by (simp_all add: client_def other_client_def own_id_def peer_id_def peer_address_def zero_node_id_def)

lemma node_world_simps [simp]:
  "c_number_of_blocks (node_world n cl bs) = 4" "c_block_size (node_world n cl bs) = 2"
  "c_claiming_blocks (node_world n cl bs) = cl" "c_claiming_blocks_amount (node_world n cl bs) = of_nat (length cl)"
  "c_options (node_world n cl bs) = [lease_time_option, server_option]"
  "c_block_refresh_factor (node_world n cl bs) = 4" "w_times (node_world n cl bs) = sconst 1000"
  "w_allocs (node_world n cl bs) = sconst True" "w_sends (node_world n cl bs) = sconst 100"
  "w_out (node_world n cl bs) = []" "c_node_id (node_world n cl bs) = n" "c_prefix (node_world n cl bs) = [10, 0, 0, 0]"
  "c_prefix_len (node_world n cl bs) = 29" "c_spare_leases_needed (node_world n cl bs) = 2"
  "c_dhcp_packet_cache (node_world n cl bs) = []" "c_blocks (node_world n cl bs) = bs"
  "w_little_endian (node_world n cl bs) = True" "c_statistics (node_world n cl bs) = (\<lambda>_. 0)"
  by (simp_all add: node_world_def)

lemma node_subnets:
  "block_subnet (node_world n cl bs) 0 = [10, 0, 0, 0]" "block_subnet (node_world n cl bs) (Suc 0) = [10, 0, 0, 2]"
  "block_subnet (node_world n cl bs) 2 = [10, 0, 0, 4]" "block_subnet (node_world n cl bs) 3 = [10, 0, 0, 6]"
  unfolding block_subnet_def node_world_simps by code_simp+

lemma node_addresses:
  "lease_address (node_world n cl bs) 0 0 = [10, 0, 0, 0]" "lease_address (node_world n cl bs) 0 (Suc 0) = [10, 0, 0, 1]"
  "lease_address (node_world n cl bs) (Suc 0) 0 = [10, 0, 0, 2]"
  unfolding lease_address_def node_subnets by code_simp+

lemma wf_held_lease [simp]: "wf_lease held_lease"
  by (simp add: wf_lease_def held_lease_def)

lemma less_4: "i < (4 :: nat) \<longleftrightarrow> i = 0 \<or> i = Suc 0 \<or> i = 2 \<or> i = 3"
  by auto

lemma node_world_wf:
  assumes "length n = 8" "distinct cl" "set cl \<subseteq> {..<4}" "length bs = 4"
    "\<And>i. i < 4 \<Longrightarrow> wf_block (node_world n cl bs) i (bs ! i)"
  shows "wf_state (node_world n cl bs)"
proof -
  have "wf_store [lease_time_option, server_option]"
    by (simp add: wf_store_def valid_codes_def wf_option_def lease_time_option_def server_option_def dhcp_codes)
  moreover have "length cl \<le> 4" using card_mono [OF _ assms(3)] distinct_card [OF assms(2)] by simp
  ultimately show ?thesis
    using assms by (auto simp: wf_state_def wf_params_def wf_blocks_def wf_claiming_def)
qed

lemma demo_wf: "wf_state demo" and peer_wf: "wf_state peer" and rival_wf: "wf_state rival"
  unfolding demo_def peer_def rival_def
  by (rule node_world_wf; force simp: less_4 wf_block_def demo_block_def node_subnets)+

lemma node_reliable: "reliable (node_world n cl bs)"
  by (simp add: reliable_def)

lemma demo_reliable [simp]: "reliable demo" and peer_reliable [simp]: "reliable peer"
  by (simp_all add: demo_def peer_def node_reliable)

lemma demo_simps [simp]:
  "c_number_of_blocks demo = 4" "c_block_size demo = 2" "c_claiming_blocks demo = [2]" "c_spare_leases_needed demo = 2"
  "c_options demo = [lease_time_option, server_option]" "w_times demo = sconst 1000"
  "w_allocs demo = sconst True" "w_sends demo = sconst 100" "w_out demo = []" "c_node_id demo = own_id"
  "c_prefix demo = [10, 0, 0, 0]" "c_dhcp_packet_cache demo = []"
  "c_blocks demo ! 0 = demo_block 0 DDHCP_OURS own_id (Some [held_lease, zero_lease])"
  "c_blocks demo ! Suc 0 = demo_block 1 DDHCP_CLAIMED peer_id None"
  "c_blocks demo ! 2 = demo_block 2 DDHCP_CLAIMING zero_node_id None"
  "c_blocks demo ! 3 = demo_block 3 DDHCP_FREE zero_node_id None"
  by (simp_all add: demo_def)

lemma demo_countable: "countable_leases demo"
  by (simp add: countable_leases_def)

lemma demo_holds: "holds demo client 0 0"
  by (simp add: holds_def demo_block_def block_leases_def held_lease_def)

subsection \<open>Messages\<close>

text \<open>A request of a client for an address, with its message type first.\<close>

definition message_type_option :: "u8 \<Rightarrow> dhcp_option" where
  "message_type_option t = \<lparr>o_code = DHCP_CODE_MESSAGE_TYPE, o_len = 1, o_payload = [t]\<rparr>"

definition address_option :: "in_addr \<Rightarrow> dhcp_option" where
  "address_option a = \<lparr>o_code = DHCP_CODE_REQUESTED_ADDRESS, o_len = 4, o_payload = a\<rparr>"

definition client_packet :: "u8 list \<Rightarrow> dhcp_option list \<Rightarrow> dhcp_packet" where
  "client_packet chaddr os = \<lparr>d_op = 1, d_htype = 1, d_hlen = 6, d_hops = 0, d_xid = 42, d_secs = 0, d_flags = 0,
     d_chaddr = chaddr, d_sname = replicate 64 0, d_file = replicate 128 0, d_options_len = of_nat (length os),
     d_timeout = 0, d_ciaddr = zero_addr, d_yiaddr = zero_addr, d_siaddr = zero_addr, d_giaddr = zero_addr,
     d_options = os\<rparr>"

definition request_for :: "u8 list \<Rightarrow> in_addr \<Rightarrow> dhcp_packet" where
  "request_for chaddr a = client_packet chaddr [message_type_option DHCPREQUEST, address_option a]"

lemma client_packet_header [simp]: "length c = 16 \<Longrightarrow> wf_dhcp_header (client_packet c os)"
  by (simp add: wf_dhcp_header_def client_packet_def zero_addr_def)

lemma client_packet_fields [simp]:
  "d_chaddr (client_packet c os) = c" "d_ciaddr (client_packet c os) = zero_addr" "d_xid (client_packet c os) = 42"
  by (simp_all add: client_packet_def)

lemma client_packet_options:
  "length os < 256 \<Longrightarrow> sent_options (client_packet c os) = os"
  by (simp add: sent_options_def client_packet_def unat_of_nat)

lemma wf_client_packet:
  "length c = 16 \<Longrightarrow> length os < 256 \<Longrightarrow> \<forall>x \<in> set os. readable x \<Longrightarrow> wf_dhcp_packet (client_packet c os)"
  unfolding wf_dhcp_packet_def using client_packet_options [of os c]
  by (simp add: sent_options_def) (simp add: client_packet_def unat_of_nat)

lemma request_for_ok:
  assumes "length c = 16" "length a = 4"
  shows "wf_dhcp_packet (request_for c a)" "addressable (request_for c a)" "complete_address (request_for c a)"
    "requested_address (request_for c a) = Some (Some a)" "d_chaddr (request_for c a) = c" "d_xid (request_for c a) = 42"
    "has_message_type (sent_options (request_for c a))"
proof -
  let ?os = "[message_type_option DHCPREQUEST, address_option a]"
  have so: "sent_options (request_for c a) = ?os" by (simp add: request_for_def client_packet_options)
  show wf: "wf_dhcp_packet (request_for c a)"
    unfolding request_for_def using assms
    by (intro wf_client_packet) (simp_all add: readable_def message_type_option_def address_option_def)
  show "addressable (request_for c a)" "complete_address (request_for c a)"
    "has_message_type (sent_options (request_for c a))"
    using assms(2)
    by (simp_all add: addressable_def complete_address_def has_message_type_def so message_type_option_def
        address_option_def dhcp_codes)
  show "requested_address (request_for c a) = Some (Some a)"
    using assms(2)
    by (simp add: requested_find [OF wf] so message_type_option_def address_option_def dhcp_codes)
  show "d_chaddr (request_for c a) = c" "d_xid (request_for c a) = 42" by (simp_all add: request_for_def)
qed

subsection \<open>The descriptors\<close>

text \<open>A process with its three standard descriptors, and the daemon with its sockets.\<close>

definition demo_kernel :: kernel where
  "demo_kernel = \<lparr>k_open = [2, 1, 0], k_polled = [], k_set = [], k_stray = [], k_answers = sconst True,
     k_index = (\<lambda>_. 7), k_nl_connect = (\<lambda>fds. Some (new_fd fds))\<rparr>"

definition demo_data :: "int \<Rightarrow> socket_spec \<Rightarrow> ddhcp_epoll_data" where
  "demo_data fd spec = (spec_data spec)\<lparr>e_fd := fd\<rparr>"

definition demo_sockets :: sockets where
  "demo_sockets = (let ds = map2 demo_data [4, 5, 6, 7, 8] (all_sockets ''server0'' ''client0'' ''/tmp/ddhcpd_ctl'' 0)
     in \<lparr>so_epoll_fd = 3, so_control_path = ''/tmp/ddhcpd_ctl'', so_data = ds,
         so_kernel = demo_kernel\<lparr>k_open := [8, 7, 6, 5, 4, 3, 2, 1, 0], k_polled := ds\<rparr>\<rparr>)"

lemma demo_kernel_ok: "started demo_kernel" "nl_fresh demo_kernel" "obliging demo_kernel" "k_open demo_kernel = [2, 1, 0]"
  using new_fd_fresh by (auto simp: demo_kernel_def started_def nl_fresh_def obliging_def)

lemma demo_sockets_kernel: "obliging (so_kernel demo_sockets)"
  by (auto simp: demo_sockets_def demo_kernel_def obliging_def Let_def)

lemma demo_sockets_ok: "sockets_ok {0, 1, 2} demo_sockets"
  by (auto simp: demo_sockets_def demo_kernel_def sockets_ok_def fds_ok_def control_fd_def demo_data_def
      all_sockets_def node_sockets_def client_sockets_def Let_def)

end
