(* ===== verification/Numbers.thy ===== *)
theory Numbers
  imports Tools
begin

text \<open>
  The functions of the C library that read numbers from strings, as far as the command
  lines use them: \<open>atoi\<close>, \<open>strtoul\<close> with base 0 on a 64-bit \<open>unsigned long\<close>, \<open>inet_aton\<close> and
  \<open>strchr\<close>. \<open>atoi\<close> of a number that is no \<open>int\<close> is undefined.
\<close>

definition isspace :: "char \<Rightarrow> bool" where
  "isspace c = (let n = of_char c :: nat in n = 32 \<or> 9 \<le> n \<and> n \<le> 13)"

definition char_digit :: "char \<Rightarrow> nat" where
  "char_digit c = (let n = of_char c :: nat in
     if 48 \<le> n \<and> n \<le> 57 then n - 48
     else if 97 \<le> n \<and> n \<le> 122 then n - 87
     else if 65 \<le> n \<and> n \<le> 90 then n - 55 else 36)"

text \<open>The digits at the start of a string, as a number, and the rest.\<close>

fun scan :: "nat \<Rightarrow> nat \<Rightarrow> string \<Rightarrow> nat \<times> string" where
  "scan base acc [] = (acc, [])"
| "scan base acc (c # s) = (if char_digit c < base then scan base (acc * base + char_digit c) s else (acc, c # s))"

text \<open>A sign.\<close>

fun signed_text :: "string \<Rightarrow> bool \<times> string" where
  "signed_text [] = (False, [])"
| "signed_text (c # s) = (if c = CHR ''-'' then (True, s) else if c = CHR ''+'' then (False, s) else (False, c # s))"

text \<open>A number with the prefix of C for its base; the prefix \<open>0x\<close> counts with a digit behind it.\<close>

fun scan_prefixed :: "string \<Rightarrow> nat \<times> string" where
  "scan_prefixed (z # x # d # s) =
     (if z = CHR ''0'' \<and> (x = CHR ''x'' \<or> x = CHR ''X'') \<and> char_digit d < 16 then scan 16 0 (d # s)
      else scan (if z = CHR ''0'' then 8 else 10) 0 (z # x # d # s))"
| "scan_prefixed (z # s) = scan (if z = CHR ''0'' then 8 else 10) 0 (z # s)"
| "scan_prefixed [] = (0, [])"

definition atoi :: "string \<Rightarrow> int option" where
  "atoi s = (let (neg, t) = signed_text (dropWhile isspace s);
       n = int (fst (scan 10 0 t)); v = (if neg then - n else n)
     in if - (2 ^ 31) \<le> v \<and> v < 2 ^ 31 then Some v else None)"

definition ULONG_MAX :: "64 word" where "ULONG_MAX = - 1"

text \<open>The value and whether \<open>errno\<close> is set to \<open>ERANGE\<close>.\<close>

definition strtoul :: "string \<Rightarrow> 64 word \<times> bool" where
  "strtoul s = (let (neg, t) = signed_text (dropWhile isspace s); n = fst (scan_prefixed t)
     in if n \<ge> 2 ^ 64 then (ULONG_MAX, True) else (if neg then - of_nat n else of_nat n, False))"

text \<open>\<open>strchr\<close>, with what is before the character and what is behind it.\<close>

definition strchr :: "char \<Rightarrow> string \<Rightarrow> (string \<times> string) option" where
  "strchr c s = (if c \<in> set s then Some (takeWhile (\<lambda>x. x \<noteq> c) s, tl (dropWhile (\<lambda>x. x \<noteq> c) s)) else None)"

text \<open>Up to three parts of one octet and a last part that fills the rest of the address.\<close>

primrec aton_parts :: "nat \<Rightarrow> u8 list \<Rightarrow> string \<Rightarrow> (u8 list \<times> nat) option" where
  "aton_parts 0 ps s = None"
| "aton_parts (Suc k) ps s =
     (if s = [] \<or> \<not> char_digit (hd s) < 10 then None
      else let (v, rest) = scan_prefixed s
        in if v \<ge> 2 ^ 32 then None
           else if rest \<noteq> [] \<and> hd rest = CHR ''.''
                then (if v > 255 then None else aton_parts k (ps @ [of_nat v]) (tl rest))
                else if rest \<noteq> [] \<and> \<not> isspace (hd rest) then None else Some (ps, v))"

definition inet_aton :: "string \<Rightarrow> in_addr option" where
  "inet_aton s = do {
     (ps, v) \<leftarrow> aton_parts 4 [] s;
     if v < 2 ^ (8 * (4 - length ps)) then Some (ps @ drop (length ps) (put32 (of_nat v))) else None }"

lemma aton_parts_length: "aton_parts k ps s = Some (qs, v) \<Longrightarrow> length qs < length ps + k"
  by (induction k arbitrary: ps s) (fastforce split: if_splits prod.splits)+

lemma inet_aton_length: "inet_aton s = Some a \<Longrightarrow> length a = 4"
  using aton_parts_length [of 4 "[]" s]
  by (auto simp: inet_aton_def bind_eq_Some_conv split: if_splits)

text \<open>Decimal numbers as the program prints them are read back.\<close>

lemma char_digit_hex: "n < 10 \<Longrightarrow> char_digit (hex_digit n) = n"
proof -
  have "\<forall>k \<in> set [0..<10]. char_digit (hex_digit k) = k" by code_simp
  then show "n < 10 \<Longrightarrow> char_digit (hex_digit n) = n" by simp
qed

definition no_digit :: "string \<Rightarrow> bool" where
  "no_digit r \<longleftrightarrow> (case r of [] \<Rightarrow> True | c # _ \<Rightarrow> \<not> char_digit c < 10)"

lemma scan_stop: "no_digit r \<Longrightarrow> scan 10 acc r = (acc, r)"
  by (cases r) (simp_all add: no_digit_def)

lemma scan_dec:
  "\<exists>k. \<forall>acc. scan 10 acc (dec n @ r) = scan 10 (acc * 10 ^ k + n) r"
proof (induction n arbitrary: r rule: dec.induct)
  case (1 n)
  show ?case
  proof (cases "n < 10")
    case True
    then show ?thesis by (intro exI [of _ 1]) (simp add: dec.simps char_digit_hex)
  next
    case False
    obtain k where k: "\<forall>acc. scan 10 acc (dec (n div 10) @ [hex_digit (n mod 10)] @ r) =
        scan 10 (acc * 10 ^ k + n div 10) ([hex_digit (n mod 10)] @ r)"
      using "1.IH" [OF False] by blast
    have "dec n = dec (n div 10) @ [hex_digit (n mod 10)]" using False by (simp add: dec.simps [of n])
    then have s: "scan 10 acc (dec n @ r) = scan 10 ((acc * 10 ^ k + n div 10) * 10 + n mod 10) r" for acc
      using k by (simp add: char_digit_hex)
    have "(acc * 10 ^ k + n div 10) * 10 + n mod 10 = acc * 10 ^ Suc k + n" for acc
      by (simp add: algebra_simps)
    then show ?thesis unfolding s by (intro exI [of _ "Suc k"] allI) (simp only:)
  qed
qed

lemma scan_dec_number: "no_digit r \<Longrightarrow> scan 10 0 (dec n @ r) = (n, r)"
  using scan_dec [of n r] by (auto simp: scan_stop)

lemma hex_digit_plain:
  "n < 10 \<Longrightarrow> \<not> isspace (hex_digit n) \<and> hex_digit n \<noteq> CHR ''-'' \<and> hex_digit n \<noteq> CHR ''+'' \<and> hex_digit n \<noteq> CHR '':''
    \<and> hex_digit n \<noteq> CHR ''.'' \<and> hex_digit n \<noteq> CHR ''x'' \<and> hex_digit n \<noteq> CHR ''X'' \<and> hex_digit n \<noteq> CHR ''/''
    \<and> (hex_digit n = CHR ''0'' \<longleftrightarrow> n = 0)"
proof -
  have "\<forall>n \<in> set [0..<10]. \<not> isspace (hex_digit n) \<and> hex_digit n \<noteq> CHR ''-'' \<and> hex_digit n \<noteq> CHR ''+''
    \<and> hex_digit n \<noteq> CHR '':'' \<and> hex_digit n \<noteq> CHR ''.'' \<and> hex_digit n \<noteq> CHR ''x'' \<and> hex_digit n \<noteq> CHR ''X''
    \<and> hex_digit n \<noteq> CHR ''/'' \<and> (hex_digit n = CHR ''0'' \<longleftrightarrow> n = 0)"
    by code_simp
  then show "n < 10 \<Longrightarrow> ?thesis" by simp
qed

text \<open>Every character of a printed number is a digit, and the first is zero for zero only.\<close>

lemma dec_digits: "\<forall>c \<in> set (dec n). \<exists>d < 10. c = hex_digit d"
proof (induction n rule: dec.induct)
  case (1 n)
  have "hex_digit (n mod 10) = hex_digit d \<Longrightarrow> True" for d by simp
  show ?case using "1.IH" by (cases "n < 10") (auto simp: dec.simps [of n] intro: exI [of _ "n mod 10"])
qed

lemma dec_head: "\<exists>d t. dec n = hex_digit d # t \<and> d < 10 \<and> (d = 0 \<longrightarrow> n = 0 \<and> t = [])"
proof (induction n rule: dec.induct)
  case (1 n)
  show ?case
  proof (cases "n < 10")
    case True
    then show ?thesis by (intro exI [of _ n] exI [of _ "[]"]) (simp add: dec.simps)
  next
    case False
    obtain d t where d: "dec (n div 10) = hex_digit d # t" "d < 10" "d = 0 \<longrightarrow> n div 10 = 0 \<and> t = []"
      using "1.IH" [OF False] by blast
    then have "d \<noteq> 0" using False by auto
    then show ?thesis using d False
      by (intro exI [of _ d] exI [of _ "t @ [hex_digit (n mod 10)]"]) (simp add: dec.simps [of n])
  qed
qed

lemma atoi_dec:
  assumes "n < 2 ^ 31" "no_digit r"
  shows "atoi (dec n @ r) = Some (int n)"
proof -
  obtain d t where d: "dec n = hex_digit d # t" "d < 10" using dec_head by blast
  have "dropWhile isspace (dec n @ r) = dec n @ r" "signed_text (dec n @ r) = (False, dec n @ r)"
    using d hex_digit_plain [OF d(2)] by simp_all
  then show ?thesis using assms by (simp add: atoi_def scan_dec_number Let_def)
qed

lemma scan_prefixed_dec:
  assumes "no_digit r" "\<forall>c s. r = c # s \<longrightarrow> c \<noteq> CHR ''x'' \<and> c \<noteq> CHR ''X''"
  shows "scan_prefixed (dec n @ r) = (n, r)"
proof -
  obtain d t where d: "dec n = hex_digit d # t" "d < 10" "d = 0 \<longrightarrow> n = 0 \<and> t = []" using dec_head by blast
  note p = hex_digit_plain [OF d(2)]
  show ?thesis
  proof (cases "d = 0")
    case True
    then have "t = []" "n = 0" "hex_digit d = CHR ''0''" using d p by auto
    moreover have "\<not> char_digit c < 8" if "r = c # s" for c s using assms(1) that by (simp add: no_digit_def)
    moreover have "char_digit (CHR ''0'') = 0" by code_simp
    ultimately show ?thesis using d(1) assms(2)
      by (cases r; cases "tl r") auto
  next
    case False
    then have "hex_digit d \<noteq> CHR ''0''" using p by blast
    then have "scan_prefixed (hex_digit d # u) = scan 10 0 (hex_digit d # u)" for u
      by (cases u; cases "tl u") simp_all
    then show ?thesis using d(1) scan_dec_number [OF assms(1), of n] by simp
  qed
qed

lemma strtoul_dec:
  assumes "n < 2 ^ 64" "no_digit r" "\<forall>c s. r = c # s \<longrightarrow> c \<noteq> CHR ''x'' \<and> c \<noteq> CHR ''X''"
  shows "strtoul (dec n @ r) = (of_nat n, False)"
proof -
  obtain d t where d: "dec n = hex_digit d # t" "d < 10" using dec_head by blast
  have "dropWhile isspace (dec n @ r) = dec n @ r" "signed_text (dec n @ r) = (False, dec n @ r)"
    using d hex_digit_plain [OF d(2)] by simp_all
  then show ?thesis using assms scan_prefixed_dec [OF assms(2,3), of n] by (simp add: strtoul_def Let_def)
qed

lemma strchr_first: "c \<notin> set a \<Longrightarrow> strchr c (a @ c # b) = Some (a, b)"
  by (induction a) (auto simp: strchr_def)

lemma dec_no_char: "c \<notin> hex_digit ` {..<10} \<Longrightarrow> c \<notin> set (dec n)"
  using dec_digits [of n] by auto

end
