(* ===== verification/Progress.thy ===== *)
theory Progress
  imports Daemon
begin

text \<open>
  Iterations of the event loop that always complete: datagrams on the multicast socket,
  commands, new connections and netlink messages never run into undefined behaviour, and leave
  the packet cache alone. They end the process only on an error of \<open>epoll\<close> or when a call for a
  connection fails. The house keeping that follows, and the shutdown, free requests of the cache,
  which is undefined for one that lost its options when memory was short (\<open>whole\<close>). Only the two
  handlers that answer DHCP requests add to the cache.
\<close>

fun harmless :: "event \<Rightarrow> bool" where
  "harmless Server_in = False"
| "harmless Dhcp_in = False"
| "harmless _ = True"

definition due :: "daemon \<Rightarrow> bool" where
  "due s \<longleftrightarrow> s_timeout_time s \<le> shd (w_times (s_config s))"

text \<open>The variables of the loop that its handlers leave alone.\<close>

definition same_loop :: "daemon \<Rightarrow> daemon \<Rightarrow> bool" where
  "same_loop s s' \<longleftrightarrow> s_timeout_time s' = s_timeout_time s \<and> s_learning_phase s' = s_learning_phase s \<and>
     s_loop_timeout s' = s_loop_timeout s \<and> s_config_loop_timeout s' = s_config_loop_timeout s"

lemma same_loop_refl [simp]: "same_loop s s"
  by (simp add: same_loop_def)

lemma same_loop_trans: "same_loop r s \<Longrightarrow> same_loop s t \<Longrightarrow> same_loop r t"
  by (simp add: same_loop_def)

definition same_cache :: "daemon \<Rightarrow> daemon \<Rightarrow> bool" where
  "same_cache s s' \<longleftrightarrow> c_dhcp_packet_cache (s_config s') = c_dhcp_packet_cache (s_config s)"

lemma same_cache_trans: "same_cache r s \<Longrightarrow> same_cache s t \<Longrightarrow> same_cache r t"
  by (simp add: same_cache_def)

lemma read_loop_defined:
  assumes "daemon_ok w" "length buffer = BUFSIZE"
    "\<And>d b n u. d \<in> set queue \<Longrightarrow> length b = BUFSIZE \<Longrightarrow> 0 \<le> n \<Longrightarrow> n \<le> int (length b) \<Longrightarrow> daemon_ok u \<Longrightarrow>
      ok (process d b n u) (\<lambda>(r, v). daemon_ok v \<and> c_dhcp_packet_cache v = c_dhcp_packet_cache u)"
  shows "\<exists>q n b v. read_loop bytes process queue (need, buffer, w) = Some (q, n, b, v) \<and>
    c_dhcp_packet_cache v = c_dhcp_packet_cache w"
  using assms
proof (induction queue arbitrary: need buffer w)
  case (Cons d queue)
  obtain len b where b: "receive (bytes d) buffer = (len, b)" by (cases "receive (bytes d) buffer")
  note l = receive_length [OF b Cons.prems(2)]
  obtain r v where rv: "process d b len w = Some (r, v)" "daemon_ok v" "c_dhcp_packet_cache v = c_dhcp_packet_cache w"
    using Cons.prems(3) [of d, OF _ l Cons.prems(1)] by (auto simp: ok_iff)
  have "\<exists>q m c u. read_loop bytes process queue (need \<or> r \<noteq> 0, b, v) = Some (q, m, c, u) \<and>
      c_dhcp_packet_cache u = c_dhcp_packet_cache v"
    by (rule Cons.IH [OF rv(2) l(1) Cons.prems(3)]) simp_all
  then show ?case using b rv(1,3) by auto
qed simp

lemma process_mcast_defined:
  assumes "length (snd d) = 16" "length b = BUFSIZE" "0 \<le> n" "n \<le> int (length b)" "daemon_ok u"
  shows "ok (process_mcast d b n u) (\<lambda>(r, v). daemon_ok v \<and> c_dhcp_packet_cache v = c_dhcp_packet_cache u)"
proof -
  let ?u = "statistics_record STAT_MCAST_RECV_PKG 1 (statistics_record STAT_MCAST_RECV_BYTE n u)"
  have "daemon_ok ?u" using record_advances assms(5) by blast
  then have "ok (ddhcp_block_process b n (snd d) ?u) (\<lambda>_. True)"
    using ddhcp_block_process_ok [OF daemon_okD(1), of ?u b n "snd d"] assms
    by (auto simp: BUFSIZE_def elim!: ok_mono)
  then obtain v where v: "ddhcp_block_process b n (snd d) ?u = Some v" by (auto simp: ok_iff)
  then have "process_mcast d b n u = Some (0, v)" by (simp add: process_mcast_def)
  moreover have "c_dhcp_packet_cache v = c_dhcp_packet_cache u"
    using ddhcp_block_process_frame [OF v] by (simp add: statistics_record_def)
  ultimately show ?thesis using process_mcast_advances [OF assms] by (simp add: advances_def)
qed

text \<open>No call to the kernel fails in this state or later.\<close>

abbreviation obliged :: "daemon \<Rightarrow> bool" where
  "obliged s \<equiv> obliging (so_kernel (s_sockets s))"

definition may_end :: "bool \<Rightarrow> daemon \<Rightarrow> int \<Rightarrow> bool" where
  "may_end failure s code \<longleftrightarrow> failure \<and> code = 1 \<or> \<not> obliged s \<and> code \<in> {1, 2}"

definition event_done :: "event \<Rightarrow> daemon \<Rightarrow> int + (bool \<times> daemon) \<Rightarrow> bool" where
  "event_done e s r = (case r of
       Inl code \<Rightarrow> may_end (e = Failure) s code
     | Inr (_, s') \<Rightarrow> e \<noteq> Failure \<and> same_loop s s' \<and> same_cache s s' \<and> (obliged s \<longrightarrow> obliged s'))"

lemma end_connection_done:
  assumes "loop_ok base w0 s" "connection fd (s_sockets s)"
  shows "event_done (Hangup fd) s (case end_connection fd (s_sockets s) of
      Inl code \<Rightarrow> Inl code | Inr so \<Rightarrow> Inr (False, s\<lparr>s_sockets := so\<rparr>))"
  using end_connection_ok [OF loop_ok_sockets [OF assms(1)] assms(2)]
  by (auto simp: ended_def event_done_def may_end_def sockets_step_def same_loop_def same_cache_def split: sum.split)

lemma handle_event_defined:
  assumes ok: "loop_ok base w0 s" and e: "harmless e"
  shows "ok (handle_event e s) (event_done e s)"
proof (cases e)
  case Multicast_in
  have "\<exists>q n b v. read_loop fst process_mcast (s_mcast s) (False, s_buffer s, s_config s) = Some (q, n, b, v) \<and>
      c_dhcp_packet_cache v = c_dhcp_packet_cache (s_config s)"
    using ok by (intro read_loop_defined process_mcast_defined) (auto simp: loop_ok_def)
  then show ?thesis using Multicast_in
    by (auto simp: hdl_ddhcp_block_def same_loop_def same_cache_def event_done_def)
next
  case (Control_in fd data)
  obtain len b where b: "(case data of None \<Rightarrow> (-1, s_buffer s) | Some bs \<Rightarrow> receive bs (s_buffer s)) = (len, b)"
    by fastforce
  have l: "length b = BUFSIZE" "len \<le> int (length b)"
    using b ok receive_length [of _ "s_buffer s" len b] by (auto simp: loop_ok_def split: option.split_asm)
  then have "b \<noteq> []" by (auto simp: BUFSIZE_def)
  moreover have "wf_state (s_config s)" "num_blocks (s_config s) < 2 ^ 31"
    using ok few_blocks by (auto simp: loop_ok_def daemon_ok_def)
  ultimately obtain r w where "handle_command b len (s_config s) = Some (r, w)"
    "c_dhcp_packet_cache w = c_dhcp_packet_cache (s_config s)"
    using handle_command_ok [of "s_config s" b len] l(2) by (auto simp: ok_iff commanded_def)
  then show ?thesis using Control_in b end_connection_done [OF ok, of fd]
    by (auto simp: hdl_ctrl_cmd_def same_loop_def same_cache_def event_done_def split: sum.splits)
next
  case Control_new
  obtain r where r: "hdl_ctrl_new (s_sockets s) = Some r" "accepted base (s_sockets s) r"
    using ctrl_new_ok [OF loop_ok_sockets [OF ok]] unfolding ok_iff by blast
  then show ?thesis using Control_new
    by (cases r) (auto simp: andthen_def accepted_def event_done_def may_end_def sockets_step_def same_loop_def same_cache_def)
next
  case (Hangup fd)
  then show ?thesis using end_connection_done [OF ok, of fd] by (auto simp: event_done_def same_loop_def same_cache_def)
qed (use e in \<open>auto simp: event_done_def may_end_def same_cache_def\<close>)

definition events_done :: "int set \<Rightarrow> world \<Rightarrow> event list \<Rightarrow> bool \<Rightarrow> daemon \<Rightarrow> int + (bool \<times> daemon) \<Rightarrow> bool" where
  "events_done base w0 es n s r = (case r of
       Inl code \<Rightarrow> may_end (Failure \<in> set es) s code
     | Inr (m, s') \<Rightarrow> Failure \<notin> set es \<and> (n \<longrightarrow> m) \<and> same_loop s s' \<and> same_cache s s' \<and> loop_ok base w0 s')"

lemma handle_events_defined:
  assumes "loop_ok base w0 s" "\<forall>e \<in> set es. harmless e"
  shows "ok (handle_events es (n, s)) (events_done base w0 es n s)"
  using assms
proof (induction es arbitrary: n s)
  case (Cons e es)
  obtain r where r: "handle_event e s = Some r" "event_done e s r"
    using handle_event_defined [OF Cons.prems(1), of e] Cons.prems(2) by (auto simp: ok_iff)
  show ?case
  proof (cases r)
    case (Inl code)
    then show ?thesis using r by (auto simp: event_done_def events_done_def may_end_def)
  next
    case (Inr q)
    obtain m s1 where q: "q = (m, s1)" by (cases q)
    have s1: "loop_ok base w0 s1" "same_loop s s1" "e \<noteq> Failure" "obliged s \<longrightarrow> obliged s1" "same_cache s s1"
      using handle_event_ok [OF Cons.prems(1), of e m s1] r Inr q by (auto simp: event_done_def)
    have "events_done base w0 es (n \<or> m) s1 r' \<Longrightarrow> events_done base w0 (e # es) n s r'" for r'
      using s1(2-4) same_loop_trans [OF s1(2)] same_cache_trans [OF s1(5)] by (auto simp: events_done_def may_end_def split: sum.splits)
    with Cons.IH [OF s1(1), of "n \<or> m"] Cons.prems(2)
    have "ok (handle_events es (n \<or> m, s1)) (events_done base w0 (e # es) n s)" by (auto elim!: ok_mono)
    then show ?thesis using r(1) Inr q by simp
  qed
qed (simp add: events_done_def same_cache_def)

lemma check_time_loop:
  assumes "check_time s = (n, u)"
  shows "n = due s" "s_learning_phase u = (s_learning_phase s \<and> \<not> due s)" "s_loop_timeout u = s_config_loop_timeout s"
    "s_timeout_time u = (if due s
       then shd (w_times (s_config s)) + uint (drop_bit 1 (c_tentative_timeout (s_config s))) else s_timeout_time s)"
    "s_sockets u = s_sockets s" "same_cache s u"
  using assms by (auto simp: same_cache_def check_time_def time_null_def due_def Let_def split: if_split_asm)

text \<open>
  What one iteration does to the variables of the loop; when it is time for house keeping
  it has been done at the end. Nothing new is in the cache.
\<close>

definition turned :: "int set \<Rightarrow> world \<Rightarrow> event list \<Rightarrow> daemon \<Rightarrow> int + daemon \<Rightarrow> bool" where
  "turned base w0 es s r = (case r of
       Inl code \<Rightarrow> may_end (Failure \<in> set es) s code
     | Inr s' \<Rightarrow> Failure \<notin> set es \<and>
         set (c_dhcp_packet_cache (s_config s')) \<subseteq> set (c_dhcp_packet_cache (s_config s)) \<and> s_learning_phase s' = (s_learning_phase s \<and> \<not> due s) \<and>
         s_loop_timeout s' = s_config_loop_timeout s \<and>
         s_timeout_time s' = (if due s
           then shd (w_times (s_config s)) + uint (drop_bit 1 (c_tentative_timeout (s_config s)))
           else s_timeout_time s) \<and>
         (due s \<longrightarrow> (\<exists>v. loop_ok base w0 v \<and> house_keeping (s_config v) = Some (s_config s'))))"

lemma loop_iteration_defined:
  assumes ok: "loop_ok base w0 s" "whole_cache (s_config s)" and es: "\<forall>e \<in> set es. harmless e"
  shows "ok (loop_iteration es s) (turned base w0 es s)"
proof -
  obtain n u where u: "check_time s = (n, u)" by fastforce
  note ct = check_time_loop [OF u]
  have oku: "loop_ok base w0 u" using ok(1) u by (rule check_time_ok)
  obtain r where r: "handle_events es (n, u) = Some r" "events_done base w0 es n u r"
    using handle_events_defined [OF oku es, of n] by (auto simp: ok_iff)
  show ?thesis
  proof (cases r)
    case (Inl code)
    then show ?thesis using u r ct(5) by (simp add: loop_iteration_def turned_def events_done_def may_end_def)
  next
    case (Inr q)
    obtain m v where q: "q = (m, v)" by (cases q)
    have v: "same_loop u v" "loop_ok base w0 v" "Failure \<notin> set es" "n \<longrightarrow> m"
      using r(2) Inr q by (simp_all add: events_done_def)
    have "same_cache u v" using r(2) Inr q by (simp add: events_done_def)
    then have c: "c_dhcp_packet_cache (s_config v) = c_dhcp_packet_cache (s_config s)" using ct(6) by (simp add: same_cache_def)
    then have "whole_cache (s_config v)" using ok(2) by (simp add: whole_cache_def)
    then obtain w where w: "house_keeping (s_config v) = Some w"
      "set (c_dhcp_packet_cache w) \<subseteq> set (c_dhcp_packet_cache (s_config s))"
      using house_keeping_ok [of "s_config v"] v(2) c by (auto simp: loop_ok_def daemon_ok_def ok_iff)
    show ?thesis using u r(1) Inr q v w ct c by (auto simp: loop_iteration_def turned_def same_loop_def)
  qed
qed

subsection \<open>Shutdown\<close>

lemma free_option_store_empty [simp]: "free_option_store os = []"
  by (induction os) simp_all

text \<open>Nothing of the state is left but descriptors: the memory is freed and the control path removed.\<close>

definition shut_down :: "daemon \<Rightarrow> daemon \<Rightarrow> bool" where
  "shut_down s s' \<longleftrightarrow> c_blocks (s_config s') = [] \<and> c_claiming_blocks (s_config s') = [] \<and>
     c_options (s_config s') = [] \<and> c_dhcp_packet_cache (s_config s') = [] \<and>
     (\<exists>k. s_sockets s' = (s_sockets s)\<lparr>so_kernel := k\<rparr> \<and>
        set (k_open k) \<subseteq> set (k_open (so_kernel (s_sockets s))) \<and> k_stray k = [] \<and>
        last (k_set k) = (-1, Unlink (so_control_path (s_sockets s))))"

lemma close_sockets_ok:
  assumes "sockets_ok base so"
  shows "\<exists>k. close_sockets so = so\<lparr>so_kernel := k\<rparr> \<and> set (k_open k) \<subseteq> set (k_open (so_kernel so)) \<and>
    k_stray k = [] \<and> last (k_set k) = (-1, Unlink (so_control_path so))"
proof (cases "find (\<lambda>d. e_epollin d = Netlink_in_hdl) (so_data so)")
  case None
  then show ?thesis using assms by (auto simp: close_sockets_def Let_def sockets_ok_def fds_ok_def)
next
  case (Some d)
  then have "d \<in> set (so_data so)" by (auto simp: find_Some_iff)
  then have "e_fd d \<in> set (k_open (so_kernel so))" using assms by (auto simp: sockets_ok_def fds_ok_def)
  then show ?thesis using Some assms set_remove1_subset
    by (fastforce simp: close_sockets_def netlink_close_def close_fd_def Let_def sockets_ok_def fds_ok_def)
qed

text \<open>The shutdown frees every request of the cache, which is possible exactly when all are whole.\<close>

lemma shutdown_ok:
  assumes ok: "loop_ok base w0 s"
  shows "case shutdown s of None \<Rightarrow> \<not> whole_cache (s_config s) | Some s' \<Rightarrow> whole_cache (s_config s) \<and> shut_down s s'"
proof -
  have "wf_state (s_config s)" using ok by (simp add: loop_ok_def daemon_ok_def)
  from ddhcp_block_free_ok [OF this] obtain w where
    w: "ddhcp_block_free (s_config s) = Some w" "c_blocks w = []" "c_claiming_blocks w = []" by (auto simp: ok_iff)
  have "whole_cache w = whole_cache (s_config s)" using w(1) by (auto simp: whole_cache_def dest!: frame)
  then show ?thesis
    using w close_sockets_ok [OF loop_ok_sockets [OF ok]]
    by (simp add: shutdown_def shut_down_def dhcp_packet_list_free_eq whole_cache_def)
qed

lemma shutdown_Some: "loop_ok base w0 s \<Longrightarrow> shutdown s = Some s' \<Longrightarrow> shut_down s s'"
  using shutdown_ok [of base w0 s] by simp

lemma shutdown_defined: "loop_ok base w0 s \<Longrightarrow> whole_cache (s_config s) \<Longrightarrow> ok (shutdown s) (shut_down s)"
  using shutdown_ok [of base w0 s] by (cases "shutdown s") simp_all

end
