(* ===== verification/Config.thy ===== *)
theory Config
  imports Numbers Progress
begin

text \<open>
  The command line and the start of main.c. \<open>getopt\<close> belongs to the C library: its results,
  the option characters with their arguments in order, are the input. \<open>Inl\<close> is the exit
  code of a call of \<open>exit\<close>, \<open>abort\<close> or a return; what is printed before is left out.
  \<open>None\<close> is undefined behaviour. \<open>Program\<close> has the rest of \<open>main\<close>.
\<close>

subsection \<open>The local variables of main\<close>

record settings =
  g_config :: world
  g_interface :: string
  g_interface_client :: string
  g_control_path :: string
  g_daemon_running :: nat
  g_show_usage :: bool
  g_learning_phase :: bool

text \<open>The values before the command line is read; fields not assigned keep what the stack holds.\<close>

definition initial_settings :: "world \<Rightarrow> settings" where
  "initial_settings w = \<lparr>g_config = w\<lparr>c_block_size := 32, c_claiming_blocks_amount := 0, c_prefix := [10, 0, 0, 0],
       c_prefix_len := 24, c_spare_leases_needed := 2, c_block_timeout := 60, c_block_refresh_factor := 4,
       c_block_needless_timeout := 300, c_tentative_timeout := 15, c_disable_dhcp := 0, c_hook_command := None,
       c_statistics := (\<lambda>_. 0), c_options := [], c_claiming_blocks := [], c_dhcp_packet_cache := []\<rparr>,
     g_interface = ''server0'', g_interface_client = ''client0'', g_control_path = ''/tmp/ddhcpd_ctl'',
     g_daemon_running = 2, g_show_usage = False, g_learning_phase = True\<rparr>"

subsection \<open>Options of the DHCP store\<close>

text \<open>The payload: as many numbers as the length says, separated by dots.\<close>

fun read_payload :: "nat \<Rightarrow> string \<Rightarrow> u8 list option" where
  "read_payload 0 s = Some []"
| "read_payload (Suc 0) s = Some [ucast (fst (strtoul s))]"
| "read_payload (Suc (Suc n)) s = (case strchr CHR ''.'' s of
     None \<Rightarrow> None
   | Some (number, rest) \<Rightarrow> map_option ((#) (ucast (fst (strtoul number)))) (read_payload (Suc n) rest))"

definition parse_option :: "string \<Rightarrow> world \<Rightarrow> ((int + dhcp_option) \<times> world) option" where
  "parse_option optarg w = (case strchr CHR '':'' optarg of
     None \<Rightarrow> Some (Inl 1, w)
   | Some (code_s, len_s) \<Rightarrow> (case strchr CHR '':'' len_s of
       None \<Rightarrow> Some (Inl 1, w)
     | Some (len_s, payload_s) \<Rightarrow> do {
         len \<leftarrow> atoi len_s;
         code \<leftarrow> atoi code_s;
         let len = (word_of_int len :: u8);
         let (mem, w) = calloc w;
         if \<not> mem then Some (Inl 1, w)
         else do {
           let (mem, w) = calloc w;
           if \<not> mem then Some (Inl 1, w)
           else Some (case read_payload (unat len) payload_s of
               None \<Rightarrow> Inl 1
             | Some payload \<Rightarrow> Inr \<lparr>o_code = word_of_int code, o_len = len, o_payload = payload\<rparr>, w) } }))"

subsection \<open>The command line\<close>

abbreviation set_config :: "(world \<Rightarrow> world) \<Rightarrow> settings \<Rightarrow> settings" where
  "set_config f g \<equiv> g\<lparr>g_config := f (g_config g)\<rparr>"

definition read_network :: "string \<Rightarrow> settings \<Rightarrow> (int + settings) option" where
  "read_network optarg g = (case strchr CHR ''/'' optarg of
     None \<Rightarrow> Some (Inl 1)
   | Some (network, cidr) \<Rightarrow>
       if cidr = [] then Some (Inl 1)
       else do {
         let g = (case inet_aton network of None \<Rightarrow> g | Some a \<Rightarrow> set_config (c_prefix_update (\<lambda>_. a)) g);
         n \<leftarrow> atoi cidr;
         let len = (word_of_int n :: u8);
         if len < 8 then Some (Inl 1) else Some (Inr (set_config (c_prefix_len_update (\<lambda>_. len)) g)) })"

text \<open>One option; \<open>errno\<close> says whether an error number is left over from an earlier call.\<close>

definition handle_option :: "bool \<Rightarrow> char \<times> string \<Rightarrow> settings \<Rightarrow> (int + settings) option" where
  "handle_option errno opt g = (let (c, optarg) = opt in
     if c = CHR ''i'' then Some (Inr (g\<lparr>g_interface := optarg\<rparr>))
     else if c = CHR ''c'' then Some (Inr (g\<lparr>g_interface_client := optarg\<rparr>))
     else if c = CHR ''b'' then do {
       n \<leftarrow> atoi optarg;
       if 0 \<le> n \<and> n < 31 then Some (Inr (set_config (c_block_size_update (\<lambda>_. word_of_int (2 ^ nat n))) g)) else None }
     else if c = CHR ''B'' then
       let (block_timeout, err) = strtoul optarg in
       if block_timeout = 0 \<or> block_timeout = ULONG_MAX \<and> (err \<or> errno) then Some (Inl 1)
       else Some (Inr (set_config (c_block_timeout_update (\<lambda>_. ucast block_timeout)) g))
     else if c = CHR ''t'' then do {
       n \<leftarrow> atoi optarg;
       let t = (word_of_int n :: u16);
       if t < 2 then Some (Inl 1) else Some (Inr (set_config (c_tentative_timeout_update (\<lambda>_. t)) g)) }
     else if c = CHR ''d'' then Some (Inr (g\<lparr>g_daemon_running := 1\<rparr>))
     else if c = CHR ''D'' then Some (Inr (g\<lparr>g_daemon_running := 2\<rparr>))
     else if c = CHR ''h'' then Some (Inr (g\<lparr>g_show_usage := True\<rparr>))
     else if c = CHR ''L'' then Some (Inr (g\<lparr>g_learning_phase := False\<rparr>))
     else if c = CHR ''V'' then Some (Inl 0)
     else if c = CHR ''N'' then read_network optarg g
     else if c = CHR ''S'' then Some (Inr (set_config (c_disable_dhcp_update (\<lambda>_. 1)) g))
     else if c = CHR ''o'' then do {
       (r, w) \<leftarrow> parse_option optarg (g_config g);
       Some (case r of
           Inl code \<Rightarrow> Inl code
         | Inr x \<Rightarrow> Inr (g\<lparr>g_config := w\<lparr>c_options := set_option_in_store (c_options w) x\<rparr>\<rparr>)) }
     else if c = CHR ''s'' then do {
       n \<leftarrow> atoi optarg;
       Some (Inr (set_config (c_spare_leases_needed_update (\<lambda>_. word_of_int n)) g)) }
     else if c = CHR ''C'' then Some (Inr (g\<lparr>g_control_path := optarg\<rparr>))
     else if c = CHR ''H'' then Some (Inr (set_config (c_hook_command_update (\<lambda>_. Some optarg)) g))
     else if c = CHR ''v'' then
       Some (Inr (if w_log_level (g_config g) < 4 then set_config (w_log_level_update (\<lambda>l. l + 1)) g else g))
     else if c = CHR ''n'' then do {
       n \<leftarrow> atoi optarg;
       Some (Inr (set_config (c_block_needless_timeout_update (\<lambda>_. word_of_int n)) g)) }
     else Some (Inr (g\<lparr>g_show_usage := True\<rparr>)))"

fun handle_options :: "bool \<Rightarrow> (char \<times> string) list \<Rightarrow> settings \<Rightarrow> (int + settings) option" where
  "handle_options errno [] g = Some (Inr g)"
| "handle_options errno (opt # opts) g = do {
     r \<leftarrow> handle_option errno opt g;
     case r of Inl code \<Rightarrow> Some (Inl code) | Inr g \<Rightarrow> handle_options errno opts g }"

text \<open>
  The logarithm is rounded up; of zero it is infinite. The exponent is computed from unsigned
  numbers, and a power that is no \<open>uint32_t\<close> must not be cast to it.
\<close>

fun ceil_log2 :: "nat \<Rightarrow> nat" where
  "ceil_log2 n = (if n \<le> 1 then 0 else Suc (ceil_log2 ((n + 1) div 2)))"

declare ceil_log2.simps [simp del]

definition number_of_blocks :: "u8 \<Rightarrow> u8 \<Rightarrow> u32 option" where
  "number_of_blocks prefix_len block_size =
     (if block_size = 0 then None
      else let e = uint (32 - ucast prefix_len :: u32) - int (ceil_log2 (unat block_size))
        in if e \<ge> 32 then None else Some (if e < 0 then 0 else word_of_int (2 ^ nat e)))"

definition configure :: "bool \<Rightarrow> (char \<times> string) list \<Rightarrow> world \<Rightarrow> (int + settings) option" where
  "configure errno opts w = do {
     r \<leftarrow> handle_options errno opts (initial_settings w);
     case r of
       Inl code \<Rightarrow> Some (Inl code)
     | Inr g \<Rightarrow>
         if g_show_usage g then Some (Inl 0)
         else do {
           n \<leftarrow> number_of_blocks (c_prefix_len (g_config g)) (c_block_size (g_config g));
           let g = set_config (c_number_of_blocks_update (\<lambda>_. n)) g;
           Some (Inr (if c_disable_dhcp (g_config g) \<noteq> 0
             then set_config (c_spare_leases_needed_update (\<lambda>_. 0)) g else g)) } }"

text \<open>
  The blocks, the option store, the receive buffer with whatever \<open>malloc\<close> returns, the
  sockets, the buffer for events and the loop. The result of \<open>ddhcp_block_init\<close> is not
  looked at. An abort is \<open>SIGABRT\<close>.
\<close>

definition startup :: "u8 list \<Rightarrow> kernel \<Rightarrow> settings \<Rightarrow> (int + daemon) option" where
  "startup memory k g = do {
     let (_, w) = ddhcp_block_init (g_config g);
     (r, w) \<leftarrow> dhcp_options_init w;
     if r \<noteq> 0 then Some (Inl SIGABRT)
     else do {
       let (mem, w) = calloc w;
       if \<not> mem then Some (Inl SIGABRT)
       else andthen (open_sockets (g_interface g) (g_interface_client g) (g_control_path g) (c_disable_dhcp w) k)
         (\<lambda>so. let (events, w) = calloc w
           in if \<not> events then Some (Inl SIGABRT)
              else Some (Inr (loop_start (g_learning_phase g) memory so w))) } }"

subsection \<open>What every command line keeps\<close>

definition settings_ok :: "node_id \<Rightarrow> settings \<Rightarrow> bool" where
  "settings_ok node g \<longleftrightarrow> (let w = g_config g in
     c_node_id w = node \<and> length (c_prefix w) = 4 \<and> 8 \<le> c_prefix_len w \<and> c_block_refresh_factor w = 4 \<and>
     (\<exists>n < 31. c_block_size w = word_of_int (2 ^ n)) \<and> 2 \<le> c_tentative_timeout w \<and> wf_store (c_options w) \<and>
     c_claiming_blocks w = [] \<and> c_claiming_blocks_amount w = 0 \<and> c_dhcp_packet_cache w = [])"

lemma initial_settings_ok: "settings_ok (c_node_id w) (initial_settings w)"
proof -
  have "\<exists>n < 31. (32 :: u8) = word_of_int (2 ^ n)" by (rule exI [of _ 5]) simp
  then show ?thesis by (simp add: settings_ok_def initial_settings_def wf_store_def valid_codes_def)
qed

lemma read_payload_length: "read_payload n s = Some bs \<Longrightarrow> length bs = n"
  by (induction n s arbitrary: bs rule: read_payload.induct) (auto split: option.split_asm prod.split_asm)

lemma parse_option_wf:
  assumes p: "parse_option s w = Some (r, v)"
  shows "v = w\<lparr>w_allocs := w_allocs v\<rparr> \<and> (\<forall>x. r = Inr x \<longrightarrow> wf_option x)"
proof (cases "strchr CHR '':'' s")
  case None
  then show ?thesis using p by (auto simp: parse_option_def)
next
  case (Some cl)
  obtain code_s rest where s: "strchr CHR '':'' s = Some (code_s, rest)" using Some by (cases cl) simp
  show ?thesis
  proof (cases "strchr CHR '':'' rest")
    case None
    then show ?thesis using p s by (auto simp: parse_option_def)
  next
    case (Some lp)
    obtain len_s payload_s where rest: "strchr CHR '':'' rest = Some (len_s, payload_s)" using Some by (cases lp) simp
    obtain l c where lc: "atoi len_s = Some l" "atoi code_s = Some c"
      using p s rest by (auto simp: parse_option_def bind_eq_Some_conv)
    then show ?thesis
      using p s rest
      by (cases "read_payload (unat (word_of_int l :: u8)) payload_s")
        (auto simp: parse_option_def calloc_def wf_option_def Let_def split: if_split_asm dest: read_payload_length)
  qed
qed

text \<open>A change of the fields the invariant does not mention.\<close>

lemma settings_ok_set [simp]:
  "settings_ok node (g\<lparr>g_interface := x\<rparr>) = settings_ok node g"
  "settings_ok node (g\<lparr>g_interface_client := x\<rparr>) = settings_ok node g"
  "settings_ok node (g\<lparr>g_control_path := x\<rparr>) = settings_ok node g"
  "settings_ok node (g\<lparr>g_daemon_running := n\<rparr>) = settings_ok node g"
  "settings_ok node (g\<lparr>g_show_usage := b\<rparr>) = settings_ok node g"
  "settings_ok node (g\<lparr>g_learning_phase := b\<rparr>) = settings_ok node g"
  "settings_ok node (set_config (c_block_timeout_update f1) g) = settings_ok node g"
  "settings_ok node (set_config (c_disable_dhcp_update f2) g) = settings_ok node g"
  "settings_ok node (set_config (c_spare_leases_needed_update f3) g) = settings_ok node g"
  "settings_ok node (set_config (c_hook_command_update f4) g) = settings_ok node g"
  "settings_ok node (set_config (w_log_level_update f5) g) = settings_ok node g"
  "settings_ok node (set_config (c_block_needless_timeout_update f6) g) = settings_ok node g"
  "settings_ok node (set_config (c_number_of_blocks_update f7) g) = settings_ok node g"
  by (simp_all add: settings_ok_def Let_def)

lemma read_network_ok:
  "read_network s g = Some (Inr g') \<Longrightarrow> settings_ok node g \<Longrightarrow> settings_ok node g'"
  using inet_aton_length
  by (auto simp: read_network_def bind_eq_Some_conv Let_def settings_ok_def not_less
      split: option.split_asm prod.split_asm if_split_asm)

lemma handle_option_ok:
  assumes ok: "settings_ok node g" and m: "handle_option errno opt g = Some (Inr g')"
  shows "settings_ok node g'"
proof -
  obtain c s where opt: "opt = (c, s)" by (cases opt)
  have size: "settings_ok node (set_config (c_block_size_update (\<lambda>_. word_of_int (2 ^ nat n))) g)"
    if "0 \<le> n" "n < 31" for n
  proof -
    have "nat n < 31" using that by linarith
    then show ?thesis using ok by (auto simp: settings_ok_def Let_def)
  qed
  have tent: "settings_ok node (set_config (c_tentative_timeout_update (\<lambda>_. t)) g)" if "\<not> t < 2" for t
    using that ok by (simp add: settings_ok_def Let_def not_less)
  have opts: "settings_ok node (g\<lparr>g_config := v\<lparr>c_options := set_option_in_store (c_options v) x\<rparr>\<rparr>)"
    if p: "parse_option s (g_config g) = Some (Inr x, v)" for x v
  proof -
    obtain as where "v = (g_config g)\<lparr>w_allocs := as\<rparr>" "wf_option x" using parse_option_wf [OF p] by metis
    then show ?thesis using ok wf_set_option_in_store by (simp add: settings_ok_def Let_def)
  qed
  have o: "settings_ok node g'" if o: "c = CHR ''o''"
  proof -
    obtain r v where r: "parse_option s (g_config g) = Some (r, v)"
      using m opt o by (auto simp: handle_option_def bind_eq_Some_conv)
    with m opt o opts show ?thesis by (cases r) (auto simp: handle_option_def)
  qed
  show ?thesis
  proof (cases "c = CHR ''o''")
    case False
    then show ?thesis
      using m ok size tent read_network_ok [of s g g' node]
      unfolding handle_option_def opt Let_def prod.case
      by (auto simp: bind_eq_Some_conv split: if_split_asm prod.split_asm)
  qed (rule o)
qed

lemma handle_options_ok:
  "handle_options errno opts g = Some (Inr g') \<Longrightarrow> settings_ok node g \<Longrightarrow> settings_ok node g'"
proof (induction opts arbitrary: g)
  case (Cons opt opts)
  obtain r where r: "handle_option errno opt g = Some r" using Cons.prems(1) by (auto simp: bind_eq_Some_conv)
  then show ?case using Cons handle_option_ok [of node g errno opt] by (cases r) auto
qed simp

subsection \<open>The number of blocks\<close>

lemma ceil_log2_power: "ceil_log2 (2 ^ n) = n"
proof (induction n)
  case 0
  then show ?case by (simp add: ceil_log2.simps)
next
  case (Suc n)
  have "(2 ^ Suc n + 1) div 2 = (2 ^ n :: nat)" by simp
  moreover have "\<not> 2 ^ Suc n \<le> (1 :: nat)" using one_less_power [of "2 :: nat" "Suc n"] by simp
  ultimately show ?case by (subst ceil_log2.simps) (simp only: if_False Suc)
qed

text \<open>The block sizes a shift and a cast to eight bits give.\<close>

lemma block_size_cases:
  assumes "n < 31" "(s :: u8) = word_of_int (2 ^ n)" "s \<noteq> 0"
  shows "n < 8 \<and> unat s = 2 ^ n"
proof -
  have "\<forall>n \<in> set [0..<31]. (word_of_int (2 ^ n) :: u8) \<noteq> 0 \<longrightarrow> n < 8 \<and> unat (word_of_int (2 ^ n) :: u8) = 2 ^ n"
    by code_simp
  then show ?thesis using assms by simp
qed

lemma number_of_blocks_eq:
  assumes "number_of_blocks len s = Some n" "unat s = 2 ^ k" "k < 8" "8 \<le> len"
  shows "unat len \<le> 32 \<and> unat n = (if unat len + k \<le> 32 then 2 ^ (32 - unat len - k) else 0)"
proof -
  have s: "s \<noteq> 0" using assms(2) by auto
  have l: "ceil_log2 (unat s) = k" using assms(2) ceil_log2_power by simp
  let ?e = "uint (32 - ucast len :: u32) - int k"
  have e: "?e < 32" "n = (if ?e < 0 then 0 else word_of_int (2 ^ nat ?e))"
    using assms(1) s l by (auto simp: number_of_blocks_def Let_def not_le split: if_split_asm)
  obtain m where m: "unat len = m" "m < 256" "8 \<le> m"
    using unat_u8_less [of len] assms(4) by (simp add: word_le_nat_alt)
  have "uint (ucast len :: u32) = uint len" by (rule uint_up_ucast) (simp add: is_up)
  also have "\<dots> = int m" by (simp only: uint_nat m)
  finally have up: "uint (ucast len :: u32) = int m" .
  have len: "m \<le> 32"
  proof (rule ccontr)
    assume "\<not> m \<le> 32"
    then have "uint (32 - ucast len :: u32) = 2 ^ 32 + 32 - int m"
      by (simp add: uint_sub_if' up)
    with e(1) assms(3) m(2) show False by simp
  qed
  then have u: "uint (32 - ucast len :: u32) = 32 - int m" by (simp add: uint_sub_if' up)
  have "unat n = 2 ^ (32 - m - k)" if fits: "m + k \<le> 32"
  proof -
    have "nat ?e = 32 - m - k" "\<not> ?e < 0" using fits u by linarith+
    then have "n = of_nat (2 ^ (32 - m - k))" using e(2) by simp
    moreover have "(2 :: nat) ^ (32 - m - k) < 2 ^ LENGTH(32)" using m(3) by (intro power_strict_increasing) simp_all
    ultimately show ?thesis by (simp only: of_nat_inverse [OF refl])
  qed
  moreover have "unat n = 0" if "\<not> m + k \<le> 32"
  proof -
    have "?e < 0" using that u by linarith
    then show ?thesis using e(2) by simp
  qed
  ultimately show ?thesis using len m(1) by simp
qed

text \<open>
  What a command line that is accepted leads to. The node identifier is not among the
  settings: it is whatever the memory of \<open>config\<close> held.
\<close>

definition configured :: "node_id \<Rightarrow> settings \<Rightarrow> bool" where
  "configured node g \<longleftrightarrow> (let w = g_config g in
     settings_ok node g \<and> unat (c_prefix_len w) \<le> 32 \<and> (c_disable_dhcp w \<noteq> 0 \<longrightarrow> c_spare_leases_needed w = 0) \<and>
     (\<exists>k < 8. unat (c_block_size w) = 2 ^ k \<and> num_blocks w * 2 ^ k =
       (if unat (c_prefix_len w) + k \<le> 32 then 2 ^ (32 - unat (c_prefix_len w)) else 0)))"

lemma configure_ok:
  assumes "configure errno opts w = Some (Inr g)"
  shows "configured (c_node_id w) g"
proof -
  obtain g1 n where g1: "handle_options errno opts (initial_settings w) = Some (Inr g1)"
    and n: "number_of_blocks (c_prefix_len (g_config g1)) (c_block_size (g_config g1)) = Some n"
    and g: "g = (let g = set_config (c_number_of_blocks_update (\<lambda>_. n)) g1 in
      if c_disable_dhcp (g_config g) \<noteq> 0 then set_config (c_spare_leases_needed_update (\<lambda>_. 0)) g else g)"
  proof -
    obtain r where r: "handle_options errno opts (initial_settings w) = Some r"
      using assms by (auto simp: configure_def bind_eq_Some_conv)
    with assms that show thesis
      by (cases r) (auto simp: configure_def bind_eq_Some_conv Let_def split: if_split_asm)
  qed
  have ok: "settings_ok (c_node_id w) g1" using handle_options_ok [OF g1 initial_settings_ok] .
  then obtain k where k: "k < 31" "c_block_size (g_config g1) = word_of_int (2 ^ k)" "8 \<le> c_prefix_len (g_config g1)"
    by (auto simp: settings_ok_def Let_def)
  have "c_block_size (g_config g1) \<noteq> 0" using n by (auto simp: number_of_blocks_def split: if_split_asm)
  from block_size_cases [OF k(1,2) this] have s: "k < 8" "unat (c_block_size (g_config g1)) = 2 ^ k" by simp_all
  note nb = number_of_blocks_eq [OF n s(2,1) k(3)]
  let ?l = "unat (c_prefix_len (g_config g1))"
  have "unat n * 2 ^ k = (if ?l + k \<le> 32 then 2 ^ (32 - ?l) else 0)"
    using nb by (simp flip: power_add)
  moreover have "settings_ok (c_node_id w) g" using ok g by (simp add: settings_ok_def Let_def)
  moreover have "c_prefix_len (g_config g) = c_prefix_len (g_config g1)" "c_block_size (g_config g) = c_block_size (g_config g1)"
    "c_number_of_blocks (g_config g) = n" "c_disable_dhcp (g_config g) \<noteq> 0 \<longrightarrow> c_spare_leases_needed (g_config g) = 0"
    using g by (simp_all add: Let_def)
  ultimately show ?thesis using nb s by (auto simp: configured_def Let_def)
qed

lemma configured_params:
  assumes "configured node g" "length node = 8"
  shows "wf_params (g_config g)" "countable_leases (g_config g)" "wf_store (c_options (g_config g))"
    "c_claiming_blocks (g_config g) = []" "c_claiming_blocks_amount (g_config g) = 0" "c_dhcp_packet_cache (g_config g) = []"
proof -
  let ?w = "g_config g"
  obtain k where k: "k < 8" "unat (c_block_size ?w) = 2 ^ k" "num_blocks ?w * 2 ^ k =
       (if unat (c_prefix_len ?w) + k \<le> 32 then 2 ^ (32 - unat (c_prefix_len ?w)) else 0)"
    and ok: "settings_ok node g"
    using assms(1) by (auto simp: configured_def Let_def)
  have "8 \<le> unat (c_prefix_len ?w)" using ok by (simp add: settings_ok_def Let_def word_le_nat_alt)
  then have "(2 :: nat) ^ (32 - unat (c_prefix_len ?w)) \<le> 2 ^ 24" by (intro power_increasing) simp_all
  then have small: "num_blocks ?w * unat (c_block_size ?w) \<le> 2 ^ 24" using k by (simp split: if_split_asm)
  moreover have "0 < c_block_size ?w" using k(2) by (simp add: word_less_nat_alt)
  ultimately show "wf_params ?w"
    using ok assms(2) by (simp add: wf_params_def settings_ok_def Let_def)
  show "countable_leases ?w" using small by (simp add: countable_leases_def)
  show "wf_store (c_options ?w)" "c_claiming_blocks ?w = []" "c_claiming_blocks_amount ?w = 0" "c_dhcp_packet_cache ?w = []"
    using ok by (simp_all add: settings_ok_def Let_def)
qed

subsection \<open>The start\<close>

text \<open>The defaults of the option store touch the store and the allocator only.\<close>

lemma init_option_frame:
  assumes "init_option c p w = (r, w')"
  shows "\<exists>as os. w' = w\<lparr>w_allocs := as, c_options := os\<rparr>"
proof (cases rule: init_option_cases [of w c p])
  case present
  then have "w' = w\<lparr>w_allocs := w_allocs w, c_options := c_options w\<rparr>" using assms by simp
  then show ?thesis by blast
next
  case (failed as)
  then have "w' = w\<lparr>w_allocs := as, c_options := c_options w\<rparr>" using assms by simp
  then show ?thesis by blast
next
  case stored
  have "(r, w') = (0, w\<lparr>w_allocs := stl (stl (w_allocs w)),
      c_options := set_option_in_store (c_options w) \<lparr>o_code = c, o_len = 4, o_payload = p\<rparr>\<rparr>)"
    using stored(2) assms by (rule trans [OF sym, rotated])
  then show ?thesis by blast
qed

lemma init_step_frame:
  "fold init_step ds (r, w) = (r', w') \<Longrightarrow> \<exists>as os. w' = w\<lparr>w_allocs := as, c_options := os\<rparr>"
proof (induction ds arbitrary: r w)
  case Nil
  then show ?case by (intro exI [of _ "w_allocs w"] exI [of _ "c_options w"]) simp
next
  case (Cons d ds)
  obtain c p where d: "d = (c, p)" by (cases d)
  show ?case
  proof (cases "r = 0")
    case True
    obtain r1 w1 where w1: "init_option c p w = (r1, w1)" by (cases "init_option c p w")
    have "fold init_step ds (r1, w1) = (r', w')" using Cons.prems w1 d True by (simp add: init_step_def)
    then obtain as os where "w' = w1\<lparr>w_allocs := as, c_options := os\<rparr>" using Cons.IH by blast
    moreover obtain bs ps where "w1 = w\<lparr>w_allocs := bs, c_options := ps\<rparr>" using init_option_frame [OF w1] by blast
    ultimately have "w' = w\<lparr>w_allocs := as, c_options := os\<rparr>" by simp
    then show ?thesis by blast
  next
    case False
    then show ?thesis using Cons.prems d by (intro Cons.IH [of r w]) (simp add: init_step_def)
  qed
qed

lemma options_init_ok:
  assumes "dhcp_options_init w = Some (r, w')" "wf_state w"
  shows "wf_state w' \<and> same_params w w' \<and> c_dhcp_packet_cache w' = c_dhcp_packet_cache w"
proof -
  have len: "length (c_prefix w) = 4" using inv_params [OF assms(2)] by (simp add: wf_params_def)
  then have f: "fold init_step (default_options (c_prefix_len w) (c_prefix w)) (0, w) = (r, w')"
    using assms(1) by (auto simp: dhcp_options_init_def)
  obtain as os where w': "w' = w\<lparr>w_allocs := as, c_options := os\<rparr>" using init_step_frame [OF f] by blast
  have "wf_store (c_options w')"
    using fold_init_step [OF f default_options_lengths [OF len]] assms(2) by (simp add: wf_state_def)
  then have "wf_state ((w\<lparr>w_allocs := as\<rparr>)\<lparr>c_options := os\<rparr>)"
    using assms(2) w' by (intro inv_options) simp_all
  then show ?thesis using w' by (simp add: same_params_def)
qed

lemma startup_ok:
  assumes conf: "configured node g" "length node = 8" and mem: "length memory = BUFSIZE"
    and blocks: "fst (ddhcp_block_init (g_config g)) = 0" and start: "startup memory k g = Some (Inr s)"
    and k: "started k" "nl_fresh k"
  shows "loop_ok (set (k_open k)) (g_config g) s"
proof -
  note c = configured_params [OF conf]
  obtain w1 where w1: "ddhcp_block_init (g_config g) = (0, w1)" using blocks by (cases "ddhcp_block_init (g_config g)") simp
  have init: "wf_state w1" "same_params (g_config g) w1" "c_dhcp_packet_cache w1 = []"
    using ddhcp_block_init_ok [OF c(1,4,5,3) w1] c(6) w1
    by (auto simp: ddhcp_block_init_def calloc_def time_null_def split: if_split_asm)
  obtain w2 so where w2: "dhcp_options_init w1 = Some (0, w2)"
    and so: "open_sockets (g_interface g) (g_interface_client g) (g_control_path g) (c_disable_dhcp w2) k = Some (Inr so)"
    and s: "s = loop_start (g_learning_phase g) memory so (w2\<lparr>w_allocs := stl (stl (w_allocs w2))\<rparr>)"
    using start w1 by (auto simp: startup_def bind_eq_Some_conv calloc_def Let_def andthen_def
        split: if_split_asm prod.split_asm option.split_asm sum.split_asm)
  let ?w = "w2\<lparr>w_allocs := stl (stl (w_allocs w2))\<rparr>"
  have o: "wf_state ?w" "same_params (g_config g) ?w" "c_dhcp_packet_cache ?w = []"
    using options_init_ok [OF w2 init(1)] init(2,3) same_params_trans [of "g_config g" w1 w2]
    by (simp_all add: same_params_def)
  have "countable_leases ?w" using c(2) countable_cong [OF o(2)] by simp
  moreover have "sockets_ok (set (k_open k)) so"
    by (rule opened_ok [of "g_interface g" "g_interface_client g" "g_control_path g" "c_disable_dhcp w2"])
      (use open_sockets_ok [OF k, of "g_interface g" "g_interface_client g" "g_control_path g" "c_disable_dhcp w2"]
        so in simp)
  ultimately have "loop_ok (set (k_open k)) ?w s"
    using loop_start_ok [OF o(1) _ o(3) mem, of "set (k_open k)" so "g_learning_phase g"] s by simp
  then show ?thesis using same_params_trans [OF o(2)] by (auto simp: loop_ok_def)
qed

subsection \<open>Options as text\<close>

text \<open>The argument the usage describes, for an option.\<close>

fun payload_text :: "u8 list \<Rightarrow> string" where
  "payload_text [] = []"
| "payload_text [b] = dec (unat b)"
| "payload_text (b # c # bs) = dec (unat b) @ CHR ''.'' # payload_text (c # bs)"

definition option_argument :: "dhcp_option \<Rightarrow> string" where
  "option_argument x = dec (unat (o_code x)) @ CHR '':'' # dec (unat (o_len x)) @ CHR '':'' # payload_text (o_payload x)"

lemma dec_punctuation: "CHR ''.'' \<notin> set (dec n)" "CHR '':'' \<notin> set (dec n)" "CHR ''/'' \<notin> set (dec n)"
  using dec_digits [of n] hex_digit_plain by fastforce+

lemma strtoul_byte: "ucast (fst (strtoul (dec (unat (b :: u8))))) = b"
proof -
  have "unat b < 2 ^ 64" using unat_u8_less [of b] by simp
  from strtoul_dec [OF this, of "[]"] have "fst (strtoul (dec (unat b))) = of_nat (unat b)"
    by (simp add: no_digit_def)
  also have "\<dots> = ucast b" by simp
  finally show ?thesis by (simp only:) (rule ucast_up_ucast_id, simp add: is_up)
qed

lemma read_payload_text: "read_payload (length bs) (payload_text bs) = Some bs"
proof (induction bs rule: payload_text.induct)
  case (3 b c bs)
  have "strchr CHR ''.'' (payload_text (b # c # bs)) = Some (dec (unat b), payload_text (c # bs))"
    by (simp add: strchr_first dec_punctuation)
  then show ?case using "3.IH" by (simp add: strtoul_byte)
qed (simp_all add: strtoul_byte)

lemma parse_option_text:
  assumes "wf_option x" "shd (w_allocs w)" "shd (stl (w_allocs w))"
  shows "parse_option (option_argument x) w = Some (Inr x, w\<lparr>w_allocs := stl (stl (w_allocs w))\<rparr>)"
proof -
  have a: "atoi (dec (unat (b :: u8))) = Some (uint b)" for b
    using atoi_dec [of "unat b" "[]"] unat_u8_less [of b] by (simp add: no_digit_def)
  have p: "strchr CHR '':'' (option_argument x) = Some (dec (unat (o_code x)), dec (unat (o_len x)) @ CHR '':'' # payload_text (o_payload x))"
    "strchr CHR '':'' (dec (unat (o_len x)) @ CHR '':'' # payload_text (o_payload x)) = Some (dec (unat (o_len x)), payload_text (o_payload x))"
    by (simp_all add: option_argument_def strchr_first dec_punctuation)
  have "read_payload (unat (o_len x)) (payload_text (o_payload x)) = Some (o_payload x)"
    using read_payload_text [of "o_payload x"] assms(1) by (simp add: wf_option_def)
  then show ?thesis using assms(2,3) by (simp add: parse_option_def p a calloc_def Let_def)
qed

end
