(* ===== verification/Control_Client.thy ===== *)
theory Control_Client
  imports Config
begin

text \<open>
  ddhcpctl.c: the program that turns its command line into one command for the control
  socket. The options \<open>getopt\<close> finds are the input, the message that is sent the result;
  \<open>Inl\<close> is the exit code of a call of \<open>exit\<close>. Connecting, sending and printing the answer
  follow in \<open>Session\<close>.
\<close>

record ctl =
  k_buffer :: "u8 list"
  k_msglen :: u32
  k_option :: "dhcp_option option"
  k_path :: string
  k_show_usage :: bool

definition BUFSIZE_MAX :: nat where "BUFSIZE_MAX = 1500"

text \<open>A message of one, two or more bytes at the start of the buffer; the rest of it stays.\<close>

definition put_message :: "u8 list \<Rightarrow> ctl \<Rightarrow> ctl" where
  "put_message bs k = k\<lparr>k_msglen := of_nat (length bs), k_buffer := bs @ drop (length bs) (k_buffer k)\<rparr>"

definition ctl_option :: "char \<times> string \<Rightarrow> ctl \<times> world \<Rightarrow> (int + (ctl \<times> world)) option" where
  "ctl_option opt s = (let (c, optarg) = opt; (k, w) = s in
     if c = CHR ''h'' then Some (Inr (k\<lparr>k_show_usage := True\<rparr>, w))
     else if c = CHR ''b'' then Some (Inr (put_message [DDHCPCTL_BLOCK_SHOW] k, w))
     else if c = CHR ''d'' then Some (Inr (put_message [DDHCPCTL_DHCP_OPTIONS_SHOW] k, w))
     else if c = CHR ''s'' then Some (Inr (put_message [DDHCPCTL_STATISTICS] k, w))
     else if c = CHR ''S'' then Some (Inr (put_message [DDHCPCTL_STATISTICS_RESET] k, w))
     else if c = CHR ''o'' then do {
       (r, w) \<leftarrow> parse_option optarg w;
       Some (case r of Inl code \<Rightarrow> Inl code | Inr x \<Rightarrow> Inr (k\<lparr>k_option := Some x\<rparr>, w)) }
     else if c = CHR ''l'' then
       Some (Inr (put_message ([DDHCPCTL_DHCP_OPTION_SET, 51, 4] @ put32 (ucast (fst (strtoul optarg)))) k, w))
     else if c = CHR ''r'' then do {
       n \<leftarrow> atoi optarg;
       Some (Inr (put_message [DDHCPCTL_DHCP_OPTION_REMOVE, word_of_int n] k, w)) }
     else if c = CHR ''C'' then Some (Inr (k\<lparr>k_path := optarg\<rparr>, w))
     else if c = CHR ''v'' then do {
       n \<leftarrow> atoi optarg;
       Some (Inr (put_message [DDHCPCTL_LOG_LEVEL_SET, word_of_int n] k, w)) }
     else if c = CHR ''V'' then Some (Inl 0)
     else Some (Inr (k\<lparr>k_show_usage := True\<rparr>, w)))"

fun ctl_options :: "(char \<times> string) list \<Rightarrow> ctl \<times> world \<Rightarrow> (int + (ctl \<times> world)) option" where
  "ctl_options [] s = Some (Inr s)"
| "ctl_options (opt # opts) s = do {
     r \<leftarrow> ctl_option opt s;
     case r of Inl code \<Rightarrow> Some (Inl code) | Inr s \<Rightarrow> ctl_options opts s }"

text \<open>An option given with \<open>-o\<close> replaces whatever message the other options asked for.\<close>

definition option_message :: "dhcp_option \<Rightarrow> u8 list" where
  "option_message x = [DDHCPCTL_DHCP_OPTION_SET, o_code x, o_len x] @ o_payload x"

text \<open>The part of \<open>main\<close> before the connection; the usage ends the program.\<close>

definition ctl_parse :: "bool \<Rightarrow> (char \<times> string) list \<Rightarrow> world \<Rightarrow> (int + ctl) option" where
  "ctl_parse no_arguments opts w = do {
     let (mem, w) = calloc w;
     if \<not> mem then Some (Inl 1)
     else do {
       r \<leftarrow> ctl_options opts (\<lparr>k_buffer = replicate BUFSIZE_MAX 0, k_msglen = 0, k_option = None,
         k_path = ''/tmp/ddhcpd_ctl'', k_show_usage = no_arguments\<rparr>, w);
       case r of
         Inl code \<Rightarrow> Some (Inl code)
       | Inr (k, w) \<Rightarrow>
           let k = (case k_option k of None \<Rightarrow> k | Some x \<Rightarrow> put_message (option_message x) k)
           in if k_show_usage k then Some (Inl 0) else Some (Inr k) } }"

definition ctl_message :: "ctl \<Rightarrow> u8 list" where
  "ctl_message k = take (unat (k_msglen k)) (k_buffer k)"

definition ctl_main :: "bool \<Rightarrow> (char \<times> string) list \<Rightarrow> world \<Rightarrow> (int + u8 list) option" where
  "ctl_main no_arguments opts w = map_option (map_sum id ctl_message) (ctl_parse no_arguments opts w)"

lemmas ctl_main_defs = ctl_main_def ctl_parse_def ctl_message_def

subsection \<open>The daemon accepts what the client sends\<close>

definition acceptable :: "u8 list \<Rightarrow> bool" where
  "acceptable msg \<longleftrightarrow> msg \<noteq> [] \<and> length msg \<le> 258 \<and> \<not> malformed msg (int (length msg)) \<and> known_command (msg ! 0)"

definition ctl_ok :: "ctl \<Rightarrow> bool" where
  "ctl_ok k \<longleftrightarrow> length (k_buffer k) = BUFSIZE_MAX \<and>
     (k_msglen k = 0 \<or> acceptable (take (unat (k_msglen k)) (k_buffer k))) \<and>
     (\<forall>x. k_option k = Some x \<longrightarrow> wf_option x)"

lemma ctl_ok_put:
  assumes "ctl_ok k" "acceptable bs"
  shows "ctl_ok (put_message bs k)" "take (unat (k_msglen (put_message bs k))) (k_buffer (put_message bs k)) = bs"
proof -
  have "length bs \<le> 258" using assms(2) by (simp add: acceptable_def)
  then have "unat (of_nat (length bs) :: u32) = length bs" by (intro of_nat_inverse) simp_all
  then show "ctl_ok (put_message bs k)" "take (unat (k_msglen (put_message bs k))) (k_buffer (put_message bs k)) = bs"
    using assms \<open>length bs \<le> 258\<close> by (simp_all add: ctl_ok_def put_message_def BUFSIZE_MAX_def)
qed

lemma acceptable_messages [simp]:
  "acceptable [DDHCPCTL_BLOCK_SHOW]" "acceptable [DDHCPCTL_DHCP_OPTIONS_SHOW]" "acceptable [DDHCPCTL_STATISTICS]"
  "acceptable [DDHCPCTL_STATISTICS_RESET]" "acceptable [DDHCPCTL_DHCP_OPTION_REMOVE, n]"
  "acceptable [DDHCPCTL_LOG_LEVEL_SET, n]" "acceptable ([DDHCPCTL_DHCP_OPTION_SET, 51, 4] @ put32 v)"
  by (simp_all add: acceptable_def malformed_def known_command_def ddhcpctl_codes)

lemma acceptable_option:
  assumes "wf_option x"
  shows "acceptable (option_message x)"
proof -
  have "length (o_payload x) < 256" using assms unat_u8_less [of "o_len x"] by (simp add: wf_option_def)
  moreover have "uint (o_len x) = int (length (o_payload x))"
    using assms uint_nat [of "o_len x"] unfolding wf_option_def by (simp only:)
  ultimately show ?thesis
    by (simp add: acceptable_def option_message_def malformed_def known_command_def ddhcpctl_codes)
qed

lemma ctl_option_ok:
  assumes ok: "ctl_ok k" and m: "ctl_option opt (k, w) = Some (Inr (k', w'))"
  shows "ctl_ok k'"
proof -
  obtain c s where opt: "opt = (c, s)" by (cases opt)
  have upd: "ctl_ok (k\<lparr>k_show_usage := b\<rparr>)" "ctl_ok (k\<lparr>k_path := p\<rparr>)" for b p
    using ok by (simp_all add: ctl_ok_def)
  show ?thesis
  proof (cases "c = CHR ''o''")
    case True
    obtain r v where r: "parse_option s w = Some (r, v)"
      using m opt True by (auto simp: ctl_option_def bind_eq_Some_conv)
    with m opt True show ?thesis
      using ok parse_option_wf [OF r] by (cases r) (auto simp: ctl_option_def ctl_ok_def)
  next
    case False
    then show ?thesis
      using m upd ctl_ok_put(1) [OF ok] unfolding ctl_option_def opt Let_def prod.case
      by (auto simp: bind_eq_Some_conv simp del: append.simps split: if_split_asm)
  qed
qed

lemma ctl_options_ok:
  "ctl_options opts (k, w) = Some (Inr (k', w')) \<Longrightarrow> ctl_ok k \<Longrightarrow> ctl_ok k'"
proof (induction opts arbitrary: k w)
  case (Cons opt opts)
  obtain r where r: "ctl_option opt (k, w) = Some r" using Cons.prems(1) by (auto simp: bind_eq_Some_conv)
  show ?case
  proof (cases r)
    case (Inr s)
    obtain k1 w1 where s: "s = (k1, w1)" by (cases s)
    then have "ctl_ok k1" using ctl_option_ok [OF Cons.prems(2), of opt w] r Inr by simp
    then show ?thesis using Cons.IH [of k1 w1] Cons.prems(1) r Inr s by simp
  qed (use Cons.prems(1) r in simp)
qed simp

lemma ctl_main_acceptable:
  assumes "ctl_main no_arguments opts w = Some (Inr msg)"
  shows "msg = [] \<or> acceptable msg"
proof -
  let ?k = "\<lparr>k_buffer = replicate BUFSIZE_MAX 0, k_msglen = 0, k_option = None,
         k_path = ''/tmp/ddhcpd_ctl'', k_show_usage = no_arguments\<rparr>"
  obtain r where r: "ctl_options opts (?k, w\<lparr>w_allocs := stl (w_allocs w)\<rparr>) = Some r"
    using assms by (auto simp: ctl_main_defs calloc_def bind_eq_Some_conv split: if_split_asm)
  show ?thesis
  proof (cases r)
    case (Inl code)
    then show ?thesis using assms r by (simp add: ctl_main_defs calloc_def split: if_split_asm)
  next
    case (Inr s)
    obtain k v where s: "s = (k, v)" by (cases s)
    have "ctl_ok ?k" by (simp add: ctl_ok_def)
    then have k: "ctl_ok k" using ctl_options_ok [of opts ?k] r Inr s by simp
    let ?k' = "case k_option k of None \<Rightarrow> k | Some x \<Rightarrow> put_message (option_message x) k"
    have msg: "msg = take (unat (k_msglen ?k')) (k_buffer ?k')"
      using assms r Inr s by (simp add: ctl_main_defs calloc_def Let_def split: if_split_asm)
    show ?thesis
    proof (cases "k_option k")
      case None
      then show ?thesis using msg k by (auto simp: ctl_ok_def)
    next
      case (Some x)
      then have "acceptable (option_message x)" using k by (simp add: ctl_ok_def acceptable_option)
      then show ?thesis using msg Some ctl_ok_put(2) [OF k] by simp
    qed
  qed
qed

text \<open>The daemon reads the message at the start of its own buffer.\<close>

lemma acceptable_handled:
  assumes msg: "acceptable msg" and inv: "wf_state w" and few: "num_blocks w < 2 ^ 31" and mem: "two_allocs msg w"
  shows "handle_command (msg @ r) (int (length msg)) w = Some (0, command_effect (msg @ r) w)"
proof -
  have first: "msg \<noteq> []" "(msg @ r) ! 0 = msg ! 0" using msg by (auto simp: acceptable_def nth_append)
  have len: "(msg @ r) ! 2 = msg ! 2" if "\<not> int (length msg) < 3" using that by (simp add: nth_append)
  have "\<not> malformed (msg @ r) (int (length msg))"
    using msg first len by (auto simp: acceptable_def malformed_def)
  moreover have "known_command ((msg @ r) ! 0)" "two_allocs (msg @ r) w"
    using msg mem first by (simp_all add: acceptable_def two_allocs_def)
  ultimately show ?thesis using first by (intro handle_command_eq [OF inv few]) simp_all
qed

lemma ctl_option_text:
  assumes "wf_option x" "shd (w_allocs w)" "shd (stl (w_allocs w))" "shd (stl (stl (w_allocs w)))"
  shows "ctl_main False [(CHR ''o'', option_argument x)] w = Some (Inr (option_message x))"
proof -
  let ?k = "\<lparr>k_buffer = replicate BUFSIZE_MAX 0, k_msglen = 0, k_option = Some x,
         k_path = ''/tmp/ddhcpd_ctl'', k_show_usage = False\<rparr>"
  have "ctl_ok ?k" using assms(1) by (simp add: ctl_ok_def)
  from ctl_ok_put(2) [OF this acceptable_option [OF assms(1)]] show ?thesis
    using parse_option_text [OF assms(1), of "w\<lparr>w_allocs := stl (w_allocs w)\<rparr>"] assms
    by (simp add: ctl_main_defs calloc_def ctl_option_def Let_def put_message_def)
qed

lemma option_in_message: "wf_option x \<Longrightarrow> option_in (option_message x @ r) = x"
  by (simp add: option_in_def option_message_def wf_option_def)

end
