(* ===== verification/Session.thy ===== *)
theory Session
  imports Control_Client Sockets_Inv
begin

text \<open>
  ddhcpctl.c from the connection on, and the session of a client with the daemon. The
  descriptors of the client are a \<open>kernel\<close> of its own; what \<open>send\<close> returns and what each \<open>recv\<close>
  delivers are inputs, \<open>None\<close> being an error. What \<open>main\<close> returns is a number; falling off its
  end is 0.
\<close>

subsection \<open>The client\<close>

abbreviation NUL :: char where "NUL \<equiv> CHR 0x00"

text \<open>
  The loop that prints the answer. It ends on the end of the stream only: the result of a failed
  \<open>recv\<close> is the index -1 of the write that follows. The text ends at the first NUL.
\<close>

fun receive_answer :: "string option list \<Rightarrow> string list option" where
  "receive_answer [] = Some []"
| "receive_answer (None # rs) = None"
| "receive_answer (Some bytes # rs) =
     (if bytes = [] then Some []
      else map_option ((#) (takeWhile (\<lambda>c. c \<noteq> NUL) (take (BUFSIZE_MAX - 1) bytes))) (receive_answer rs))"

definition ctl_session ::
  "string \<Rightarrow> u8 list \<Rightarrow> int \<Rightarrow> string option list \<Rightarrow> kernel \<Rightarrow> (int \<times> string list \<times> kernel) option" where
  "ctl_session path msg bw replies k =
     (let (ctl_sock, k) = socket k
      in if ctl_sock < 0 then Some (-1, [], k)
         else let (connected, k) = call ctl_sock (Connect (Unix (take 108 path))) k
           in if \<not> connected then Some (-1, [], close_fd ctl_sock k)
              else let (_, k) = answer k
                in if bw < int (length msg) then Some (-1, [], k)
                   else do {
                     texts \<leftarrow> receive_answer replies;
                     Some (0, texts, close_fd ctl_sock k) })"

definition ctl_program ::
  "bool \<Rightarrow> (char \<times> string) list \<Rightarrow> int \<Rightarrow> string option list \<Rightarrow> world \<Rightarrow> kernel \<Rightarrow>
   (int \<times> string list \<times> kernel) option" where
  "ctl_program no_arguments opts bw replies w k = do {
     r \<leftarrow> ctl_parse no_arguments opts w;
     case r of
       Inl code \<Rightarrow> Some (code, [], k)
     | Inr c \<Rightarrow> ctl_session (k_path c) (ctl_message c) bw replies k }"

subsection \<open>Reading an answer\<close>

text \<open>The stream delivers a text in pieces that fit the buffer, and then its end.\<close>

definition delivers :: "string option list \<Rightarrow> string \<Rightarrow> bool" where
  "delivers replies text \<longleftrightarrow> (\<exists>ps. replies = map Some ps @ [Some []] \<and> concat ps = text \<and>
     (\<forall>p \<in> set ps. p \<noteq> [] \<and> length p < BUFSIZE_MAX))"

lemma takeWhile_plain: "NUL \<notin> set p \<Longrightarrow> takeWhile (\<lambda>c. c \<noteq> NUL) p = p"
  by (rule takeWhile_eq_all_conv [THEN iffD2]) auto

lemma receive_pieces:
  "\<forall>p \<in> set ps. p \<noteq> [] \<and> length p < BUFSIZE_MAX \<and> NUL \<notin> set p \<Longrightarrow>
    receive_answer (map Some ps @ [Some []]) = Some ps"
proof (induction ps)
  case (Cons p ps)
  then have "p \<noteq> []" "take (BUFSIZE_MAX - 1) p = p" "NUL \<notin> set p" by (auto intro: take_all)
  then show ?case using Cons by (simp add: takeWhile_plain)
qed simp

lemma receive_answer_text:
  assumes "delivers replies text" "NUL \<notin> set text"
  shows "\<exists>ps. receive_answer replies = Some ps \<and> concat ps = text"
proof -
  obtain ps where ps: "replies = map Some ps @ [Some []]" "concat ps = text"
    "\<forall>p \<in> set ps. p \<noteq> [] \<and> length p < BUFSIZE_MAX"
    using assms(1) by (auto simp: delivers_def)
  then have "receive_answer replies = Some ps" using assms(2) by (auto intro!: receive_pieces)
  then show ?thesis using ps(2) by blast
qed

text \<open>Only a failed \<open>recv\<close> makes the client write outside its buffer.\<close>

lemma receive_answer_undefined:
  "receive_answer replies = None \<longleftrightarrow> (\<exists>ps rs. replies = map Some ps @ None # rs \<and> [] \<notin> set ps)"
proof (induction replies rule: receive_answer.induct)
  case (2 rs)
  show ?case by (auto intro: exI [of _ "[]"])
next
  case (3 bytes rs)
  have "(\<exists>ps rs'. Some bytes # rs = map Some ps @ None # rs' \<and> [] \<notin> set ps) \<longleftrightarrow>
      bytes \<noteq> [] \<and> (\<exists>ps rs'. rs = map Some ps @ None # rs' \<and> [] \<notin> set ps)" (is "?l \<longleftrightarrow> ?r")
  proof
    assume ?l
    then obtain ps rs' where "Some bytes # rs = map Some ps @ None # rs'" "[] \<notin> set ps" by blast
    then show ?r by (cases ps) auto
  next
    assume ?r
    then obtain ps rs' where "bytes \<noteq> []" "rs = map Some ps @ None # rs'" "[] \<notin> set ps" by blast
    then show ?l by (intro exI [of _ "bytes # ps"] exI [of _ rs']) auto
  qed
  then show ?case using "3.IH" by auto
qed simp

subsection \<open>What the daemon prints\<close>

fun ctrl_texts :: "io list \<Rightarrow> string list" where
  "ctrl_texts [] = []"
| "ctrl_texts (Ctrl_text t # es) = t # ctrl_texts es"
| "ctrl_texts (e # es) = ctrl_texts es"

lemma ctrl_texts_print [simp]: "ctrl_texts (map Ctrl_text ts) = ts"
  by (induction ts) simp_all

text \<open>No text has a NUL inside.\<close>

named_theorems plain "strings without NUL"

lemma hex_digit_not_NUL [plain]: "n < 16 \<Longrightarrow> NUL \<noteq> hex_digit n"
proof -
  assume "n < 16"
  then have "hex_digit n \<in> set ''0123456789ABCDEF''" unfolding hex_digit_def by (intro nth_mem) simp
  then show ?thesis by auto
qed

lemma dec_plain [plain]: "NUL \<notin> set (dec n)"
proof
  assume "NUL \<in> set (dec n)"
  then obtain d where "d < 10" "NUL = hex_digit d" using dec_digits by blast
  then show False using hex_digit_not_NUL [of d] by simp
qed

lemma dec_int_plain [plain]: "NUL \<notin> set (dec_int i)"
  by (simp add: dec_int_def plain)

lemma hex2_plain [plain]: "NUL \<notin> set (hex2 b)"
proof -
  have b: "unat b div 16 < 16" "unat b mod 16 < 16" using unat_u8_less [of b] by auto
  show ?thesis using hex_digit_not_NUL [OF b(1)] hex_digit_not_NUL [OF b(2)] by (simp add: hex2_def)
qed

lemma space_plain [plain]: "NUL \<notin> set newline" "NUL \<notin> set tab"
  by (simp_all add: newline_def tab_def) (code_simp, code_simp)

lemma inet_ntoa_plain [plain]: "NUL \<notin> set (inet_ntoa a)"
  by (simp add: inet_ntoa_def plain)

lemma concat_plain: "\<forall>s \<in> set ss. c \<notin> set s \<Longrightarrow> c \<notin> set (concat ss)"
  by auto

lemma take_plain: "c \<notin> set s \<Longrightarrow> c \<notin> set (take n s)"
  by (auto dest: in_set_takeD)

lemma leases_plain: "NUL \<notin> set (take n (dec a @ ''/'' @ dec b))"
  by (rule take_plain) (simp add: plain)

lemma status_row_plain [plain]: "NUL \<notin> set (status_row now b)"
  using leases_plain by (simp add: status_row_def plain split: option.split)

lemma status_text_plain: "NUL \<notin> set (concat (status_text now w))"
  by (simp add: status_text_def status_head_def plain)

lemma options_text_plain: "NUL \<notin> set (concat (options_text t w))"
  by (simp add: options_text_def option_text_def plain)

lemma statistics_text_plain: "NUL \<notin> set (concat (statistics_text w))"
proof (rule concat_plain, rule ballI)
  have "\<forall>x \<in> set statistics_lines. NUL \<notin> set (fst x)" by (simp add: statistics_lines_def)
  moreover fix t assume "t \<in> set (statistics_text w)"
  ultimately show "NUL \<notin> set t" by (auto simp: statistics_text_def owner_text_def plain)
qed

subsection \<open>A session\<close>

lemma command_effect_answer:
  "\<exists>out. w_out (command_effect buffer w) = w_out w @ out \<and> NUL \<notin> set (concat (ctrl_texts out))"
proof -
  have p: "\<exists>out. w_out (print_all ts v) = w_out v @ out \<and> NUL \<notin> set (concat (ctrl_texts out))"
    if "NUL \<notin> set (concat ts)" for ts v
    using that by (intro exI [of _ "map Ctrl_text ts"]) (simp add: print_all_def)
  show ?thesis
    using p [OF status_text_plain, of "shd (w_times w)" w "w\<lparr>w_times := stl (w_times w)\<rparr>"]
      p [OF options_text_plain, of "the (find_in_option_store_address_lease_time (c_options w))" w w]
      p [OF statistics_text_plain, of w w] p [OF statistics_text_plain, of w "w\<lparr>c_statistics := (\<lambda>_. 0)\<rparr>"]
    by (simp add: command_effect_def Let_def)
qed

text \<open>The client gets its answer when no call of its own fails.\<close>

lemma ctl_session_ok:
  assumes k: "obliging k" "well_polled k" and d: "delivers replies text" "NUL \<notin> set text"
  shows "\<exists>ps k'. ctl_session path msg (int (length msg)) replies k = Some (0, ps, k') \<and> concat ps = text \<and>
    k_open k' = k_open k"
proof -
  let ?c = "Connect (Unix (take 108 path))"
  obtain fd k1 where s: "socket k = (fd, k1)" by fastforce
  obtain a k2 where c: "call fd ?c k1 = (a, k2)" by fastforce
  obtain x k3 where f: "answer k2 = (x, k3)" by fastforce
  note n = new_socket_calls [OF new_socket_socket [OF s] c [unfolded call_calls] _ k(2)]
  then have a: "a" "0 \<le> fd" using k(1) by (auto split: if_split_asm)
  then have "new_socket fd k k2 ([] @ map (Pair fd) [?c])" using n by simp
  from new_socket_answer [OF this f] have "fd \<notin> set (k_open k)" "same_fds (open_fd fd k) k3"
    using k(1) by (auto simp: new_socket_def)
  then have "same_open k (close_fd fd k3)" using open_close(1) k(2) by (simp add: well_polled_def)
  moreover obtain ps where "receive_answer replies = Some ps" "concat ps = text" using receive_answer_text [OF d] by blast
  ultimately show ?thesis using s c f a by (simp add: ctl_session_def same_open_def)
qed

text \<open>What the daemon has printed for the client between two states.\<close>

definition answer_text :: "world \<Rightarrow> world \<Rightarrow> string" where
  "answer_text w w' = concat (ctrl_texts (drop (length (w_out w)) (w_out w')))"

text \<open>
  The daemon accepts the client, reads its message, does what it says, prints the answer and
  closes the connection.
\<close>

definition session_served :: "u8 list \<Rightarrow> daemon \<Rightarrow> daemon \<Rightarrow> bool" where
  "session_served msg s s' \<longleftrightarrow> (\<exists>fd s1. handle_event Control_new s = Some (Inr (False, s1)) \<and>
     connection fd (s_sockets s1) \<and> s_config s1 = s_config s \<and>
     handle_event (Control_in fd (Some msg)) s1 = Some (Inr (False, s')) \<and>
     s_config s' = command_effect (msg @ drop (length msg) (s_buffer s)) (s_config s) \<and>
     k_polled (so_kernel (s_sockets s')) = k_polled (so_kernel (s_sockets s)))"

lemma daemon_serves:
  assumes ok: "loop_ok base w0 s" "obliged s" and msg: "acceptable msg" and mem: "two_allocs msg (s_config s)"
  shows "\<exists>s'. session_served msg s s'"
proof -
  let ?k = "so_kernel (s_sockets s)"
  obtain r where r: "hdl_ctrl_new (s_sockets s) = Some r" "accepted base (s_sockets s) r"
    using ctrl_new_ok [OF loop_ok_sockets [OF ok(1)]] unfolding ok_iff by blast
  then obtain so where new: "hdl_ctrl_new (s_sockets s) = Some (Inr so)" and acc: "accepted base (s_sockets s) (Inr so)"
    using ok(2) by (cases r) (simp_all add: accepted_def)
  then obtain d where step: "sockets_step base (s_sockets s) so"
    and d: "e_epollin d = Hdl_ctrl_cmd" "e_fd d \<notin> set (k_open ?k)" "k_polled (so_kernel so) = k_polled ?k @ [d]"
    by (auto simp: accepted_def)
  let ?s1 = "s\<lparr>s_sockets := so\<rparr>" and ?fd = "e_fd d"
  have e1: "handle_event Control_new s = Some (Inr (False, ?s1))" using new by (simp add: andthen_def)
  have con: "connection ?fd so" using d by (auto simp: connection_def)
  have so: "sockets_ok base so" "obliging (so_kernel so)" using step ok(2) by (auto simp: sockets_step_def)
  obtain so' where so': "end_connection ?fd so = Inr so'"
    "k_polled (so_kernel so') = filter (\<lambda>x. e_fd x \<noteq> ?fd) (k_polled (so_kernel so))"
    using end_connection_ok [OF so(1) con] so(2) by (auto simp: ended_def split: sum.split_asm)
  have "?fd \<notin> e_fd ` set (k_polled ?k)" using d(2) loop_ok_sockets [OF ok(1)] by (auto simp: sockets_ok_def fds_ok_def)
  then have "filter (\<lambda>x. e_fd x \<noteq> ?fd) (k_polled ?k) = k_polled ?k" by (intro filter_True) (metis image_eqI)
  then have polled: "k_polled (so_kernel so') = k_polled ?k" using so'(2) d(3) by simp
  have len: "length msg \<le> 258" using msg by (simp add: acceptable_def)
  then have rc: "receive msg (s_buffer s) = (int (length msg), msg @ drop (length msg) (s_buffer s))"
    by (simp add: receive_def Let_def BUFSIZE_def)
  have "wf_state (s_config s)" "num_blocks (s_config s) < 2 ^ 31"
    using ok(1) few_blocks by (auto simp: loop_ok_def daemon_ok_def)
  from acceptable_handled [OF msg this mem]
  have "handle_event (Control_in ?fd (Some msg)) ?s1 = Some (Inr (False, ?s1\<lparr>s_buffer := msg @ drop (length msg) (s_buffer s),
      s_config := command_effect (msg @ drop (length msg) (s_buffer s)) (s_config s), s_sockets := so'\<rparr>))"
    using con so'(1) rc by (simp add: hdl_ctrl_cmd_def)
  then show ?thesis unfolding session_served_def using e1 con polled by (intro exI [of _ _]) auto
qed

lemma session_ok:
  assumes ok: "loop_ok base w0 s" "obliged s" and c: "ctl_parse no_arguments opts v = Some (Inr c)"
    and msg: "ctl_message c \<noteq> []" and mem: "two_allocs (ctl_message c) (s_config s)"
  shows "\<exists>s'. session_served (ctl_message c) s s' \<and> (\<forall>replies k. obliging k \<longrightarrow> well_polled k \<longrightarrow>
    delivers replies (answer_text (s_config s) (s_config s')) \<longrightarrow>
    (\<exists>ps k'. ctl_program no_arguments opts (int (length (ctl_message c))) replies v k = Some (0, ps, k') \<and>
      concat ps = answer_text (s_config s) (s_config s') \<and> k_open k' = k_open k))"
proof -
  have "acceptable (ctl_message c)" using ctl_main_acceptable [of no_arguments opts v] c msg by (auto simp: ctl_main_def)
  from daemon_serves [OF ok this mem] obtain s' where s': "session_served (ctl_message c) s s'" by blast
  then obtain out where "w_out (s_config s') = w_out (s_config s) @ out" "NUL \<notin> set (concat (ctrl_texts out))"
    using command_effect_answer by (fastforce simp: session_served_def)
  then have "NUL \<notin> set (answer_text (s_config s) (s_config s'))" by (simp add: answer_text_def)
  from ctl_session_ok [OF _ _ _ this] have "\<exists>ps k'. ctl_program no_arguments opts (int (length (ctl_message c))) replies v k = Some (0, ps, k') \<and>
      concat ps = answer_text (s_config s) (s_config s') \<and> k_open k' = k_open k"
    if "obliging k" "well_polled k" "delivers replies (answer_text (s_config s) (s_config s'))" for replies k
    using that c by (simp add: ctl_program_def)
  with s' show ?thesis by blast
qed

end
