(* ===== verification/Logger.thy ===== *)
theory Logger
  imports Tools
begin

text \<open>
  logger.c and logger.h: a message is printed on the standard error, after the name of its
  level, if the level of the daemon admits it. \<open>LOG_LEVEL_LIMIT\<close> is 255, so that every macro
  is compiled in. A message is given as it is formatted. The model of the
  daemon leaves messages out, except those on the configuration.
\<close>

definition LOG_FATAL :: int where "LOG_FATAL = 0"
definition LOG_ERROR :: int where "LOG_ERROR = 1"
definition LOG_WARNING :: int where "LOG_WARNING = 2"
definition LOG_INFO :: int where "LOG_INFO = 3"
definition LOG_DEBUG :: int where "LOG_DEBUG = 4"

lemmas log_levels = LOG_FATAL_def LOG_ERROR_def LOG_WARNING_def LOG_INFO_def LOG_DEBUG_def

definition logger :: "int \<Rightarrow> string \<Rightarrow> string \<Rightarrow> world \<Rightarrow> world" where
  "logger level prefix message w =
     (if w_log_level w \<ge> level
      then w\<lparr>w_out := w_out w @ [Err_text prefix, Err_text message]\<rparr> else w)"

definition LOG :: "string \<Rightarrow> world \<Rightarrow> world" where "LOG = logger (-1) []"
definition FATAL :: "string \<Rightarrow> world \<Rightarrow> world" where "FATAL = logger LOG_FATAL ''FATAL: ''"
definition ERROR :: "string \<Rightarrow> world \<Rightarrow> world" where "ERROR = logger LOG_ERROR ''ERROR: ''"
definition WARNING :: "string \<Rightarrow> world \<Rightarrow> world" where "WARNING = logger LOG_WARNING ''WARNING: ''"
definition INFO :: "string \<Rightarrow> world \<Rightarrow> world" where "INFO = logger LOG_INFO ''INFO: ''"
definition DEBUG :: "string \<Rightarrow> world \<Rightarrow> world" where "DEBUG = logger LOG_DEBUG ''DEBUG: ''"

lemmas log_macros = LOG_def FATAL_def ERROR_def WARNING_def INFO_def DEBUG_def

text \<open>A message changes the trace only; what is printed at one level is printed at every more urgent one.\<close>

lemma logger_out: "\<exists>out. logger l p m w = w\<lparr>w_out := w_out w @ out\<rparr> \<and> (out = [] \<longleftrightarrow> w_log_level w < l)"
  by (auto simp: logger_def intro: exI [of _ "[]"])

lemma logger_mono:
  "l \<le> l' \<Longrightarrow> logger l' p' m' w \<noteq> w \<Longrightarrow> w_out (logger l p m w) = w_out w @ [Err_text p, Err_text m]"
  by (auto simp: logger_def split: if_splits)

end
