(* ===== verification/Program.thy ===== *)
theory Program
  imports Config Logger
begin

text \<open>
  \<open>main\<close> of the daemon as a whole: the command line, the report of the configuration, the
  signals, the change into the background, the start, the loop until a signal ends it, and the
  shutdown. One turn of the loop is a record of what happens during it.
\<close>

subsection \<open>Signals\<close>

text \<open>The signals the program has a handler for.\<close>

datatype signal = SIGHUP | SIGPIPE | SIGINT | SIGTERM | SIGCHLD

datatype sighandler = SIG_IGN | Handle_signal_terminate | Cleanup_process_table

definition handle_signal ::
  "signal \<Rightarrow> sighandler \<Rightarrow> (signal \<Rightarrow> sighandler option) \<Rightarrow> signal \<Rightarrow> sighandler option" where
  "handle_signal sig_nr signalhandler handlers = handlers(sig_nr \<mapsto> signalhandler)"

definition handle_signal_terminate :: "signal \<Rightarrow> nat \<Rightarrow> nat" where
  "handle_signal_terminate sig_nr daemon_running =
     (if SIGINT = sig_nr then 0 else if SIGTERM = sig_nr then 0 else daemon_running)"

definition hook_init :: "(signal \<Rightarrow> sighandler option) \<Rightarrow> signal \<Rightarrow> sighandler option" where
  "hook_init handlers = handlers(SIGCHLD \<mapsto> Cleanup_process_table)"

definition install_handlers :: "signal \<Rightarrow> sighandler option" where
  "install_handlers = hook_init
     (handle_signal SIGTERM Handle_signal_terminate
       (handle_signal SIGINT Handle_signal_terminate
         (handle_signal SIGPIPE SIG_IGN (handle_signal SIGHUP SIG_IGN (\<lambda>_. None)))))"

text \<open>What a signal does to \<open>daemon_running\<close>; waiting for a child changes nothing else.\<close>

definition deliver :: "signal \<Rightarrow> nat \<Rightarrow> nat" where
  "deliver sig_nr daemon_running = (case install_handlers sig_nr of
       Some Handle_signal_terminate \<Rightarrow> handle_signal_terminate sig_nr daemon_running
     | _ \<Rightarrow> daemon_running)"

subsection \<open>The report of the configuration\<close>

definition report_settings :: "settings \<Rightarrow> world \<Rightarrow> world" where
  "report_settings g w = fold INFO
     [''CONFIG: network='' @ inet_ntoa (c_prefix w) @ ''/'' @ dec (unat (c_prefix_len w)) @ newline,
      ''CONFIG: block_size='' @ dec (unat (c_block_size w)) @ newline,
      ''CONFIG: #blocks='' @ dec_int (sint (c_number_of_blocks w)) @ newline,
      ''CONFIG: #spare_leases='' @ dec (unat (c_spare_leases_needed w)) @ newline,
      ''CONFIG: timeout='' @ dec (unat (c_block_timeout w)) @ newline,
      ''CONFIG: refresh_factor='' @ dec (unat (c_block_refresh_factor w)) @ newline,
      ''CONFIG: tentative_timeout='' @ dec (unat (c_tentative_timeout w)) @ newline,
      ''CONFIG: client_interface='' @ g_interface_client g @ newline,
      ''CONFIG: group_interface='' @ g_interface g @ newline] w"

subsection \<open>The loop\<close>

record turn =
  t_mcast :: "(u8 list \<times> in6_addr) list"
  t_server :: "(u8 list \<times> in6_addr) list"
  t_dhcp :: "u8 list list"
  t_events :: "event list"
  t_signals :: "signal list"

definition arrive :: "turn \<Rightarrow> daemon \<Rightarrow> daemon" where
  "arrive t s = s\<lparr>s_mcast := s_mcast s @ t_mcast t, s_server := s_server s @ t_server t,
     s_dhcp := s_dhcp s @ t_dhcp t\<rparr>"

text \<open>
  The process has called \<open>exit\<close>, it has returned 0 from \<open>main\<close> after the shutdown, or it waits
  for the next turn.
\<close>

datatype outcome = Ended int | Stopped daemon | Running nat daemon

text \<open>
  The loop is a \<open>do\<close> loop: \<open>daemon_running\<close> is looked at after a turn. \<open>epoll_wait\<close> is called
  again when a signal interrupts it, so a signal ends the turn it comes in only with the
  next event or at the timeout.
\<close>

fun run :: "turn list \<Rightarrow> nat \<times> daemon \<Rightarrow> outcome option" where
  "run [] (daemon_running, s) = Some (Running daemon_running s)"
| "run (t # turns) (daemon_running, s) = do {
     r \<leftarrow> loop_iteration (t_events t) (arrive t s);
     case r of
       Inl code \<Rightarrow> Some (Ended code)
     | Inr s \<Rightarrow>
         let daemon_running = fold deliver (t_signals t) daemon_running in
         if daemon_running = 0 then map_option Stopped (shutdown s)
         else run turns (daemon_running, s) }"

subsection \<open>The program\<close>

text \<open>The last message before the loop.\<close>

definition report_timeout :: "daemon \<Rightarrow> daemon" where
  "report_timeout s = s\<lparr>s_config := INFO (''loop timeout: ''
     @ dec_int (sint (get_loop_timeout (s_config s))) @ '' msecs'' @ newline) (s_config s)\<rparr>"

text \<open>\<open>daemon\<close> is asked for with the option \<open>d\<close>; whether it succeeds is up to the kernel.\<close>

definition main ::
  "bool \<Rightarrow> (char \<times> string) list \<Rightarrow> u8 list \<Rightarrow> kernel \<Rightarrow> turn list \<Rightarrow> world \<Rightarrow> outcome option" where
  "main errno opts memory k turns w = do {
     let (_, w) = time_null w;
     r \<leftarrow> configure errno opts w;
     case r of
       Inl code \<Rightarrow> Some (Ended code)
     | Inr g \<Rightarrow>
         let g = set_config (report_settings g) g;
             (background, k) = (if g_daemon_running g = 1 then answer k else (True, k))
         in if \<not> background then Some (Ended 1)
            else do {
              r \<leftarrow> startup memory k g;
              case r of
                Inl code \<Rightarrow> Some (Ended code)
              | Inr s \<Rightarrow> run turns (g_daemon_running g, report_timeout s) } }"

subsection \<open>What a run comes to\<close>

lemma deliver_eq: "deliver sig n = (if sig = SIGINT \<or> sig = SIGTERM then 0 else n)"
  by (cases sig) (simp_all add: deliver_def install_handlers_def hook_init_def handle_signal_def handle_signal_terminate_def)

lemma fold_deliver: "fold deliver sigs n = (if SIGINT \<in> set sigs \<or> SIGTERM \<in> set sigs then 0 else n)"
  by (induction sigs arbitrary: n) (auto simp: deliver_eq)

text \<open>Senders of datagrams have IPv6 addresses.\<close>

definition turn_ok :: "turn \<Rightarrow> bool" where
  "turn_ok t \<longleftrightarrow> (\<forall>d \<in> set (t_mcast t) \<union> set (t_server t). length (snd d) = 16)"

lemma reachable_trans: "reachable s t \<Longrightarrow> reachable r s \<Longrightarrow> reachable r t"
  by (induction rule: reachable.induct) (auto intro: reachable.intros)

lemma reachable_mcast: "\<forall>d \<in> set ds. length (snd d) = 16 \<Longrightarrow> reachable s (s\<lparr>s_mcast := s_mcast s @ ds\<rparr>)"
proof (induction ds rule: rev_induct)
  case (snoc d ds)
  then have "reachable s (s\<lparr>s_mcast := s_mcast s @ ds\<rparr>)" by simp
  from reachable.step [OF this mcast_arrives [of "snd d" _ "fst d"]] snoc.prems show ?case by simp
qed (simp add: reachable.start)

lemma reachable_server: "\<forall>d \<in> set ds. length (snd d) = 16 \<Longrightarrow> reachable s (s\<lparr>s_server := s_server s @ ds\<rparr>)"
proof (induction ds rule: rev_induct)
  case (snoc d ds)
  then have "reachable s (s\<lparr>s_server := s_server s @ ds\<rparr>)" by simp
  from reachable.step [OF this direct_arrives [of "snd d" _ "fst d"]] snoc.prems show ?case by simp
qed (simp add: reachable.start)

lemma reachable_dhcp: "reachable s (s\<lparr>s_dhcp := s_dhcp s @ ds\<rparr>)"
proof (induction ds rule: rev_induct)
  case (snoc d ds)
  from reachable.step [OF snoc.IH dhcp_arrives [of _ d]] show ?case by simp
qed (simp add: reachable.start)

lemma reachable_arrive:
  assumes "turn_ok t"
  shows "reachable s (arrive t s)"
proof -
  let ?m = "s\<lparr>s_mcast := s_mcast s @ t_mcast t\<rparr>"
  let ?d = "?m\<lparr>s_server := s_server ?m @ t_server t\<rparr>"
  have "reachable s ?m" "reachable ?m ?d"
    using reachable_mcast [of "t_mcast t" s] reachable_server [of "t_server t" ?m] assms by (simp_all add: turn_ok_def)
  moreover have "reachable ?d (arrive t s)" using reachable_dhcp [of ?d "t_dhcp t"] by (simp add: arrive_def)
  ultimately show ?thesis using reachable_trans by blast
qed

lemma handle_event_code:
  assumes ok: "loop_ok base w0 s" and m: "handle_event e s = Some (Inl c)"
  shows "c \<in> {1, 2}"
proof (cases "e = Control_new")
  case True
  then have "hdl_ctrl_new (s_sockets s) = Some (Inl c)"
    using m by (auto simp: andthen_def split: option.split_asm sum.split_asm)
  then show ?thesis using ctrl_new_ok [OF loop_ok_sockets [OF ok]] by (simp add: accepted_def)
next
  case False
  have "c = 1" if "end_connection fd so = Inl c" for fd so
    using that by (auto simp: end_connection_def hdl_epoll_hup_def del_fd_def split: sum.split_asm prod.split_asm if_split_asm)
  then show ?thesis using m False
    by (cases e) (auto simp: hdl_ctrl_cmd_def elim!: bindE split: if_split_asm sum.split_asm prod.split_asm)
qed

lemma handle_events_code:
  "handle_events es (n, s) = Some (Inl c) \<Longrightarrow> loop_ok base w0 s \<Longrightarrow> c \<in> {1, 2}"
proof (induction es arbitrary: n s)
  case (Cons e es)
  obtain r where r: "handle_event e s = Some r" using Cons.prems(1) by (auto elim!: bindE)
  show ?case
  proof (cases r)
    case (Inl c')
    then show ?thesis using r Cons.prems handle_event_code by simp
  next
    case (Inr q)
    obtain m s1 where q: "q = (m, s1)" by (cases q)
    then have "loop_ok base w0 s1" using handle_event_ok [OF Cons.prems(2)] r Inr by simp
    then show ?thesis using Cons.IH [of "n \<or> m" s1] Cons.prems(1) r Inr q by simp
  qed
qed simp

lemma loop_iteration_code:
  assumes "loop_iteration es s = Some (Inl c)" "loop_ok base w0 s"
  shows "c \<in> {1, 2}"
proof -
  obtain n u where u: "check_time s = (n, u)" by fastforce
  have "handle_events es (n, u) = Some (Inl c)"
    using assms(1) u by (auto simp: loop_iteration_def elim!: bindE split: sum.split_asm if_split_asm)
  then show ?thesis using handle_events_code check_time_ok [OF assms(2) u] by blast
qed

text \<open>
  A run goes through states the daemon reaches; what is left at its end is the shutdown of
  such a state.
\<close>

definition run_sound :: "int set \<Rightarrow> world \<Rightarrow> daemon \<Rightarrow> nat \<Rightarrow> outcome \<Rightarrow> bool" where
  "run_sound base w0 s0 n r = (case r of
       Ended c \<Rightarrow> c \<in> {1, 2}
     | Stopped s' \<Rightarrow> \<exists>s. reachable s0 s \<and> loop_ok base w0 s \<and> shut_down s s'
     | Running n' s \<Rightarrow> n' = n \<and> reachable s0 s \<and> loop_ok base w0 s)"

lemma run_ok:
  "run turns (n, s) = Some r \<Longrightarrow> reachable s0 s \<Longrightarrow> loop_ok base w0 s0 \<Longrightarrow> \<forall>t \<in> set turns. turn_ok t \<Longrightarrow>
    run_sound base w0 s0 n r"
proof (induction turns arbitrary: s)
  case Nil
  then show ?case using reachable_ok [of s0 s base w0] by (auto simp: run_sound_def)
next
  case (Cons t turns)
  have a: "reachable s0 (arrive t s)" using reachable_trans [OF reachable_arrive Cons.prems(2)] Cons.prems(4) by simp
  note ok = reachable_ok [OF a Cons.prems(3)]
  obtain i where i: "loop_iteration (t_events t) (arrive t s) = Some i" using Cons.prems(1) by (auto elim!: bindE)
  show ?case
  proof (cases i)
    case (Inl c)
    then show ?thesis using Cons.prems(1) i loop_iteration_code [OF _ ok] by (auto simp: run_sound_def)
  next
    case (Inr s1)
    then have s1: "reachable s0 s1" using a i by (auto intro: reachable.step iterates)
    note ok1 = reachable_ok [OF s1 Cons.prems(3)]
    show ?thesis
    proof (cases "fold deliver (t_signals t) n = 0")
      case True
      then obtain s' where "shutdown s1 = Some s'" "r = Stopped s'" using Cons.prems(1) i Inr by auto
      then show ?thesis using shutdown_Some [OF ok1] s1 ok1 by (auto simp: run_sound_def)
    next
      case False
      then have "fold deliver (t_signals t) n = n" by (simp add: fold_deliver split: if_split_asm)
      then show ?thesis using Cons.IH [OF _ s1 Cons.prems(3)] Cons.prems(1,4) i Inr False by simp
    qed
  qed
qed

text \<open>
  Datagrams of clients and direct datagrams can lead to undefined behaviour. Without them
  (\<open>harmless\<close>) every turn completes, and so does the run, when the requests that wait in the
  cache are whole; they stay so.
\<close>

definition harmless_turn :: "turn \<Rightarrow> bool" where
  "harmless_turn t \<longleftrightarrow> turn_ok t \<and> (\<forall>e \<in> set (t_events t). harmless e)"

lemma harmless_turn_done:
  assumes ok: "loop_ok base w0 s" "whole_cache (s_config s)" and t: "harmless_turn t"
  shows "\<exists>i. loop_iteration (t_events t) (arrive t s) = Some i \<and> turned base w0 (t_events t) (arrive t s) i \<and>
    (\<forall>s1. i = Inr s1 \<longrightarrow> reachable s s1 \<and> loop_ok base w0 s1 \<and> whole_cache (s_config s1) \<and>
      ok (shutdown s1) (shut_down s1))"
proof -
  have t: "turn_ok t" "\<forall>e \<in> set (t_events t). harmless e" using t by (simp_all add: harmless_turn_def)
  note a = reachable_arrive [OF t(1), of s]
  have "whole_cache (s_config (arrive t s))" using ok(2) by (simp add: arrive_def)
  from loop_iteration_defined [OF reachable_ok [OF a ok(1)] this t(2)] obtain i
    where i: "loop_iteration (t_events t) (arrive t s) = Some i" "turned base w0 (t_events t) (arrive t s) i"
    unfolding ok_iff by blast
  have "reachable s s1 \<and> loop_ok base w0 s1 \<and> whole_cache (s_config s1) \<and> ok (shutdown s1) (shut_down s1)"
    if s1: "i = Inr s1" for s1
  proof -
    have r: "reachable s s1" using a i(1) s1 by (auto intro: reachable.step iterates)
    have "set (c_dhcp_packet_cache (s_config s1)) \<subseteq> set (c_dhcp_packet_cache (s_config s))"
      using i(2) s1 by (simp add: turned_def arrive_def)
    then have w: "whole_cache (s_config s1)" using ok(2) by (auto simp: whole_cache_def)
    show ?thesis using r w reachable_ok [OF r ok(1)] shutdown_defined [OF reachable_ok [OF r ok(1)] w] by simp
  qed
  with i show ?thesis by blast
qed

lemma run_defined:
  "loop_ok base w0 s \<Longrightarrow> whole_cache (s_config s) \<Longrightarrow> \<forall>t \<in> set turns. harmless_turn t \<Longrightarrow> run turns (n, s) \<noteq> None"
proof (induction turns arbitrary: n s)
  case (Cons t turns)
  from Cons.prems(3) have t: "harmless_turn t" by simp
  obtain i where i: "loop_iteration (t_events t) (arrive t s) = Some i"
    "\<forall>s1. i = Inr s1 \<longrightarrow> reachable s s1 \<and> loop_ok base w0 s1 \<and> whole_cache (s_config s1) \<and> ok (shutdown s1) (shut_down s1)"
    using harmless_turn_done [OF Cons.prems(1,2) t] by blast
  show ?case
  proof (cases i)
    case (Inl c)
    then show ?thesis using i by simp
  next
    case (Inr s1)
    then have ok1: "loop_ok base w0 s1" "whole_cache (s_config s1)" and "ok (shutdown s1) (shut_down s1)" using i(2) by blast+
    then obtain s' where "shutdown s1 = Some s'" unfolding ok_iff by blast
    then show ?thesis
      using Cons.IH [OF ok1, of "fold deliver (t_signals t) n"] Cons.prems(3) i(1) Inr by (simp add: Let_def)
  qed
qed simp

text \<open>A signal ends the turn it comes in with the shutdown, whatever would come after.\<close>

definition stopped :: "int set \<Rightarrow> world \<Rightarrow> turn \<Rightarrow> daemon \<Rightarrow> outcome \<Rightarrow> bool" where
  "stopped base w0 t s r = (case r of
       Ended c \<Rightarrow> may_end (Failure \<in> set (t_events t)) s c
     | Stopped s' \<Rightarrow> \<exists>s1. reachable s s1 \<and> loop_ok base w0 s1 \<and> shut_down s1 s'
     | Running n' s \<Rightarrow> False)"

lemma run_stops:
  assumes ok: "loop_ok base w0 s" "whole_cache (s_config s)" and h: "harmless_turn t"
    and sig: "SIGINT \<in> set (t_signals t) \<or> SIGTERM \<in> set (t_signals t)"
  shows "ok (run (t # turns) (n, s)) (stopped base w0 t s)"
proof -
  obtain i where i: "loop_iteration (t_events t) (arrive t s) = Some i" "turned base w0 (t_events t) (arrive t s) i"
    "\<forall>s1. i = Inr s1 \<longrightarrow> reachable s s1 \<and> loop_ok base w0 s1 \<and> whole_cache (s_config s1) \<and> ok (shutdown s1) (shut_down s1)"
    using harmless_turn_done [OF ok h] by blast
  show ?thesis
  proof (cases i)
    case (Inl c)
    have "s_sockets (arrive t s) = s_sockets s" by (simp add: arrive_def)
    then show ?thesis using Inl i(1,2) by (simp add: turned_def stopped_def may_end_def)
  next
    case (Inr s1)
    then have s1: "reachable s s1" "loop_ok base w0 s1" and "ok (shutdown s1) (shut_down s1)" using i(3) by blast+
    then obtain s' where "shutdown s1 = Some s'" "shut_down s1 s'" unfolding ok_iff by blast
    then show ?thesis using Inr i(1) sig s1 by (auto simp: stopped_def fold_deliver)
  qed
qed

subsection \<open>From the command line to the end\<close>

lemma INFO_out: "\<exists>out. INFO m w = w\<lparr>w_out := out\<rparr>"
  using logger_out [of LOG_INFO "''INFO: ''" m w] by (auto simp: INFO_def)

lemma fold_INFO: "\<exists>out. fold INFO ms w = w\<lparr>w_out := out\<rparr>"
proof (induction ms arbitrary: w)
  case Nil
  show ?case by (simp add: exI [of _ "w_out w"])
next
  case (Cons m ms)
  obtain out where "INFO m w = w\<lparr>w_out := out\<rparr>" using INFO_out by blast
  then show ?case using Cons.IH [of "w\<lparr>w_out := out\<rparr>"] by simp
qed

lemma report_out: "\<exists>out. report_settings g w = w\<lparr>w_out := out\<rparr>"
  unfolding report_settings_def by (rule fold_INFO)

lemma configured_out [simp]: "configured node (g\<lparr>g_config := (g_config g)\<lparr>w_out := out\<rparr>\<rparr>) = configured node g"
  by (simp add: configured_def settings_ok_def Let_def)

lemma block_init_out: "fst (ddhcp_block_init (w\<lparr>w_out := out\<rparr>)) = fst (ddhcp_block_init w)"
  by (simp add: ddhcp_block_init_def calloc_def time_null_def Let_def)

lemma loop_ok_out: "loop_ok base (w0\<lparr>w_out := out\<rparr>) s = loop_ok base w0 s"
  by (simp add: loop_ok_def same_params_def)

lemma report_timeout_ok:
  assumes "loop_ok base w0 s"
  shows "loop_ok base w0 (report_timeout s)"
proof -
  let ?w = "s_config (report_timeout s)"
  obtain out where "?w = (s_config s)\<lparr>w_out := out\<rparr>" using INFO_out by (fastforce simp: report_timeout_def)
  then have "quiet (s_config s) ?w" by (simp add: quiet_def env_change_def same_params_def)
  then have "advances (s_config s) ?w" using assms by (intro advances_quiet) (simp_all add: loop_ok_def)
  then show ?thesis using assms
    by (intro loop_okI [OF assms]) (simp_all add: report_timeout_def loop_ok_def)
qed

lemma startup_code:
  assumes "startup memory k g = Some (Inl c)" "started k" "nl_fresh k"
  shows "c \<in> {1, 2, SIGABRT}"
proof -
  have "c \<in> {1, 2, SIGABRT}" if "open_sockets a b d e k = Some (Inl c)" for a b d e
    using open_sockets_ok [OF assms(2,3), of a b d e] that by (simp add: sockets_opened_def)
  then show ?thesis using assms(1)
    by (auto simp: startup_def andthen_def calloc_def bind_eq_Some_conv Let_def
        split: prod.split_asm if_split_asm option.split_asm sum.split_asm)
qed

lemma startup_defined:
  assumes "length (c_prefix (g_config g)) = 4" "started k" "nl_fresh k"
  shows "startup memory k g \<noteq> None"
proof -
  obtain r1 w1 where w1: "ddhcp_block_init (g_config g) = (r1, w1)" by fastforce
  then have "length (c_prefix w1) = 4"
    using assms(1) by (auto simp: ddhcp_block_init_def calloc_def time_null_def Let_def split: if_split_asm)
  then obtain r w2 where w2: "dhcp_options_init w1 = Some (r, w2)"
    by (cases "fold init_step (default_options (c_prefix_len w1) (c_prefix w1)) (0, w1)")
      (simp add: dhcp_options_init_def take_opt_def)
  obtain q where "open_sockets (g_interface g) (g_interface_client g) (g_control_path g) (c_disable_dhcp w2) k = Some q"
    using open_sockets_ok [OF assms(2,3)] unfolding ok_iff by blast
  then show ?thesis using w1 w2 by (cases q) (simp_all add: startup_def calloc_def andthen_def Let_def)
qed

lemma options_init_cache:
  assumes "dhcp_options_init w = Some (r, w')"
  shows "c_dhcp_packet_cache w' = c_dhcp_packet_cache w"
proof -
  obtain prefix where "fold init_step (default_options (c_prefix_len w) prefix) (0, w) = (r, w')"
    using assms by (auto simp: dhcp_options_init_def elim!: bindE)
  from init_step_frame [OF this] show ?thesis by auto
qed

lemma startup_cache:
  assumes "startup memory k g = Some (Inr s)" "c_dhcp_packet_cache (g_config g) = []"
  shows "c_dhcp_packet_cache (s_config (report_timeout s)) = []"
proof -
  obtain r1 w1 where w1: "ddhcp_block_init (g_config g) = (r1, w1)" by fastforce
  then have "c_dhcp_packet_cache w1 = []"
    using assms(2) by (auto simp: ddhcp_block_init_def calloc_def time_null_def Let_def split: if_split_asm)
  moreover obtain w2 so where "dhcp_options_init w1 = Some (0, w2)"
    "s = loop_start (g_learning_phase g) memory so (w2\<lparr>w_allocs := stl (stl (w_allocs w2))\<rparr>)"
    using assms(1) w1
    by (auto simp: startup_def bind_eq_Some_conv calloc_def Let_def andthen_def
        split: if_split_asm prod.split_asm option.split_asm sum.split_asm)
  ultimately obtain w where s: "s = loop_start (g_learning_phase g) memory so w" "c_dhcp_packet_cache w = []"
    using options_init_cache [of w1 0 w2] by simp
  obtain out where "s_config (report_timeout s) = (s_config s)\<lparr>w_out := out\<rparr>" using INFO_out by (fastforce simp: report_timeout_def)
  then show ?thesis using s by (simp add: loop_start_def time_null_def Let_def)
qed

definition program_sound :: "kernel \<Rightarrow> settings \<Rightarrow> outcome \<Rightarrow> bool" where
  "program_sound k g r = (case r of
       Ended c \<Rightarrow> c \<in> {1, 2, SIGABRT}
     | Stopped s' \<Rightarrow> \<exists>s. loop_ok (set (k_open k)) (g_config g) s \<and> shut_down s s'
     | Running n s \<Rightarrow> n = g_daemon_running g \<and> loop_ok (set (k_open k)) (g_config g) s)"

text \<open>\<open>main\<close> after the command line and the change into the background.\<close>

lemma main_cases:
  assumes conf: "configure errno opts (snd (time_null w)) = Some (Inr g)" "length (c_node_id w) = 8"
    and k: "started k" "nl_fresh k"
  obtains "main errno opts memory k turns w = Some (Ended 1)"
  | k1 out where "started k1" "nl_fresh k1" "k_open k1 = k_open k"
      "configured (c_node_id w) (g\<lparr>g_config := (g_config g)\<lparr>w_out := out\<rparr>\<rparr>)"
      "main errno opts memory k turns w = do {
        r \<leftarrow> startup memory k1 (g\<lparr>g_config := (g_config g)\<lparr>w_out := out\<rparr>\<rparr>);
        case r of Inl code \<Rightarrow> Some (Ended code) | Inr s \<Rightarrow> run turns (g_daemon_running g, report_timeout s) }"
proof -
  obtain out where out: "report_settings g (g_config g) = (g_config g)\<lparr>w_out := out\<rparr>" using report_out by blast
  obtain b k1 where b: "(if g_daemon_running g = 1 then answer k else (True, k)) = (b, k1)" by fastforce
  then have s: "same_fds k k1" using answer_frame [of k b k1] by (auto split: if_split_asm)
  then have k1: "started k1" "nl_fresh k1" "k_open k1 = k_open k"
    using k by (simp_all add: started_def nl_fresh_same) (simp_all add: same_fds_def)
  have "configured (c_node_id w) g" using configure_ok [OF conf(1)] by (simp add: time_null_def)
  then have c: "configured (c_node_id w) (g\<lparr>g_config := (g_config g)\<lparr>w_out := out\<rparr>\<rparr>)" by simp
  have e: "main errno opts memory k turns w = (if \<not> b then Some (Ended 1) else do {
      r \<leftarrow> startup memory k1 (g\<lparr>g_config := (g_config g)\<lparr>w_out := out\<rparr>\<rparr>);
      case r of Inl code \<Rightarrow> Some (Ended code) | Inr s \<Rightarrow> run turns (g_daemon_running g, report_timeout s) })"
    using conf(1) b out by (simp add: main_def time_null_def Let_def)
  show thesis
  proof (cases b)
    case False
    then show ?thesis using e that(1) by simp
  next
    case True
    then have "main errno opts memory k turns w = do {
        r \<leftarrow> startup memory k1 (g\<lparr>g_config := (g_config g)\<lparr>w_out := out\<rparr>\<rparr>);
        case r of Inl code \<Rightarrow> Some (Ended code) | Inr s \<Rightarrow> run turns (g_daemon_running g, report_timeout s) }"
      using e by simp
    from that(2) [OF k1 c this] show ?thesis .
  qed
qed

lemma main_ok:
  assumes conf: "configure errno opts (snd (time_null w)) = Some (Inr g)" "length (c_node_id w) = 8"
    and blocks: "fst (ddhcp_block_init (g_config g)) = 0" and mem: "length memory = BUFSIZE"
    and k: "started k" "nl_fresh k" and turns: "\<forall>t \<in> set turns. turn_ok t"
  shows "case main errno opts memory k turns w of
      None \<Rightarrow> \<exists>t \<in> set turns. \<not> harmless_turn t
    | Some r \<Rightarrow> program_sound k g r"
  using conf k
proof (cases rule: main_cases [where memory = memory and turns = turns])
  case 1
  then show ?thesis by (simp add: program_sound_def)
next
  case (2 k1 out)
  let ?g = "g\<lparr>g_config := (g_config g)\<lparr>w_out := out\<rparr>\<rparr>"
  obtain q where q: "startup memory k1 ?g = Some q"
    using startup_defined [OF _ 2(1,2), of ?g memory] 2(4) by (auto simp: configured_def settings_ok_def Let_def)
  show ?thesis
  proof (cases q)
    case (Inl code)
    then show ?thesis using 2(5) q startup_code [OF _ 2(1,2)] by (simp add: program_sound_def)
  next
    case (Inr s0)
    have "fst (ddhcp_block_init (g_config ?g)) = 0" using blocks by (simp add: block_init_out)
    from startup_ok [OF 2(4) conf(2) mem this _ 2(1,2)] q Inr
    have "loop_ok (set (k_open k)) (g_config ?g) s0" using 2(3) by simp
    then have l: "loop_ok (set (k_open k)) (g_config g) (report_timeout s0)" by (simp add: loop_ok_out report_timeout_ok)
    have m: "main errno opts memory k turns w = run turns (g_daemon_running g, report_timeout s0)" using 2(5) q Inr by simp
    show ?thesis
    proof (cases "run turns (g_daemon_running g, report_timeout s0)")
      case None
      have "c_dhcp_packet_cache (g_config ?g) = []" using configured_params [OF 2(4) conf(2)] by simp
      from startup_cache [OF q [unfolded Inr] this] have "whole_cache (s_config (report_timeout s0))"
        by (simp add: whole_cache_def)
      then show ?thesis using run_defined [OF l, of turns "g_daemon_running g"] None m by auto
    next
      case (Some r)
      from run_ok [OF Some reachable.start l turns] show ?thesis
        using m Some by (auto simp: run_sound_def program_sound_def split: outcome.split_asm)
    qed
  qed
qed

end
