(* ===== verification/Example_Run.thy ===== *)
theory Example_Run
  imports Example Session Program
begin

text \<open>
  The daemon started without options in the example's environment, and run until a signal
  ends it.
\<close>

lemma demo_time [simp]: "time_null demo = (1000, demo)"
  by (simp add: time_null_def demo_def node_world_def)

lemma demo_configured:
  obtains g where "configure False [] demo = Some (Inr g)" "fst (ddhcp_block_init (g_config g)) = 0"
    "g_config g = (g_config (initial_settings demo))\<lparr>c_number_of_blocks := 8\<rparr>" "g_daemon_running g = 2"
proof -
  have n: "number_of_blocks 24 32 = Some 8" by code_simp
  show thesis
  proof (rule that)
    show "configure False [] demo = Some (Inr ((initial_settings demo)\<lparr>g_config :=
        (g_config (initial_settings demo))\<lparr>c_number_of_blocks := 8\<rparr>\<rparr>))"
      using n by (simp add: configure_def initial_settings_def)
  qed (simp_all add: ddhcp_block_init_def calloc_def time_null_def initial_settings_def Let_def)
qed

lemma demo_opened:
  "\<exists>so. open_sockets interface interface_client control_path disable_dhcp demo_kernel = Some (Inr so) \<and> obliging (so_kernel so)"
proof -
  obtain r where "open_sockets interface interface_client control_path disable_dhcp demo_kernel = Some r"
    "sockets_opened (all_sockets interface interface_client control_path disable_dhcp) demo_kernel r"
    using open_sockets_ok [OF demo_kernel_ok(1,2)] unfolding ok_iff by blast
  then show ?thesis using demo_kernel_ok(3) by (cases r) (simp_all add: sockets_opened_def)
qed

lemma demo_started:
  assumes g: "g_config g = (g_config (initial_settings demo))\<lparr>c_number_of_blocks := 8, w_out := out\<rparr>"
  shows "\<exists>s. startup (replicate BUFSIZE 0) demo_kernel g = Some (Inr s) \<and> obliged s"
proof -
  obtain r1 w1 where w1: "ddhcp_block_init (g_config g) = (r1, w1)" by fastforce
  then have w: "w_allocs w1 = sconst True" "c_prefix w1 = [10, 0, 0, 0]" "c_options w1 = []"
    using g by (auto simp: ddhcp_block_init_def calloc_def time_null_def initial_settings_def Let_def)
  obtain r w2 where w2: "dhcp_options_init w1 = Some (r, w2)"
    using w(2) by (cases "fold init_step (default_options (c_prefix_len w1) [10, 0, 0, 0]) (0, w1)")
      (simp add: dhcp_options_init_def)
  then have "r = 0 \<and> w_allocs w2 = sconst True"
    using w by (auto simp: dhcp_options_init_def default_options_def init_step_def init_option_def calloc_def Let_def
        split: if_split_asm)
  then show ?thesis
    using w1 w2 demo_opened [of "g_interface g" "g_interface_client g" "g_control_path g" "c_disable_dhcp w2"]
    by (auto simp: startup_def calloc_def andthen_def loop_start_def time_null_def Let_def)
qed

text \<open>The termination signal of the first turn ends the program in the regular way.\<close>

definition last_turn :: turn where
  "last_turn = \<lparr>t_mcast = [], t_server = [], t_dhcp = [], t_events = [], t_signals = [SIGTERM]\<rparr>"

lemma demo_main: "\<exists>s. main False [] (replicate BUFSIZE 0) demo_kernel [last_turn] demo = Some (Stopped s)"
proof -
  obtain g where g: "configure False [] demo = Some (Inr g)" "fst (ddhcp_block_init (g_config g)) = 0"
    "g_config g = (g_config (initial_settings demo))\<lparr>c_number_of_blocks := 8\<rparr>" "g_daemon_running g = 2"
    by (rule demo_configured)
  let ?g = "g\<lparr>g_config := report_settings g (g_config g)\<rparr>"
  obtain out where out: "report_settings g (g_config g) = (g_config g)\<lparr>w_out := out\<rparr>" using report_out by blast
  then have "g_config ?g = (g_config (initial_settings demo))\<lparr>c_number_of_blocks := 8, w_out := out\<rparr>" using g(3) by simp
  from demo_started [OF this] obtain s where s: "startup (replicate BUFSIZE 0) demo_kernel ?g = Some (Inr s)" "obliged s"
    by blast
  have "configured own_id g" using configure_ok [OF g(1)] by simp
  then have "configured own_id ?g" "fst (ddhcp_block_init (g_config ?g)) = 0" using out g(2) by (simp_all add: block_init_out)
  from startup_ok [OF this(1) _ _ this(2) s(1) demo_kernel_ok(1,2)]
  have "loop_ok (set (k_open demo_kernel)) (g_config ?g) (report_timeout s)" by (simp add: report_timeout_ok)
  moreover have "c_dhcp_packet_cache (g_config ?g) = []" using out g(3) by (simp add: initial_settings_def)
  from startup_cache [OF s(1) this] have "whole_cache (s_config (report_timeout s))" by (simp add: whole_cache_def)
  ultimately obtain r
    where r: "run [last_turn] (2, report_timeout s) = Some r" "stopped (set (k_open demo_kernel)) (g_config ?g) last_turn (report_timeout s) r"
    using run_stops [of "set (k_open demo_kernel)" "g_config ?g" "report_timeout s" last_turn "[]" 2]
    unfolding ok_iff last_turn_def harmless_turn_def turn_ok_def by auto
  moreover have "obliged (report_timeout s)" using s(2) by (simp add: report_timeout_def)
  ultimately obtain s' where "r = Stopped s'"
    by (cases r) (simp_all add: stopped_def may_end_def last_turn_def)
  then show ?thesis using g s(1) r(1) by (simp add: main_def)
qed

text \<open>What the daemon answers to the client that asks for the option store.\<close>

definition demo_text :: string where
  "demo_text = concat (options_text 300 demo)"

lemma demo_text_eq: "take 20 demo_text = ''DHCP Lease Time: 300''" "length demo_text < BUFSIZE_MAX" "demo_text \<noteq> []"
proof -
  have "dec (unat (300 :: u32)) = ''300''" by code_simp
  then show "take 20 demo_text = ''DHCP Lease Time: 300''" "demo_text \<noteq> []"
    by (simp_all add: demo_text_def options_text_def)
  have "length (concat (concat (map option_text [lease_time_option, server_option]))) = 30" by code_simp
  moreover have "length (concat [''DHCP Lease Time: '' @ dec (unat (300 :: u32)) @ newline @ newline,
      ''DHCP Disabled: '' @ dec (unat (0 :: u32)) @ newline,
      ''DHCP Option Store'' @ newline @ ''code'' @ tab @ ''len'' @ tab @ ''payload'' @ newline]) = 74" by code_simp
  moreover have "c_disable_dhcp demo = 0" by (simp add: demo_def node_world_def)
  ultimately show "length demo_text < BUFSIZE_MAX" by (simp add: demo_text_def options_text_def BUFSIZE_MAX_def)
qed

lemma demo_parse:
  obtains c where "ctl_parse False [(CHR ''d'', '''')] demo = Some (Inr c)" "ctl_message c = [DDHCPCTL_DHCP_OPTIONS_SHOW]"
  by (simp add: ctl_parse_def ctl_message_def calloc_def ctl_option_def put_message_def BUFSIZE_MAX_def)

lemma demo_answer: "answer_text demo (command_effect (DDHCPCTL_DHCP_OPTIONS_SHOW # r) demo) = demo_text"
proof -
  have "find_in_option_store_address_lease_time (c_options demo) = Some 300"
    by (simp add: find_in_option_store_address_lease_time_def lease_time_option_def server_option_def dhcp_codes)
  then show ?thesis
    by (simp add: answer_text_def command_effect_def Let_def ddhcpctl_codes print_all_def demo_text_def)
qed

end
