(* ===== verification/Linked_List.thy ===== *)
theory Linked_List
  imports Block
begin

text \<open>
  list.h: the doubly linked rings behind the claim list, the option store and the packet
  cache. The memory has one partial map per field; a pointer outside its domain, NULL among
  them, must not be followed. A ring through a head stands for the list of its entries
  (\<open>is_list\<close>), and every operation is shown to do to that list what the model does to its
  lists.
\<close>

subsection \<open>Memory\<close>

type_synonym ptr = nat

definition NULL :: ptr where "NULL = 0"

record heap =
  h_next :: "ptr \<Rightarrow> ptr option"
  h_prev :: "ptr \<Rightarrow> ptr option"

text \<open>A \<open>struct list_head\<close> is allocated as a whole.\<close>

definition allocated :: "ptr \<Rightarrow> heap \<Rightarrow> bool" where
  "allocated p h \<longleftrightarrow> h_next h p \<noteq> None \<and> h_prev h p \<noteq> None"

definition set_next :: "ptr \<Rightarrow> ptr \<Rightarrow> heap \<Rightarrow> heap option" where
  "set_next p q h = (if h_next h p = None then None else Some (h\<lparr>h_next := (h_next h)(p \<mapsto> q)\<rparr>))"

definition set_prev :: "ptr \<Rightarrow> ptr \<Rightarrow> heap \<Rightarrow> heap option" where
  "set_prev p q h = (if h_prev h p = None then None else Some (h\<lparr>h_prev := (h_prev h)(p \<mapsto> q)\<rparr>))"

subsection \<open>The operations\<close>

definition INIT_LIST_HEAD :: "ptr \<Rightarrow> heap \<Rightarrow> heap option" where
  "INIT_LIST_HEAD list h = do { h \<leftarrow> set_prev list list h; set_next list list h }"

definition list_empty :: "ptr \<Rightarrow> heap \<Rightarrow> bool option" where
  "list_empty head h = do { n \<leftarrow> h_next h head; Some (n = head) }"

definition list_is_first :: "ptr \<Rightarrow> ptr \<Rightarrow> heap \<Rightarrow> bool option" where
  "list_is_first list head h = do { p \<leftarrow> h_prev h list; Some (p = head) }"

definition list_is_last :: "ptr \<Rightarrow> ptr \<Rightarrow> heap \<Rightarrow> bool option" where
  "list_is_last list head h = do { n \<leftarrow> h_next h list; Some (n = head) }"

text \<open>Both statements read the links of the entry, the second after the first has written.\<close>

definition list_unlink :: "ptr \<Rightarrow> heap \<Rightarrow> heap option" where
  "list_unlink entry h = do {
     n \<leftarrow> h_next h entry;
     p \<leftarrow> h_prev h entry;
     h \<leftarrow> set_prev n p h;
     p \<leftarrow> h_prev h entry;
     n \<leftarrow> h_next h entry;
     set_next p n h }"

definition list_del :: "ptr \<Rightarrow> heap \<Rightarrow> heap option" where
  "list_del entry h = do {
     h \<leftarrow> list_unlink entry h;
     h \<leftarrow> set_prev entry NULL h;
     set_next entry NULL h }"

definition list_link :: "ptr \<Rightarrow> ptr \<Rightarrow> ptr \<Rightarrow> heap \<Rightarrow> heap option" where
  "list_link new before behind h = do {
     h \<leftarrow> set_prev behind new h;
     h \<leftarrow> set_next new behind h;
     h \<leftarrow> set_prev new before h;
     set_next before new h }"

definition list_del_init :: "ptr \<Rightarrow> heap \<Rightarrow> heap option" where
  "list_del_init entry h = do { h \<leftarrow> list_unlink entry h; INIT_LIST_HEAD entry h }"

definition list_add :: "ptr \<Rightarrow> ptr \<Rightarrow> heap \<Rightarrow> heap option" where
  "list_add new head h = do { n \<leftarrow> h_next h head; list_link new head n h }"

definition list_add_tail :: "ptr \<Rightarrow> ptr \<Rightarrow> heap \<Rightarrow> heap option" where
  "list_add_tail new head h = do { p \<leftarrow> h_prev h head; list_link new p head h }"

definition list_move :: "ptr \<Rightarrow> ptr \<Rightarrow> heap \<Rightarrow> heap option" where
  "list_move list head h = do { h \<leftarrow> list_unlink list h; list_add list head h }"

definition list_move_tail :: "ptr \<Rightarrow> ptr \<Rightarrow> heap \<Rightarrow> heap option" where
  "list_move_tail entry head h = do { h \<leftarrow> list_unlink entry h; list_add_tail entry head h }"

definition list_splice_between :: "ptr \<Rightarrow> ptr \<Rightarrow> ptr \<Rightarrow> heap \<Rightarrow> heap option" where
  "list_splice_between list before behind h = do {
     none \<leftarrow> list_empty list h;
     if none then Some h
     else do {
       first \<leftarrow> h_next h list;
       last \<leftarrow> h_prev h list;
       h \<leftarrow> set_prev first before h;
       h \<leftarrow> set_next before first h;
       h \<leftarrow> set_next last behind h;
       set_prev behind last h } }"

definition list_splice :: "ptr \<Rightarrow> ptr \<Rightarrow> heap \<Rightarrow> heap option" where
  "list_splice list head h = do { n \<leftarrow> h_next h head; list_splice_between list head n h }"

definition list_splice_tail :: "ptr \<Rightarrow> ptr \<Rightarrow> heap \<Rightarrow> heap option" where
  "list_splice_tail list head h = do { p \<leftarrow> h_prev h head; list_splice_between list p head h }"

definition list_splice_init :: "ptr \<Rightarrow> ptr \<Rightarrow> heap \<Rightarrow> heap option" where
  "list_splice_init list head h = do { h \<leftarrow> list_splice list head h; INIT_LIST_HEAD list h }"

definition list_splice_tail_init :: "ptr \<Rightarrow> ptr \<Rightarrow> heap \<Rightarrow> heap option" where
  "list_splice_tail_init list head h = do { h \<leftarrow> list_splice_tail list head h; INIT_LIST_HEAD list h }"

text \<open>
  The loops of the macros. A ring that does not come back to its head keeps them running;
  their result is then undefined as well.
\<close>

partial_function (option) list_for_each ::
  "(ptr \<Rightarrow> 's \<Rightarrow> heap \<Rightarrow> ('s \<times> heap) option) \<Rightarrow> ptr \<Rightarrow> ptr \<Rightarrow> 's \<Rightarrow> heap \<Rightarrow> ('s \<times> heap) option" where
  "list_for_each body p head s h =
     (if p = head then Some (s, h)
      else do {
        (s, h) \<leftarrow> body p s h;
        n \<leftarrow> h_next h p;
        list_for_each body n head s h })"

partial_function (option) list_for_each_prev ::
  "(ptr \<Rightarrow> 's \<Rightarrow> heap \<Rightarrow> ('s \<times> heap) option) \<Rightarrow> ptr \<Rightarrow> ptr \<Rightarrow> 's \<Rightarrow> heap \<Rightarrow> ('s \<times> heap) option" where
  "list_for_each_prev body p head s h =
     (if p = head then Some (s, h)
      else do {
        (s, h) \<leftarrow> body p s h;
        n \<leftarrow> h_prev h p;
        list_for_each_prev body n head s h })"

partial_function (option) list_for_each_safe ::
  "(ptr \<Rightarrow> 's \<Rightarrow> heap \<Rightarrow> ('s \<times> heap) option) \<Rightarrow> ptr \<Rightarrow> ptr \<Rightarrow> ptr \<Rightarrow> 's \<Rightarrow> heap \<Rightarrow> ('s \<times> heap) option" where
  "list_for_each_safe body p n head s h =
     (if p = head then Some (s, h)
      else do {
        (s, h) \<leftarrow> body p s h;
        m \<leftarrow> h_next h n;
        list_for_each_safe body n m head s h })"

partial_function (option) list_for_each_prev_safe ::
  "(ptr \<Rightarrow> 's \<Rightarrow> heap \<Rightarrow> ('s \<times> heap) option) \<Rightarrow> ptr \<Rightarrow> ptr \<Rightarrow> ptr \<Rightarrow> 's \<Rightarrow> heap \<Rightarrow> ('s \<times> heap) option" where
  "list_for_each_prev_safe body p n head s h =
     (if p = head then Some (s, h)
      else do {
        (s, h) \<leftarrow> body p s h;
        m \<leftarrow> h_prev h n;
        list_for_each_prev_safe body n m head s h })"

subsection \<open>Rings\<close>

text \<open>Consecutive nodes point at each other.\<close>

fun links :: "(ptr \<Rightarrow> ptr option) \<Rightarrow> (ptr \<Rightarrow> ptr option) \<Rightarrow> ptr list \<Rightarrow> bool" where
  "links n v (a # b # r) \<longleftrightarrow> n a = Some b \<and> v b = Some a \<and> links n v (b # r)"
| "links n v _ \<longleftrightarrow> True"

definition is_list :: "heap \<Rightarrow> ptr \<Rightarrow> ptr list \<Rightarrow> bool" where
  "is_list h head xs \<longleftrightarrow> links (h_next h) (h_prev h) (head # xs @ [head]) \<and> distinct (head # xs)"

lemma links_append: "links n v (xs @ a # ys) \<longleftrightarrow> links n v (xs @ [a]) \<and> links n v (a # ys)"
proof (induction xs)
  case (Cons x xs)
  then show ?case by (cases xs) auto
qed simp

lemma links_next: "a \<notin> set (butlast ns) \<Longrightarrow> links (n(a \<mapsto> z)) v ns = links n v ns"
  by (induction ns rule: induct_list012) auto

lemma links_prev: "a \<notin> set (tl ns) \<Longrightarrow> links n (v(a \<mapsto> z)) ns = links n v ns"
  by (induction ns rule: induct_list012) auto

lemma links_cong:
  "\<forall>p \<in> set ns. n' p = n p \<and> v' p = v p \<Longrightarrow> links n' v' ns = links n v ns"
  by (induction ns rule: induct_list012) auto

text \<open>A new node between two neighbours, and a node taken out.\<close>

lemma links_insert:
  assumes l: "links n v (as @ [x])" "links n v (y # bs)"
    and d: "x \<notin> set as" "y \<notin> set bs" "x \<notin> set (butlast (y # bs))" "y \<notin> set (tl (as @ [x]))"
    and new: "new \<notin> set as" "new \<notin> set bs" "new \<noteq> x" "new \<noteq> y"
  shows "links (n(new \<mapsto> y, x \<mapsto> new)) (v(y \<mapsto> new, new \<mapsto> x)) (as @ [x, new, y] @ bs)"
proof -
  have "new \<notin> set (tl (as @ [x]))" "new \<notin> set (butlast (y # bs))"
    using new by (cases as; auto dest: in_set_butlastD)+
  then have "links (n(new \<mapsto> y, x \<mapsto> new)) (v(y \<mapsto> new, new \<mapsto> x)) (as @ [x])"
    "links (n(new \<mapsto> y, x \<mapsto> new)) (v(y \<mapsto> new, new \<mapsto> x)) (y # bs)"
    using l d new by (simp_all add: links_next links_prev)
  then show ?thesis using new by (simp add: links_append [of _ _ as x "new # y # bs"])
qed

lemma links_remove:
  assumes l: "links n v (as @ [x])" "links n v (y # bs)"
    and d: "x \<notin> set as" "y \<notin> set bs" "x \<notin> set (butlast (y # bs))" "y \<notin> set (tl (as @ [x]))"
  shows "links (n(x \<mapsto> y)) (v(y \<mapsto> x)) (as @ [x, y] @ bs)"
proof -
  have "links (n(x \<mapsto> y)) (v(y \<mapsto> x)) (as @ [x])" "links (n(x \<mapsto> y)) (v(y \<mapsto> x)) (y # bs)"
    using l d by (simp_all add: links_next links_prev)
  then show ?thesis by (simp add: links_append [of _ _ as x "y # bs"])
qed

text \<open>A place in a ring: the node before it, the node behind it, and what they look like.\<close>

lemma place:
  assumes "distinct (head # xs @ zs)"
  obtains as x y bs where "head # xs = as @ [x]" "zs @ [head] = y # bs"
    "x \<notin> set as" "y \<notin> set bs" "x \<notin> set (butlast (y # bs))" "y \<notin> set (tl (as @ [x]))"
    "set (as @ [x]) \<union> set (y # bs) = set (head # xs @ zs)"
proof -
  define as x y bs where a: "as = butlast (head # xs)" "x = last (head # xs)" "y = hd (zs @ [head])" "bs = tl (zs @ [head])"
  have e: "head # xs = as @ [x]" unfolding a by simp
  have f: "zs @ [head] = y # bs" unfolding a by simp
  have d: "distinct (head # xs)" "distinct zs" "set zs \<inter> set (head # xs) = {}" using assms by auto
  have "x \<notin> set as" using d(1) unfolding e by simp
  moreover have "distinct (y # bs)" using d unfolding f [symmetric] by auto
  moreover have "x \<notin> set (butlast (y # bs))"
  proof -
    have "x \<in> set (head # xs)" unfolding e by simp
    then show ?thesis unfolding f [symmetric] using d(3) by auto
  qed
  moreover have "y \<notin> set (tl (as @ [x]))"
  proof -
    have "tl (as @ [x]) = xs" unfolding e [symmetric] by simp
    moreover have "y = head \<or> y \<in> set zs" using f by (cases zs) auto
    ultimately show ?thesis using d by auto
  qed
  moreover have "set (as @ [x]) \<union> set (y # bs) = set (head # xs @ zs)"
    unfolding e [symmetric] f [symmetric] by auto
  ultimately show thesis using that e f by simp
qed

subsection \<open>What the operations do\<close>

text \<open>Only the nodes of \<open>S\<close> are written, and nothing is freed.\<close>

definition changes :: "ptr set \<Rightarrow> heap \<Rightarrow> heap \<Rightarrow> bool" where
  "changes S h h' \<longleftrightarrow> (\<forall>p. p \<notin> S \<longrightarrow> h_next h' p = h_next h p \<and> h_prev h' p = h_prev h p) \<and>
     (\<forall>p. allocated p h \<longrightarrow> allocated p h')"

lemma changes_trans: "changes S h h1 \<Longrightarrow> changes T h1 h2 \<Longrightarrow> S \<subseteq> U \<Longrightarrow> T \<subseteq> U \<Longrightarrow> changes U h h2"
proof -
  assume a: "changes S h h1" "changes T h1 h2" "S \<subseteq> U" "T \<subseteq> U"
  then have "p \<notin> S \<and> p \<notin> T" if "p \<notin> U" for p using that by blast
  then show "changes U h h2" using a(1,2) by (simp add: changes_def)
qed

lemma changes_is_list:
  assumes "changes S h h'" "S \<inter> set (head # ys) = {}"
  shows "is_list h' head ys = is_list h head ys"
proof -
  have "\<forall>p \<in> set (head # ys @ [head]). h_next h' p = h_next h p \<and> h_prev h' p = h_prev h p"
    using assms by (auto simp: changes_def)
  from links_cong [OF this] show ?thesis by (simp add: is_list_def)
qed

lemma ring_cut:
  assumes "is_list h head (xs @ zs)" "head # xs = as @ [x]" "zs @ [head] = y # bs"
  shows "links (h_next h) (h_prev h) (as @ [x])" "links (h_next h) (h_prev h) (y # bs)"
    "h_next h x = Some y" "h_prev h y = Some x"
proof -
  have "head # (xs @ zs) @ [head] = as @ x # y # bs" using assms(2,3) by (metis append.assoc append_Cons append_Nil)
  then have "links (h_next h) (h_prev h) (as @ x # y # bs)" using assms(1) by (simp add: is_list_def)
  then show "links (h_next h) (h_prev h) (as @ [x])" "links (h_next h) (h_prev h) (y # bs)"
    "h_next h x = Some y" "h_prev h y = Some x"
    by (simp_all add: links_append [of _ _ as x "y # bs"])
qed

lemma INIT_LIST_HEAD_ok:
  assumes "allocated p h"
  shows "\<exists>h'. INIT_LIST_HEAD p h = Some h' \<and> is_list h' p [] \<and> changes {p} h h'"
  using assms by (auto simp: INIT_LIST_HEAD_def set_prev_def set_next_def allocated_def is_list_def changes_def)

lemma list_link_ok:
  assumes ring: "is_list h head (xs @ zs)" and new: "new \<notin> set (head # xs @ zs)" "allocated new h"
  shows "\<exists>h'. list_link new (last (head # xs)) (hd (zs @ [head])) h = Some h' \<and>
    is_list h' head (xs @ new # zs) \<and> changes (insert new (set (head # xs @ zs))) h h'"
proof -
  have d: "distinct (head # xs @ zs)" using ring by (simp add: is_list_def)
  obtain as x y bs where p: "head # xs = as @ [x]" "zs @ [head] = y # bs"
    "x \<notin> set as" "y \<notin> set bs" "x \<notin> set (butlast (y # bs))" "y \<notin> set (tl (as @ [x]))"
    "set (as @ [x]) \<union> set (y # bs) = set (head # xs @ zs)"
    by (rule place [OF d])
  note c = ring_cut [OF ring p(1,2)]
  let ?h = "\<lparr>h_next = (h_next h)(new \<mapsto> y, x \<mapsto> new), h_prev = (h_prev h)(y \<mapsto> new, new \<mapsto> x)\<rparr>"
  have ends: "last (head # xs) = x" "hd (zs @ [head]) = y" unfolding p(1,2) by simp_all
  have n: "new \<notin> set as" "new \<notin> set bs" "new \<noteq> x" "new \<noteq> y" using new(1) unfolding p(7) [symmetric] by auto
  obtain a b where al: "h_next h new = Some a" "h_prev h new = Some b" using new(2) by (auto simp: allocated_def)
  have "list_link new x y h = Some ?h"
    using c(3,4) n al by (simp add: list_link_def set_prev_def set_next_def)
  moreover have "is_list ?h head (xs @ new # zs)"
  proof -
    have "head # (xs @ new # zs) @ [head] = as @ [x, new, y] @ bs"
      using p(1,2) by (metis append.assoc append_Cons append_Nil)
    then show ?thesis
      using links_insert [OF c(1,2) p(3-6) n] new(1) d by (simp add: is_list_def)
  qed
  moreover have "x \<in> set (head # xs @ zs)" "y \<in> set (head # xs @ zs)" unfolding p(7) [symmetric] by simp_all
  then have "changes (insert new (set (head # xs @ zs))) h ?h"
    by (auto simp: changes_def allocated_def)
  ultimately show ?thesis using ends by auto
qed

lemma list_unlink_ok:
  assumes ring: "is_list h head (xs @ e # zs)"
  shows "\<exists>h'. list_unlink e h = Some h' \<and> is_list h' head (xs @ zs) \<and> changes (set (head # xs @ zs)) h h' \<and>
    h_next h' e = h_next h e \<and> h_prev h' e = h_prev h e \<and> h_next h e = Some (hd (zs @ [head])) \<and> allocated e h"
proof -
  have d: "distinct (head # xs @ zs)" "e \<notin> set (head # xs @ zs)" using ring by (auto simp: is_list_def)
  obtain as x y bs where p: "head # xs = as @ [x]" "zs @ [head] = y # bs"
    "x \<notin> set as" "y \<notin> set bs" "x \<notin> set (butlast (y # bs))" "y \<notin> set (tl (as @ [x]))"
    "set (as @ [x]) \<union> set (y # bs) = set (head # xs @ zs)"
    by (rule place [OF d(1)])
  have e: "x \<noteq> e" "y \<noteq> e" using d(2) unfolding p(7) [symmetric] by auto
  have "(e # zs) @ [head] = e # y # bs" using p(2) by simp
  from ring_cut [OF ring p(1) this]
  have c: "links (h_next h) (h_prev h) (as @ [x])" "links (h_next h) (h_prev h) (y # bs)"
    "h_next h x = Some e" "h_prev h e = Some x" "h_next h e = Some y" "h_prev h y = Some e"
    by simp_all
  let ?h = "\<lparr>h_next = (h_next h)(x \<mapsto> y), h_prev = (h_prev h)(y \<mapsto> x)\<rparr>"
  have "list_unlink e h = Some ?h" using c(3-6) e by (simp add: list_unlink_def set_prev_def set_next_def)
  moreover have "is_list ?h head (xs @ zs)"
  proof -
    have "head # (xs @ zs) @ [head] = as @ [x, y] @ bs" using p(1,2) by (metis append.assoc append_Cons append_Nil)
    then show ?thesis using links_remove [OF c(1,2) p(3-6)] d by (simp add: is_list_def)
  qed
  moreover have "x \<in> set (head # xs @ zs)" "y \<in> set (head # xs @ zs)" unfolding p(7) [symmetric] by simp_all
  then have "changes (set (head # xs @ zs)) h ?h" by (auto simp: changes_def allocated_def)
  moreover have "hd (zs @ [head]) = y" unfolding p(2) by simp
  ultimately show ?thesis using c(4,5) e by (auto simp: allocated_def)
qed

lemma ring_ends:
  assumes "is_list h head xs"
  shows "h_next h head = Some (hd (xs @ [head]))" "h_prev h head = Some (last (head # xs))"
proof -
  have "links (h_next h) (h_prev h) ([] @ head # xs @ [head])" using assms by (simp add: is_list_def)
  then show "h_next h head = Some (hd (xs @ [head]))" by (cases xs) simp_all
  have "links (h_next h) (h_prev h) (butlast (head # xs) @ last (head # xs) # [head])"
    using assms unfolding is_list_def
    by (metis append_Cons append_assoc append_butlast_last_id append_Nil list.distinct(1))
  then show "h_prev h head = Some (last (head # xs))"
    using links_append [of "h_next h" "h_prev h" "butlast (head # xs)" "last (head # xs)" "[head]"] by simp
qed

lemma list_empty_ok: "is_list h head xs \<Longrightarrow> list_empty head h = Some (xs = [])"
proof -
  assume r: "is_list h head xs"
  then have "head \<notin> set xs" by (simp add: is_list_def)
  then have "(hd (xs @ [head]) = head) = (xs = [])" by (cases xs) auto
  then show ?thesis using ring_ends [OF r] by (simp add: list_empty_def)
qed

lemma list_add_ok:
  assumes "is_list h head xs" "new \<notin> set (head # xs)" "allocated new h"
  shows "\<exists>h'. list_add new head h = Some h' \<and> is_list h' head (new # xs) \<and> changes (insert new (set (head # xs))) h h'"
  using list_link_ok [of h head "[]" xs new] ring_ends(1) [OF assms(1)] assms by (simp add: list_add_def)

lemma list_add_tail_ok:
  assumes "is_list h head xs" "new \<notin> set (head # xs)" "allocated new h"
  shows "\<exists>h'. list_add_tail new head h = Some h' \<and> is_list h' head (xs @ [new]) \<and> changes (insert new (set (head # xs))) h h'"
  using list_link_ok [of h head xs "[]" new] ring_ends(2) [OF assms(1)] assms by (simp add: list_add_tail_def)

lemma list_del_ok:
  assumes "is_list h head (xs @ e # zs)"
  shows "\<exists>h'. list_del e h = Some h' \<and> is_list h' head (xs @ zs) \<and> changes (set (head # xs @ e # zs)) h h' \<and>
    h_next h' e = Some NULL \<and> h_prev h' e = Some NULL"
proof -
  obtain h1 where h1: "list_unlink e h = Some h1" "is_list h1 head (xs @ zs)" "changes (set (head # xs @ zs)) h h1"
    "allocated e h"
    using list_unlink_ok [OF assms] by blast
  then have "allocated e h1" by (simp add: changes_def)
  then obtain h2 where h2: "list_del e h = Some h2" "changes {e} h1 h2" "h_next h2 e = Some NULL" "h_prev h2 e = Some NULL"
    using h1(1) by (auto simp: list_del_def set_prev_def set_next_def allocated_def changes_def)
  have e: "e \<notin> set (head # xs @ zs)" using assms by (auto simp: is_list_def)
  then have "is_list h2 head (xs @ zs)" using h1(2) changes_is_list [OF h2(2)] by simp
  moreover have "changes (set (head # xs @ e # zs)) h h2" by (rule changes_trans [OF h1(3) h2(2)]) auto
  ultimately show ?thesis using h2 by blast
qed

lemma list_del_init_ok:
  assumes "is_list h head (xs @ e # zs)"
  shows "\<exists>h'. list_del_init e h = Some h' \<and> is_list h' head (xs @ zs) \<and> is_list h' e [] \<and> changes (set (head # xs @ e # zs)) h h'"
proof -
  obtain h1 where h1: "list_unlink e h = Some h1" "is_list h1 head (xs @ zs)" "changes (set (head # xs @ zs)) h h1"
    "allocated e h"
    using list_unlink_ok [OF assms] by blast
  then have "allocated e h1" by (simp add: changes_def)
  then obtain h2 where h2: "list_del_init e h = Some h2" "is_list h2 e []" "changes {e} h1 h2"
    using h1(1) INIT_LIST_HEAD_ok [of e h1] by (auto simp: list_del_init_def)
  have e: "e \<notin> set (head # xs @ zs)" using assms by (auto simp: is_list_def)
  then have "is_list h2 head (xs @ zs)" using h1(2) changes_is_list [OF h2(3)] by simp
  moreover have "changes (set (head # xs @ e # zs)) h h2" by (rule changes_trans [OF h1(3) h2(3)]) auto
  ultimately show ?thesis using h2 by blast
qed

text \<open>An entry moves to the front or the end of its own list, or of another.\<close>

lemma list_move_ok:
  assumes "is_list h head (xs @ e # zs)"
  shows "\<exists>h'. list_move e head h = Some h' \<and> is_list h' head (e # xs @ zs)"
    and "\<exists>h'. list_move_tail e head h = Some h' \<and> is_list h' head (xs @ zs @ [e])"
proof -
  obtain h1 where h1: "list_unlink e h = Some h1" "is_list h1 head (xs @ zs)" "allocated e h1"
    using list_unlink_ok [OF assms] by (auto simp: changes_def)
  moreover have "e \<notin> set (head # xs @ zs)" using assms by (auto simp: is_list_def)
  ultimately show "\<exists>h'. list_move e head h = Some h' \<and> is_list h' head (e # xs @ zs)"
    "\<exists>h'. list_move_tail e head h = Some h' \<and> is_list h' head (xs @ zs @ [e])"
    using list_add_ok [of h1 head "xs @ zs" e] list_add_tail_ok [of h1 head "xs @ zs" e]
    by (auto simp: list_move_def list_move_tail_def)
qed

lemma list_move_other:
  assumes "is_list h head (xs @ e # zs)" "is_list h other ys" "set (head # xs @ e # zs) \<inter> set (other # ys) = {}"
  shows "\<exists>h'. list_move e other h = Some h' \<and> is_list h' head (xs @ zs) \<and> is_list h' other (e # ys)"
    and "\<exists>h'. list_move_tail e other h = Some h' \<and> is_list h' head (xs @ zs) \<and> is_list h' other (ys @ [e])"
proof -
  obtain h1 where h1: "list_unlink e h = Some h1" "is_list h1 head (xs @ zs)" "changes (set (head # xs @ zs)) h h1" "allocated e h1"
    using list_unlink_ok [OF assms(1)] by (auto simp: changes_def)
  have o: "is_list h1 other ys" using assms(2,3) changes_is_list [OF h1(3), of other ys] by auto
  have e: "e \<notin> set (other # ys)" "e \<notin> set (head # xs @ zs)" "insert e (set (other # ys)) \<inter> set (head # xs @ zs) = {}"
    using assms(1,3) by (auto simp: is_list_def)
  obtain h2 where h2: "list_add e other h1 = Some h2" "is_list h2 other (e # ys)" "changes (insert e (set (other # ys))) h1 h2"
    using list_add_ok [OF o e(1) h1(4)] by blast
  obtain h3 where h3: "list_add_tail e other h1 = Some h3" "is_list h3 other (ys @ [e])" "changes (insert e (set (other # ys))) h1 h3"
    using list_add_tail_ok [OF o e(1) h1(4)] by blast
  show "\<exists>h'. list_move e other h = Some h' \<and> is_list h' head (xs @ zs) \<and> is_list h' other (e # ys)"
    using h1(1,2) h2 changes_is_list [OF h2(3) e(3)] by (simp add: list_move_def)
  show "\<exists>h'. list_move_tail e other h = Some h' \<and> is_list h' head (xs @ zs) \<and> is_list h' other (ys @ [e])"
    using h1(1,2) h3 changes_is_list [OF h3(3) e(3)] by (simp add: list_move_tail_def)
qed

subsection \<open>Splicing\<close>

lemma links_join:
  "links n v (as @ [a]) \<Longrightarrow> links n v (b # bs) \<Longrightarrow> n a = Some b \<Longrightarrow> v b = Some a \<Longrightarrow> links n v (as @ a # b # bs)"
  by (simp add: links_append [of n v as a "b # bs"])

lemma links_splice:
  assumes l: "links n v (as @ [x])" "links n v (f # t)" "links n v (y # bs)" and ys: "f # t = s @ [l]"
    and d: "x \<notin> set as" "y \<notin> set bs" "x \<notin> set (butlast (y # bs))" "y \<notin> set (tl (as @ [x]))"
    and new: "distinct (f # t)" "set (f # t) \<inter> (set (as @ [x]) \<union> set (y # bs)) = {}"
  shows "links (n(x \<mapsto> f, l \<mapsto> y)) (v(f \<mapsto> x, y \<mapsto> l)) (as @ x # (f # t) @ y # bs)"
proof -
  let ?n = "n(x \<mapsto> f, l \<mapsto> y)" and ?v = "v(f \<mapsto> x, y \<mapsto> l)"
  have lf: "l \<in> set (f # t)" unfolding ys by simp
  have ls: "l \<notin> set s" using new(1) unfolding ys by simp
  have xy: "x \<notin> set (f # t)" "y \<notin> set (f # t)" using new(2) by auto
  have 1: "links ?n ?v (as @ [x])"
  proof -
    have "l \<notin> set as" using lf new(2) by auto
    moreover have "f \<notin> set (tl (as @ [x]))" using new(2) by (cases as) auto
    ultimately show ?thesis using l(1) d by (simp add: links_next links_prev)
  qed
  have 2: "links ?n ?v (f # t)"
  proof -
    have "x \<notin> set (butlast (f # t))" "l \<notin> set (butlast (f # t))"
      using xy ls unfolding ys by simp_all
    then show ?thesis using l(2) new(1) xy by (simp add: links_next links_prev del: butlast.simps)
  qed
  have 3: "links ?n ?v (y # bs)"
  proof -
    have "l \<notin> set (butlast (y # bs))" using lf new(2) by (auto dest: in_set_butlastD)
    moreover have "f \<notin> set bs" using new(2) by auto
    ultimately show ?thesis using l(3) d by (simp add: links_next links_prev)
  qed
  have "x \<noteq> l" "f \<noteq> y" using lf xy by auto
  then have "links ?n ?v ((as @ x # s) @ [l])" using links_join [OF 1 2] ys by simp
  from links_join [OF this 3] show ?thesis using ys \<open>f \<noteq> y\<close> by simp
qed

lemma list_splice_between_ok:
  assumes ring: "is_list h head (xs @ zs)" and src: "is_list h src ys" and disj: "set (head # xs @ zs) \<inter> set (src # ys) = {}"
  shows "\<exists>h'. list_splice_between src (last (head # xs)) (hd (zs @ [head])) h = Some h' \<and>
    is_list h' head (xs @ ys @ zs) \<and> changes (set (head # xs @ ys @ zs)) h h' \<and> allocated src h"
proof (cases "ys = []")
  case True
  have "links (h_next h) (h_prev h) [src, src]" using src True by (simp add: is_list_def)
  then have "allocated src h" by (simp add: allocated_def)
  then show ?thesis using True ring list_empty_ok [OF src] by (auto simp: list_splice_between_def changes_def)
next
  case False
  then obtain f t where ft: "ys = f # t" by (cases ys) auto
  define s l where sl: "s = butlast ys" "l = last ys"
  have ys: "f # t = s @ [l]" using False unfolding ft [symmetric] sl by simp
  have d: "distinct (head # xs @ zs)" using ring by (simp add: is_list_def)
  obtain as x y bs where p: "head # xs = as @ [x]" "zs @ [head] = y # bs"
    "x \<notin> set as" "y \<notin> set bs" "x \<notin> set (butlast (y # bs))" "y \<notin> set (tl (as @ [x]))"
    "set (as @ [x]) \<union> set (y # bs) = set (head # xs @ zs)"
    by (rule place [OF d])
  note c = ring_cut [OF ring p(1,2)]
  have ends: "last (head # xs) = x" "hd (zs @ [head]) = y" unfolding p(1,2) by simp_all
  have e: "h_next h src = Some f" "h_prev h src = Some l"
    using ring_ends [OF src] False by (simp_all add: ft sl(2))
  have "links (h_next h) (h_prev h) ([src] @ f # (t @ [src]))" using src by (simp add: is_list_def ft)
  then have pf: "h_prev h f = Some src" and "links (h_next h) (h_prev h) ((f # t) @ [src])" by simp_all
  then have "links (h_next h) (h_prev h) (s @ l # [src])" unfolding ys by simp
  then have nl: "h_next h l = Some src" and body: "links (h_next h) (h_prev h) (f # t)"
    using links_append [of "h_next h" "h_prev h" s l "[src]"] unfolding ys by simp_all
  have new: "distinct (f # t)" "set (f # t) \<inter> (set (as @ [x]) \<union> set (y # bs)) = {}"
    using src disj unfolding p(7) ft by (auto simp: is_list_def)
  have lf: "l \<in> set (f # t)" unfolding ys by simp
  have in_ring: "x \<in> set (as @ [x]) \<union> set (y # bs)" "y \<in> set (as @ [x]) \<union> set (y # bs)" by simp_all
  have neq: "x \<noteq> f" "x \<noteq> l" "y \<noteq> f" "y \<noteq> l" using new(2) lf in_ring by auto
  let ?h = "\<lparr>h_next = (h_next h)(x \<mapsto> f, l \<mapsto> y), h_prev = (h_prev h)(f \<mapsto> x, y \<mapsto> l)\<rparr>"
  have "list_splice_between src x y h = Some ?h"
    using list_empty_ok [OF src] False e pf nl c(3,4) neq
    by (simp add: list_splice_between_def set_prev_def set_next_def)
  moreover have "is_list ?h head (xs @ ys @ zs)"
  proof -
    have "head # (xs @ ys @ zs) @ [head] = as @ x # (f # t) @ y # bs"
      using p(1,2) unfolding ft by (metis append.assoc append_Cons append_Nil)
    moreover have "distinct (head # xs @ ys @ zs)" using d src disj by (auto simp: is_list_def)
    ultimately show ?thesis using links_splice [OF c(1) body c(2) ys p(3-6) new] by (simp add: is_list_def)
  qed
  moreover have "{x, y, f, l} \<subseteq> set (head # xs @ ys @ zs)"
    using in_ring lf unfolding p(7) ft by auto
  then have "changes (set (head # xs @ ys @ zs)) h ?h" by (auto simp: changes_def allocated_def)
  ultimately show ?thesis using ends e by (auto simp: allocated_def)
qed

lemma list_splice_ok:
  assumes "is_list h head xs" "is_list h src ys" "set (head # xs) \<inter> set (src # ys) = {}"
  shows "\<exists>h'. list_splice src head h = Some h' \<and> is_list h' head (ys @ xs) \<and> changes (set (head # ys @ xs)) h h' \<and> allocated src h"
    and "\<exists>h'. list_splice_tail src head h = Some h' \<and> is_list h' head (xs @ ys) \<and> changes (set (head # xs @ ys)) h h' \<and> allocated src h"
  using list_splice_between_ok [of h head "[]" xs src ys] list_splice_between_ok [of h head xs "[]" src ys]
    ring_ends [OF assms(1)] assms
  by (simp_all add: list_splice_def list_splice_tail_def)

lemma list_splice_init_ok:
  assumes "is_list h head xs" "is_list h src ys" "set (head # xs) \<inter> set (src # ys) = {}"
  shows "\<exists>h'. list_splice_init src head h = Some h' \<and> is_list h' head (ys @ xs) \<and> is_list h' src []"
    and "\<exists>h'. list_splice_tail_init src head h = Some h' \<and> is_list h' head (xs @ ys) \<and> is_list h' src []"
proof -
  have src: "src \<notin> set (head # xs @ ys)" using assms(2,3) by (auto simp: is_list_def)
  obtain h1 where h1: "list_splice src head h = Some h1" "is_list h1 head (ys @ xs)" "allocated src h1"
    using list_splice_ok(1) [OF assms] by (auto simp: changes_def)
  moreover obtain h2 where "INIT_LIST_HEAD src h1 = Some h2" "is_list h2 src []" "changes {src} h1 h2"
    using INIT_LIST_HEAD_ok [OF h1(3)] by blast
  ultimately show "\<exists>h'. list_splice_init src head h = Some h' \<and> is_list h' head (ys @ xs) \<and> is_list h' src []"
    using changes_is_list [of "{src}" h1 h2 head "ys @ xs"] src by (simp add: list_splice_init_def)
  obtain h3 where h3: "list_splice_tail src head h = Some h3" "is_list h3 head (xs @ ys)" "allocated src h3"
    using list_splice_ok(2) [OF assms] by (auto simp: changes_def)
  moreover obtain h4 where "INIT_LIST_HEAD src h3 = Some h4" "is_list h4 src []" "changes {src} h3 h4"
    using INIT_LIST_HEAD_ok [OF h3(3)] by blast
  ultimately show "\<exists>h'. list_splice_tail_init src head h = Some h' \<and> is_list h' head (xs @ ys) \<and> is_list h' src []"
    using changes_is_list [of "{src}" h3 h4 head "xs @ ys"] src by (simp add: list_splice_tail_init_def)
qed

subsection \<open>Loops\<close>

text \<open>A body that works on its own state visits the entries in order, and the loop ends.\<close>

definition pure_body :: "(ptr \<Rightarrow> 's \<Rightarrow> 's option) \<Rightarrow> ptr \<Rightarrow> 's \<Rightarrow> heap \<Rightarrow> ('s \<times> heap) option" where
  "pure_body f p s h = do { s \<leftarrow> f p s; Some (s, h) }"

lemma list_for_each_ok:
  assumes "is_list h head (xs @ zs)"
  shows "list_for_each (pure_body f) (hd (zs @ [head])) head s h = do { s \<leftarrow> foldM f zs s; Some (s, h) }"
  using assms
proof (induction zs arbitrary: xs s)
  case Nil
  then show ?case by (simp add: list_for_each.simps)
next
  case (Cons z zs)
  have "z \<noteq> head" using Cons.prems by (auto simp: is_list_def)
  moreover have "h_next h z = Some (hd (zs @ [head]))" using list_unlink_ok [OF Cons.prems] by blast
  moreover have "is_list h head ((xs @ [z]) @ zs)" using Cons.prems by simp
  from Cons.IH [OF this]
  have "list_for_each (pure_body f) (hd (zs @ [head])) head s h = do { s \<leftarrow> foldM f zs s; Some (s, h) }" for s .
  moreover have "pure_body f z s h = do { s \<leftarrow> f z s; Some (s, h) }" by (simp add: pure_body_def)
  ultimately show ?case by (cases "f z s") (simp_all add: list_for_each.simps [of _ z])
qed

lemma ring_prev: "is_list h head (xs @ x # zs) \<Longrightarrow> h_prev h x = Some (last (head # xs))"
  using ring_cut(4) [of h head xs "x # zs" "butlast (head # xs)" "last (head # xs)" x "zs @ [head]"] by simp

lemma list_for_each_prev_ok:
  assumes "is_list h head (xs @ zs)"
  shows "list_for_each_prev (pure_body f) (last (head # xs)) head s h = do { s \<leftarrow> foldM f (rev xs) s; Some (s, h) }"
  using assms
proof (induction xs arbitrary: zs s rule: rev_induct)
  case Nil
  then show ?case by (simp add: list_for_each_prev.simps)
next
  case (snoc x xs)
  have ring: "is_list h head (xs @ x # zs)" using snoc.prems by simp
  then have "x \<noteq> head" by (auto simp: is_list_def)
  moreover have "h_prev h x = Some (last (head # xs))"
    using ring_prev [OF ring] .
  moreover note snoc.IH [OF ring]
  moreover have "pure_body f x s h = do { s \<leftarrow> f x s; Some (s, h) }" by (simp add: pure_body_def)
  ultimately show ?case by (cases "f x s") (simp_all add: list_for_each_prev.simps [of _ x])
qed

text \<open>The safe loop may delete the entry it visits, which the model has as a filter.\<close>

definition delete_if :: "(ptr \<Rightarrow> bool) \<Rightarrow> ptr \<Rightarrow> ptr list \<Rightarrow> heap \<Rightarrow> (ptr list \<times> heap) option" where
  "delete_if P p s h = (if P p then do { h \<leftarrow> list_del p h; Some (s @ [p], h) } else Some (s, h))"

lemma list_for_each_safe_ok:
  assumes "is_list h head (xs @ zs)" "h_next h (hd (zs @ [head])) = Some n"
  shows "\<exists>h'. list_for_each_safe (delete_if P) (hd (zs @ [head])) n head s h = Some (s @ filter P zs, h') \<and>
    is_list h' head (xs @ filter (\<lambda>p. \<not> P p) zs)"
  using assms
proof (induction zs arbitrary: xs s h n)
  case Nil
  then show ?case by (simp add: list_for_each_safe.simps)
next
  case (Cons z zs)
  have z: "z \<noteq> head" using Cons.prems(1) by (auto simp: is_list_def)
  have n: "n = hd (zs @ [head])" using list_unlink_ok [OF Cons.prems(1)] Cons.prems(2) by auto
  have after: "\<exists>m. h_next h1 n = Some m" if r: "is_list h1 head (ys @ zs)" for h1 ys
  proof (cases zs)
    case Nil
    then show ?thesis using n ring_ends(1) [of h1 head ys] r by simp
  next
    case (Cons a as)
    then show ?thesis using n list_unlink_ok [of h1 head ys a as] r by auto
  qed
  show ?case
  proof (cases "P z")
    case True
    obtain h1 where h1: "list_del z h = Some h1" "is_list h1 head (xs @ zs)" using list_del_ok [OF Cons.prems(1)] by blast
    obtain m where m: "h_next h1 n = Some m" using after [OF h1(2)] by blast
    from Cons.IH [OF h1(2), of m "s @ [z]"] m n show ?thesis
      using True z h1(1) by (simp add: list_for_each_safe.simps [of _ z] delete_if_def)
  next
    case False
    have r: "is_list h head ((xs @ [z]) @ zs)" using Cons.prems(1) by simp
    obtain m where m: "h_next h n = Some m" using after [OF r] by blast
    from Cons.IH [OF r, of m s] m n show ?thesis
      using False z by (simp add: list_for_each_safe.simps [of _ z] delete_if_def)
  qed
qed

lemma list_for_each_prev_safe_ok:
  assumes "is_list h head (xs @ zs)" "h_prev h (last (head # xs)) = Some n"
  shows "\<exists>h'. list_for_each_prev_safe (delete_if P) (last (head # xs)) n head s h = Some (s @ filter P (rev xs), h') \<and>
    is_list h' head (filter (\<lambda>p. \<not> P p) xs @ zs)"
  using assms
proof (induction xs arbitrary: zs s h n rule: rev_induct)
  case Nil
  then show ?case by (simp add: list_for_each_prev_safe.simps)
next
  case (snoc x xs)
  have ring: "is_list h head (xs @ x # zs)" using snoc.prems(1) by simp
  have x: "x \<noteq> head" using ring by (auto simp: is_list_def)
  have n: "n = last (head # xs)" using ring_prev [OF ring] snoc.prems(2) by simp
  have after: "\<exists>m. h_prev h1 (last (head # xs)) = Some m" if r: "is_list h1 head (xs @ ys)" for h1 ys
  proof (cases xs rule: rev_cases)
    case Nil
    then show ?thesis using ring_ends(2) [of h1 head ys] r by auto
  next
    case (snoc as a)
    then show ?thesis using ring_prev [of h1 head as a ys] r by simp
  qed
  show ?case
  proof (cases "P x")
    case True
    obtain h1 where h1: "list_del x h = Some h1" "is_list h1 head (xs @ zs)" using list_del_ok [OF ring] by blast
    obtain m where m: "h_prev h1 (last (head # xs)) = Some m" using after [OF h1(2)] by blast
    from snoc.IH [OF h1(2) m, of "s @ [x]"] show ?thesis
      using True x h1(1) m n by (simp add: list_for_each_prev_safe.simps [of _ x] delete_if_def)
  next
    case False
    obtain m where m: "h_prev h (last (head # xs)) = Some m" using after [OF ring] by blast
    from snoc.IH [OF ring m, of s] show ?thesis
      using False x m n by (simp add: list_for_each_prev_safe.simps [of _ x] delete_if_def)
  qed
qed

subsection \<open>What the program relies on\<close>

text \<open>
  The clients of list.h append entries that are in no list, and take out entries that are in
  the list: their lists are filled in order and an entry leaves by its identity.
\<close>

locale entry_list =
  fixes content :: "'h \<Rightarrow> 'p list \<Rightarrow> bool"
    and fresh :: "'p \<Rightarrow> 'h \<Rightarrow> bool"
    and enter :: "'p \<Rightarrow> 'h \<Rightarrow> 'h option"
    and leave :: "'p \<Rightarrow> 'h \<Rightarrow> 'h option"
  assumes content_distinct: "content h xs \<Longrightarrow> distinct xs"
    and enter_law: "content h xs \<Longrightarrow> fresh p h \<Longrightarrow> p \<notin> set xs \<Longrightarrow>
      \<exists>h'. enter p h = Some h' \<and> content h' (xs @ [p]) \<and> (\<forall>q. fresh q h \<longrightarrow> fresh q h')"
    and leave_law: "content h (xs @ p # zs) \<Longrightarrow> \<exists>h'. leave p h = Some h' \<and> content h' (xs @ zs)"
begin

lemma enter_all:
  assumes "content h xs" "distinct (xs @ ps)" "\<forall>p \<in> set ps. fresh p h"
  shows "\<exists>h'. foldM enter ps h = Some h' \<and> content h' (xs @ ps)"
  using assms
proof (induction ps arbitrary: h xs)
  case (Cons p ps)
  then obtain h1 where h1: "enter p h = Some h1" "content h1 (xs @ [p])" "\<forall>q. fresh q h \<longrightarrow> fresh q h1"
    using enter_law [of h xs p] by auto
  then show ?case using Cons.IH [OF h1(2)] Cons.prems by auto
qed simp

lemma leave_one:
  assumes "content h xs" "p \<in> set xs"
  shows "\<exists>h'. leave p h = Some h' \<and> content h' (remove1 p xs)"
proof -
  obtain as bs where xs: "xs = as @ p # bs" using assms(2) by (meson split_list)
  then have "remove1 p xs = as @ bs" using content_distinct [OF assms(1)] by (simp add: remove1_append)
  then show ?thesis using leave_law [of h as p bs] assms(1) xs by simp
qed

lemma leave_all:
  assumes "content h xs" "distinct ps" "set ps \<subseteq> set xs"
  shows "\<exists>h'. foldM leave ps h = Some h' \<and> content h' (filter (\<lambda>x. x \<notin> set ps) xs)"
  using assms
proof (induction ps arbitrary: h xs)
  case (Cons p ps)
  have d: "distinct xs" using content_distinct [OF Cons.prems(1)] .
  obtain h1 where h1: "leave p h = Some h1" "content h1 (remove1 p xs)" using leave_one [OF Cons.prems(1)] Cons.prems(3) by auto
  have "set ps \<subseteq> set (remove1 p xs)" using Cons.prems(2,3) d by auto
  then obtain h2 where "foldM leave ps h1 = Some h2" "content h2 (filter (\<lambda>x. x \<notin> set ps) (remove1 p xs))"
    using Cons.IH [OF h1(2)] Cons.prems(2) by auto
  moreover have "filter (\<lambda>x. x \<notin> set ps) (remove1 p xs) = filter (\<lambda>x. x \<notin> set (p # ps)) xs"
    using d by (auto simp: distinct_remove1_removeAll removeAll_filter_not_eq intro!: filter_cong)
  ultimately show ?case using h1(1) by simp
qed simp

end

interpretation ring: entry_list "\<lambda>h. is_list h head" "\<lambda>p h. p \<noteq> head \<and> allocated p h"
  "\<lambda>p. list_add_tail p head" list_del for head
proof
  show "distinct xs" if "is_list h head xs" for h xs using that by (simp add: is_list_def)
  show "\<exists>h'. list_add_tail p head h = Some h' \<and> is_list h' head (xs @ [p]) \<and>
      (\<forall>q. q \<noteq> head \<and> allocated q h \<longrightarrow> q \<noteq> head \<and> allocated q h')"
    if "is_list h head xs" "p \<noteq> head \<and> allocated p h" "p \<notin> set xs" for h xs p
    using list_add_tail_ok [of h head xs p] that by (auto simp: changes_def)
  show "\<exists>h'. list_del p h = Some h' \<and> is_list h' head (xs @ zs)" if "is_list h head (xs @ p # zs)" for h xs p zs
    using list_del_ok [OF that] by blast
qed

text \<open>Both pairs of loops, started where the macros start them.\<close>

lemma forward_loops:
  assumes "is_list h head xs"
  shows "\<exists>p. h_next h head = Some p \<and>
    (\<forall>f s. list_for_each (pure_body f) p head s h = do { s \<leftarrow> foldM f xs s; Some (s, h) }) \<and>
    (\<exists>n. h_next h p = Some n \<and> (\<forall>P. \<exists>h'. list_for_each_safe (delete_if P) p n head [] h = Some (filter P xs, h') \<and>
      is_list h' head (filter (\<lambda>p. \<not> P p) xs)))"
proof -
  have r: "is_list h head ([] @ xs)" using assms by simp
  have "\<exists>n. h_next h (hd (xs @ [head])) = Some n"
    using ring_ends(1) [OF assms] list_unlink_ok [of h head "[]" "hd xs" "tl xs"] assms by (cases xs) auto
  then obtain n where n: "h_next h (hd (xs @ [head])) = Some n" by blast
  show ?thesis
    using ring_ends(1) [OF assms] list_for_each_ok [OF r] list_for_each_safe_ok [OF r n, of _ "[]"] n by auto
qed

lemma backward_loops:
  assumes "is_list h head xs"
  shows "\<exists>p. h_prev h head = Some p \<and>
    (\<forall>f s. list_for_each_prev (pure_body f) p head s h = do { s \<leftarrow> foldM f (rev xs) s; Some (s, h) }) \<and>
    (\<exists>n. h_prev h p = Some n \<and> (\<forall>P. \<exists>h'. list_for_each_prev_safe (delete_if P) p n head [] h = Some (filter P (rev xs), h') \<and>
      is_list h' head (filter (\<lambda>p. \<not> P p) xs)))"
proof -
  have r: "is_list h head (xs @ [])" using assms by simp
  have "\<exists>n. h_prev h (last (head # xs)) = Some n"
    using ring_ends(2) [OF assms] ring_prev [of h head "butlast xs" "last xs" "[]"] assms by (cases "xs = []") auto
  then obtain n where n: "h_prev h (last (head # xs)) = Some n" by blast
  show ?thesis
    using ring_ends(2) [OF assms] list_for_each_prev_ok [OF r] list_for_each_prev_safe_ok [OF r n, of _ "[]"] n
    by (intro exI [of _ "last (head # xs)"]) auto
qed

text \<open>
  The claim list of the model, a list of positions, stands for a ring through the \<open>claim_list\<close>
  members of the blocks.
\<close>

definition claims_at :: "(nat \<Rightarrow> ptr) \<Rightarrow> ptr \<Rightarrow> heap \<Rightarrow> world \<Rightarrow> bool" where
  "claims_at node head h w \<longleftrightarrow> inj node \<and> head \<notin> range node \<and> (\<forall>i. allocated (node i) h) \<and>
     is_list h head (map node (c_claiming_blocks w))"

lemma claims_del:
  assumes at: "claims_at node head h w" and i: "i \<in> set (c_claiming_blocks w)"
  shows "\<exists>h'. list_del (node i) h = Some h' \<and> claims_at node head h' (claim_list_del i w)"
proof -
  have inj: "inj node" and ring: "is_list h head (map node (c_claiming_blocks w))"
    using at by (simp_all add: claims_at_def)
  obtain as bs where l: "c_claiming_blocks w = as @ i # bs" using i by (meson split_list)
  have "distinct (map node (c_claiming_blocks w))" using ring by (simp add: is_list_def)
  then have "i \<notin> set as" using l by (auto simp: distinct_map)
  then have r: "c_claiming_blocks (claim_list_del i w) = as @ bs" by (simp add: claim_list_del_def l remove1_append)
  have "is_list h head (map node as @ node i # map node bs)" using ring l by simp
  from list_del_ok [OF this] obtain h' where "list_del (node i) h = Some h'" "is_list h' head (map node as @ map node bs)"
    "changes (set (head # map node as @ node i # map node bs)) h h'" by blast
  then show ?thesis using at r by (auto simp: claims_at_def changes_def)
qed

lemma claims_add:
  assumes at: "claims_at node head h w" and i: "i \<notin> set (c_claiming_blocks w)"
  shows "\<exists>h'. list_add_tail (node i) head h = Some h' \<and>
    claims_at node head h' (w\<lparr>c_claiming_blocks := c_claiming_blocks w @ [i]\<rparr>)"
proof -
  have "node i \<notin> set (head # map node (c_claiming_blocks w))"
    using at i by (auto simp: claims_at_def dest: injD)
  then obtain h' where "list_add_tail (node i) head h = Some h'" "is_list h' head (map node (c_claiming_blocks w) @ [node i])"
    "changes (insert (node i) (set (head # map node (c_claiming_blocks w)))) h h'"
    using list_add_tail_ok [of h head "map node (c_claiming_blocks w)" "node i"] at by (auto simp: claims_at_def)
  then show ?thesis using at by (auto simp: claims_at_def changes_def)
qed

text \<open>A loop over the ring is the model's loop over the positions.\<close>

lemma claims_each:
  assumes "claims_at node head h w"
  shows "\<exists>p. h_next h head = Some p \<and>
    list_for_each (pure_body (\<lambda>p. f (inv node p))) p head s h = do { s \<leftarrow> foldM f (c_claiming_blocks w) s; Some (s, h) }"
proof -
  have ring: "is_list h head ([] @ map node (c_claiming_blocks w))" and inj: "inj node"
    using assms by (simp_all add: claims_at_def)
  have "foldM (\<lambda>p. f (inv node p)) (map node xs) s = foldM f xs s" for xs s
    using inj by (induction xs arbitrary: s) (simp_all add: inv_f_f cong: Option.bind_cong)
  then show ?thesis using list_for_each_ok [OF ring, of "\<lambda>p. f (inv node p)" s] ring_ends(1) [of h head] ring by simp
qed

end
