(* ===== verification/Debug_Output.thy ===== *)
theory Debug_Output
  imports Logger Dhcp_Packet Control
begin

text \<open>
  The functions that only print: \<open>printf_dhcp\<close> of dhcp_packet.c and the callback of netlink.c.
  The reader of DHCP messages is modelled without its call of \<open>printf_dhcp\<close>; what that call
  prints, and when it is undefined, is shown here.
\<close>

subsection \<open>DHCP messages\<close>

text \<open>A text for \<open>%s\<close>: without a NUL in its array, \<open>printf\<close> reads past the end of it.\<close>

definition c_string :: "u8 list \<Rightarrow> string option" where
  "c_string bs = (if 0 \<in> set bs then Some (map (char_of \<circ> unat) (takeWhile (\<lambda>b. b \<noteq> 0) bs)) else None)"

definition printf_option :: "dhcp_packet \<Rightarrow> nat \<Rightarrow> world \<Rightarrow> world option" where
  "printf_option packet i w = do {
     option \<leftarrow> nth_opt (d_options packet) i;
     let head = ''DHCP OPTION [ code '' @ dec (unat (o_code option)) @ '', length '' @ dec (unat (o_len option));
     if o_len option = 1 then do {
       b \<leftarrow> nth_opt (o_payload option) 0;
       Some (DEBUG (head @ '', value '' @ dec (unat b) @ '' ]'' @ newline) w) }
     else if o_code option = DHCP_CODE_PARAMETER_REQUEST_LIST then do {
       let w = DEBUG (head @ '', value '') w;
       w \<leftarrow> foldM (\<lambda>k w. do {
           b \<leftarrow> nth_opt (o_payload option) k;
           Some (LOG (dec (unat b) @ '' '') w) }) [0..<unat (o_len option)] w;
       Some (LOG ('']'' @ newline) w) }
     else Some (DEBUG (head @ '' ]'' @ newline) w) }"

text \<open>The texts of the header are read only when the message is printed.\<close>

definition printf_dhcp :: "dhcp_packet \<Rightarrow> world \<Rightarrow> world option" where
  "printf_dhcp packet w = do {
     let w = DEBUG (''BOOTP [ op '' @ dec (unat (d_op packet)) @ '', htype '' @ dec (unat (d_htype packet))
       @ '', hlen '' @ dec (unat (d_hlen packet)) @ '', hops '' @ dec (unat (d_hops packet))
       @ '', xid '' @ dec (unat (d_xid packet)) @ '', secs '' @ dec (unat (d_secs packet))
       @ '', flags '' @ dec (unat (d_flags packet)) @ '', ciaddr '' @ inet_ntoa (d_ciaddr packet) @ '', '') w;
     let w = DEBUG (''yiaddr '' @ inet_ntoa (d_yiaddr packet) @ '', '') w;
     let w = DEBUG (''siaddr '' @ inet_ntoa (d_siaddr packet) @ '', '') w;
     w \<leftarrow> (if w_log_level w \<ge> LOG_DEBUG then do {
         sname \<leftarrow> c_string (d_sname packet);
         file \<leftarrow> c_string (d_file packet);
         Some (DEBUG (''giaddr '' @ inet_ntoa (d_giaddr packet) @ '', sname: '' @ sname @ '', file: '' @ file @ '' ]'' @ newline) w) }
       else Some w);
     foldM (printf_option packet) [0..<unat (d_options_len packet)] w }"

lemma logger_level [simp]: "w_log_level (logger l p m w) = w_log_level w"
  by (simp add: logger_def)

lemma log_levels_kept [simp]:
  "w_log_level (DEBUG m w) = w_log_level w" "w_log_level (LOG m w) = w_log_level w"
  by (simp_all add: log_macros)

text \<open>What is printed for an option whose payload is there, and for the options that are.\<close>

definition option_report :: "dhcp_option \<Rightarrow> world \<Rightarrow> world" where
  "option_report x w =
     (let head = ''DHCP OPTION [ code '' @ dec (unat (o_code x)) @ '', length '' @ dec (unat (o_len x))
      in if o_len x = 1 then DEBUG (head @ '', value '' @ dec (unat (o_payload x ! 0)) @ '' ]'' @ newline) w
         else if o_code x = DHCP_CODE_PARAMETER_REQUEST_LIST
         then LOG ('']'' @ newline) (fold (\<lambda>b. LOG (dec (unat b) @ '' '')) (take (unat (o_len x)) (o_payload x))
           (DEBUG (head @ '', value '') w))
         else DEBUG (head @ '' ]'' @ newline) w)"

lemma printf_option_eq:
  assumes "nth_opt (d_options p) i = Some x" "readable x"
  shows "printf_option p i w = Some (option_report x w)"
proof -
  have "nth_opt (o_payload x) 0 = Some (o_payload x ! 0)" if "o_len x = 1"
    using assms(2) that by (auto simp: readable_def nth_opt_def)
  moreover have "foldM (\<lambda>k v. do { b \<leftarrow> nth_opt (o_payload x) k; Some (LOG (dec (unat b) @ '' '') v) }) [0..<unat (o_len x)] v
      = Some (fold (\<lambda>b. LOG (dec (unat b) @ '' '')) (take (unat (o_len x)) (o_payload x)) v)" for v
    using assms(2) by (intro foldM_read) (simp add: readable_def)
  ultimately show ?thesis using assms(1) by (simp add: printf_option_def option_report_def Let_def)
qed

lemma printf_options:
  assumes "wf_dhcp_packet p"
  shows "foldM (printf_option p) [0..<unat (d_options_len p)] w = Some (fold option_report (sent_options p) w)"
proof -
  have n: "unat (d_options_len p) \<le> length (d_options p)" using assms by (simp add: wf_dhcp_packet_def)
  have x: "printf_option p i v = do { x \<leftarrow> nth_opt (d_options p) i; Some (option_report x v) }"
    if "i < unat (d_options_len p)" for i v
  proof -
    have "d_options p ! i \<in> set (take (unat (d_options_len p)) (d_options p))"
      using that n by (auto simp: in_set_conv_nth intro!: exI [of _ i])
    then have "readable (d_options p ! i)" using assms by (simp add: wf_dhcp_packet_def)
    moreover have "nth_opt (d_options p) i = Some (d_options p ! i)" using that n by (simp add: nth_opt_def)
    ultimately show ?thesis by (simp add: printf_option_eq)
  qed
  have "foldM (printf_option p) [0..<unat (d_options_len p)] w =
      foldM (\<lambda>i v. do { x \<leftarrow> nth_opt (d_options p) i; Some (option_report x v) }) [0..<unat (d_options_len p)] w"
    using x by (intro foldM_cong) simp
  also have "\<dots> = Some (fold option_report (sent_options p) w)" using foldM_read [OF n] by (simp add: sent_options_def)
  finally show ?thesis .
qed

text \<open>
  On a packet that is there as a whole, printing is undefined exactly when the level is
  \<open>DEBUG\<close> and one of the two texts of the header is not ended.
\<close>

lemma printf_dhcp_undefined:
  assumes "wf_dhcp_packet p"
  shows "printf_dhcp p w = None \<longleftrightarrow> LOG_DEBUG \<le> w_log_level w \<and> (0 \<notin> set (d_sname p) \<or> 0 \<notin> set (d_file p))"
  by (simp add: printf_dhcp_def printf_options [OF assms] c_string_def Let_def)

text \<open>
  Below that level nothing should be printed, but the payload of every list of requested
  parameters is.
\<close>

definition leaked :: "dhcp_option \<Rightarrow> io list" where
  "leaked x = (if o_len x \<noteq> 1 \<and> o_code x = DHCP_CODE_PARAMETER_REQUEST_LIST
     then concat (map (\<lambda>b. [Err_text [], Err_text (dec (unat b) @ '' '')]) (take (unat (o_len x)) (o_payload x)))
       @ [Err_text [], Err_text ('']'' @ newline)]
     else [])"

lemma option_report_quiet:
  assumes "-1 \<le> w_log_level w" "w_log_level w < LOG_DEBUG"
  shows "option_report x w = w\<lparr>w_out := w_out w @ leaked x\<rparr>"
proof -
  have d: "DEBUG m w = w" for m using assms(2) by (simp add: DEBUG_def logger_def)
  have l: "fold (\<lambda>b. LOG (f b)) bs v = v\<lparr>w_out := w_out v @ concat (map (\<lambda>b. [Err_text [], Err_text (f b)]) bs)\<rparr>"
    if "-1 \<le> w_log_level v" for f :: "u8 \<Rightarrow> string" and bs v
    using that by (induction bs arbitrary: v) (simp_all add: LOG_def logger_def)
  show ?thesis using assms(1) l [OF assms(1)] by (simp add: option_report_def leaked_def Let_def d LOG_def logger_def)
qed

lemma printf_dhcp_quiet:
  assumes "wf_dhcp_packet p" "-1 \<le> w_log_level w" "w_log_level w < LOG_DEBUG"
  shows "printf_dhcp p w = Some (w\<lparr>w_out := w_out w @ concat (map leaked (sent_options p))\<rparr>)"
proof -
  have d: "DEBUG m w = w" for m using assms(3) by (simp add: DEBUG_def logger_def)
  have "fold option_report xs v = v\<lparr>w_out := w_out v @ concat (map leaked xs)\<rparr>"
    if "-1 \<le> w_log_level v" "w_log_level v < LOG_DEBUG" for xs v
    using that by (induction xs arbitrary: v) (simp_all add: option_report_quiet)
  then show ?thesis using assms(2,3) by (simp add: printf_dhcp_def printf_options [OF assms(1)] d Let_def)
qed

subsection \<open>Messages of netlink\<close>

text \<open>What the callback looks at in a message; the types and the flag are those of Linux.\<close>

record nl_msg =
  nlmsg_type :: u16
  ifi_index :: int
  ifi_flags :: u32

definition RTM_NEWLINK :: u16 where "RTM_NEWLINK = 16"
definition RTM_DELLINK :: u16 where "RTM_DELLINK = 17"
definition IFF_UP :: u32 where "IFF_UP = 1"

definition callback :: "int \<Rightarrow> nl_msg \<Rightarrow> world \<Rightarrow> int \<times> world" where
  "callback server_interface msg w =
     (let w = DEBUG (''netlink_callback(...): callback triggered'' @ newline) w;
          iface = ''netlink_callback(...): iface('' @ dec_int (ifi_index msg);
          w = (if nlmsg_type msg = RTM_NEWLINK
               then let w = (if server_interface = ifi_index msg
                       then DEBUG (''netlink_callback(...): action on server interface'' @ newline) w else w)
                    in if and (ifi_flags msg) IFF_UP \<noteq> 0 then DEBUG (iface @ '') up'' @ newline) w
                       else DEBUG (iface @ '') down'' @ newline) w
               else w);
          w = (if nlmsg_type msg = RTM_DELLINK then DEBUG (iface @ '') deleted'' @ newline) w else w)
      in (0, w))"

text \<open>The callback reports success, and leaves nothing but messages at level \<open>DEBUG\<close>.\<close>

definition says :: "world \<Rightarrow> world \<Rightarrow> bool" where
  "says w w' \<longleftrightarrow> (\<exists>out. w' = w\<lparr>w_out := w_out w @ out\<rparr>)"

lemma says_DEBUG: "says w v \<Longrightarrow> says w (DEBUG m v)"
proof -
  assume "says w v"
  then obtain out where v: "v = w\<lparr>w_out := w_out w @ out\<rparr>" by (auto simp: says_def)
  show ?thesis
    unfolding says_def DEBUG_def logger_def v
    by (cases "LOG_DEBUG \<le> w_log_level w") (simp_all, rule exI [of _ "out @ [Err_text ''DEBUG: '', Err_text m]"], simp,
      rule exI [of _ out], simp)
qed

lemma callback_prints: "fst (callback i msg w) = 0" "says w (snd (callback i msg w))"
proof -
  have "says w w" unfolding says_def by (rule exI [of _ "[]"]) simp
  then show "fst (callback i msg w) = 0" "says w (snd (callback i msg w))"
    by (simp_all add: callback_def says_DEBUG Let_def)
qed

lemma callback_quiet: "w_log_level w < LOG_DEBUG \<Longrightarrow> callback i msg w = (0, w)"
  by (simp add: callback_def DEBUG_def logger_def Let_def)

end
