(* ===== verification/Spec2Isabelle.thy ===== *)
theory Spec2Isabelle
  imports Example_Run Linked_List Debug_Output
begin

text \<open>
  ddhcpd is a distributed DHCP server. Nodes of one layer 2 network divide an IPv4 network
  into blocks of equal size, claim blocks of each other by multicast messages, and lease the
  addresses of their own blocks to their clients. A client whose address lies in the block of
  another node is served by asking that node. This library models the daemon, its control
  client and the lists it is built on, and proves what they do.

  \<^bold>\<open>The parts and how they interact.\<close> The event loop of main.c reads datagrams and commands and
  calls the handlers: messages about blocks go to ddhcp.c and block.c, messages about leases
  to ddhcp.c and dhcp.c, messages of clients to dhcp.c, commands to control.c. When a handler
  or the clock asks for it, \<open>house_keeping\<close> expires claims and leases, gives up blocks the
  node has no need for, claims new ones and announces its own. All of them work on one
  \<open>ddhcp_config\<close>, which is the record \<open>world\<close> here.

  \<^bold>\<open>Which theory models what.\<close>
  \<^item> \<open>Prelude\<close>: the option monad, \<open>ok\<close>, loops over a state, lemmas on lists and words.
    \<open>Types\<close>: types.h, the packets of packet.h and dhcp_packet.h, \<open>world\<close>, the calls to the
    environment. \<open>Bytes\<close>: memory and wire formats, the locale \<open>codec\<close> of a reader that undoes
    a writer. \<open>Tools\<close>, \<open>Hook\<close>: tools.c, hook.c. \<open>State\<close>: the invariant \<open>wf_state\<close>.
  \<^item> \<open>Options\<close>: dhcp_options.c, with the locale \<open>option_store\<close> of a store that is a map.
    \<open>Dhcp_Packet\<close>: dhcp_packet.c. \<open>Packet\<close>: packet.c.
  \<^item> \<open>Lease\<close>: the lease scans of dhcp.c. \<open>Block\<close>: block.c; its lemmas are in \<open>Block_Inv\<close>
    (the invariant, what may change), \<open>Block_Claim\<close>, \<open>Block_Refresh\<close>, \<open>Block_Ops\<close>
    (the specification of each operation).
  \<^item> \<open>Dhcp\<close>: the handlers of dhcp.c; lemmas in \<open>Dhcp_Answer\<close>, \<open>Dhcp_Inv\<close>,
    \<open>Dhcp_Request\<close>, \<open>Dhcp_Decide\<close> (the policy they refine), \<open>Dhcp_Serve\<close>.
  \<^item> \<open>Ddhcp\<close>: ddhcp.c; lemmas in \<open>Ddhcp_Inv\<close>, \<open>Ddhcp_Lease\<close>, \<open>Cache_Frame\<close>, and in
    \<open>Roaming\<close> for two nodes that serve one client.
  \<^item> \<open>Sockets\<close>: netsock.c, netlink.c, epoll.c, and what main.c does with descriptors;
    \<open>Sockets_Inv\<close> shows which are open at any time.
  \<^item> \<open>House_Keeping\<close>, \<open>Main_Loop\<close>, \<open>Config\<close>: main.c, that is the periodic pass, the event
    loop with the shutdown, and the command line with the start. \<open>Program\<close>: \<open>main\<close> as a whole, with the
    signals. \<open>Daemon\<close> makes a transition system of
    the loop, \<open>Progress\<close> tells which iterations always complete.
  \<^item> \<open>Control\<close>: control.c, statistics.c and what the commands print. \<open>Control_Client\<close>
    and \<open>Session\<close>: ddhcpctl.c, first its command line, then the connection and a whole
    session with the daemon. \<open>Numbers\<close>: the functions of the C library that read numbers.
  \<^item> \<open>Linked_List\<close>: list.h on a memory of pointers, with the locale \<open>entry_list\<close>.
    \<open>Logger\<close>: logger.c, logger.h. \<open>Debug_Output\<close>: \<open>printf_dhcp\<close> and the callback of netlink.c.
  \<^item> \<open>Example\<close>: a small network on which the properties are applied; \<open>Example_Run\<close> starts
    and ends the daemon in it.

  A definition has the name of the C function it models; a loop is a function of its own,
  named after its body. Integers have their C width (\<open>u8\<close>, \<open>u16\<close>, \<open>u32\<close>), so they wrap as
  the code's do; \<open>time_t\<close> and the statistics counters are unbounded.

  \<^bold>\<open>Undefined behaviour and errors.\<close> An operation is a function of the state into an
  option. \<open>None\<close> is undefined behaviour: reading through a NULL pointer, leaving an array, dividing
  by zero. The program is the production build, with \<open>-DNDEBUG\<close>, in which no \<open>assert\<close> is
  evaluated. An address that is computed from a NULL pointer and not used, as in
  \<open>dhcp_hdl_request\<close> when a lease array could not be allocated, is not counted as undefined; the
  access that follows is. \<open>Some (r, w)\<close> is a return of \<open>r\<close> in the state \<open>w\<close>; error codes are
  values \<open>r\<close>. A cached request whose copy ran out of memory has a number of options but lacks
  the options; releasing such a packet reads them. A packet that can be released is \<open>whole\<close>, and
  the properties on house keeping, the loop and the shutdown say what depends on it. Where a
  theorem says that something holds of a call, the call is shown to be \<open>Some\<close> first, and the
  properties \<open>house_keeping_contract\<close>, \<open>request_undefined_exactly\<close>, \<open>stale_acknowledgement\<close>,
  \<open>dhcp_reader_exact\<close> and, for the shutdown, \<open>iteration_completes\<close> say exactly when the code
  is not. For \<open>configure\<close> and \<open>ctl_main\<close>,
  \<open>Inl\<close> is a call of \<open>exit\<close>.

  \<^bold>\<open>The environment.\<close> \<open>time\<close>, \<open>rand\<close>, the allocator and \<open>sendto\<close> are streams of results in
  the state, about which nothing is assumed: the clock may jump, every allocation and every
  datagram may fail. What is sent, run or printed is the trace \<open>w_out\<close>. The kernel's side of
  the descriptors is the record \<open>kernel\<close>: which are open and registered is computed as the
  documentation of the calls says, whether a call succeeds is a stream again. \<open>nl_connect\<close> of
  libnl is a parameter in it, of which \<open>nl_fresh\<close> says that it opens a new descriptor. What \<open>epoll_wait\<close>
  reports, the datagrams, and what \<open>getopt\<close> finds are inputs. A property that needs memory, a
  network or a steady clock has that as a hypothesis.

  \<^bold>\<open>What the properties show.\<close> The first twelve are about the whole: the invariant over all
  runs, the program from its command line to its end, safety against every datagram, a roaming client over two nodes, house keeping, and the
  refinement of the policy for requests. They rest on the lemmas of each component. The next
  are about single operations: conflicts between claims, inquiries, claiming, refreshing,
  timeouts, the messages on the wire, which are written and read back exactly, the options of an answer, the option
  store and the map from addresses to leases. The last are about the start and the end of the
  daemon, about the sessions of the control client, and about list.h and the lists the model
  uses.

  \<^bold>\<open>Bounds and termination.\<close> No definition uses fuel. Every loop recurses over the blocks,
  bytes or options it has left, so every call ends; the loops of list.h alone may run round
  a broken ring forever and are \<open>partial_function\<close>s, shown to return on every ring. The
  receive buffer has 1500 bytes as in the code; an announcement carries at most
  \<open>UPDATE_CLAIM_MAX_BLOCKS\<close> blocks.

  \<^bold>\<open>Not modelled.\<close> Messages for the log are part of the trace only where the configuration
  is reported; elsewhere the calls of logger.c are left out, also that of \<open>printf_dhcp\<close> in the
  reader of DHCP messages, whose undefined behaviour at the level \<open>DEBUG\<close> is stated in
  \<open>Debug_Output\<close>. A signal is seen between two turns of the loop, and what \<open>send\<close> and \<open>recv\<close>
  do for the client is an input. \<open>container_of\<close> is the identity: an entry of a list is named by
  the address of its links. A hang-up is reported for connections only. Memory that is not
  freed is not seen: the model knows which lease arrays are there, but not which others.
\<close>

section \<open>The daemon\<close>

text \<open>
  C1: From a well-formed state every state the daemon reaches is well formed, whatever the
  datagrams, commands and events are and however clock, allocator and network behave: blocks,
  leases, claim list, option store and packet cache keep their invariant, the configuration
  parameters and the identity of the node stay, the receive buffer keeps its size, and besides
  the descriptors the process was started with exactly its sockets and the connections that
  wait for an answer are open, of which none was closed twice.
\<close>

theorem daemon_invariant:
  assumes "wf_state w" "countable_leases w" "c_dhcp_packet_cache w = []" "length buffer = BUFSIZE"
    and "sockets_ok base so" "reachable (loop_start learning buffer so w) s"
  shows "wf_state (s_config s) \<and> same_params w (s_config s) \<and> length (s_buffer s) = BUFSIZE \<and>
    (\<forall>p \<in> set (c_dhcp_packet_cache (s_config s)). cached p) \<and> sockets_ok base (s_sockets s)"
  using reachable_ok [OF assms(6) loop_start_ok [OF assms(1-5)]] by (simp add: loop_ok_def daemon_ok_def)

theorem daemon_invariant_witness:
  "wf_state (s_config ((loop_start True (replicate BUFSIZE 0) demo_sockets demo)\<lparr>s_dhcp := [[1, 2, 3]]\<rparr>))"
proof -
  let ?s = "loop_start True (replicate BUFSIZE 0) demo_sockets demo"
  have "daemon_step ?s (?s\<lparr>s_dhcp := s_dhcp ?s @ [[1, 2, 3]]\<rparr>)" by (rule dhcp_arrives)
  then have "reachable ?s (?s\<lparr>s_dhcp := [[1, 2, 3]]\<rparr>)"
    using reachable.step [OF reachable.start] by (simp add: loop_start_def Let_def time_null_def)
  from daemon_invariant [OF demo_wf demo_countable _ _ demo_sockets_ok this] show ?thesis by simp
qed

text \<open>
  C2: The program as a whole, \<open>main\<close> with any command line it accepts whose network has room for
  a block and whose blocks can be allocated, any sequence of turns of the loop and any
  signals, runs through well-formed states: it ends at a call of \<open>exit\<close> or \<open>abort\<close> with 1, 2 or \<open>SIGABRT\<close>, or it has shut such a state down (lists empty, no descriptor closed
  twice, control socket removed last), or it still runs in one, with the configured parameters
  and no descriptors but those it was started with, its sockets and its connections. It always
  returns, unless a datagram of a client or a direct datagram is received.
\<close>

theorem program_runs:
  assumes "configure errno opts (snd (time_null w)) = Some (Inr g)" "length (c_node_id w) = 8"
    and "fst (ddhcp_block_init (g_config g)) = 0" "length memory = BUFSIZE" "started k" "nl_fresh k"
    and "\<forall>t \<in> set turns. turn_ok t"
  shows "case main errno opts memory k turns w of
      None \<Rightarrow> \<exists>t \<in> set turns. \<not> harmless_turn t
    | Some r \<Rightarrow> program_sound k g r"
  using assms by (rule main_ok)

theorem program_runs_witness:
  "\<exists>s. main False [] (replicate BUFSIZE 0) demo_kernel [last_turn] demo = Some (Stopped s) \<and>
    c_blocks (s_config s) = [] \<and> k_stray (so_kernel (s_sockets s)) = []"
proof -
  obtain g where g: "configure False [] demo = Some (Inr g)" "fst (ddhcp_block_init (g_config g)) = 0" by (rule demo_configured)
  obtain s where s: "main False [] (replicate BUFSIZE 0) demo_kernel [last_turn] demo = Some (Stopped s)"
    using demo_main by blast
  have "turn_ok last_turn" by (simp add: turn_ok_def last_turn_def)
  then have "program_sound demo_kernel g (Stopped s)"
    using program_runs [of False "[]" demo g "replicate BUFSIZE 0" demo_kernel "[last_turn]"] g s demo_kernel_ok by simp
  then show ?thesis using s by (auto simp: program_sound_def shut_down_def)
qed

text \<open>
  C3: Whatever datagram a node of the network sends, \<open>ddhcp_block_process\<close> returns without
  undefined behaviour and keeps the invariant of the state, and every block is left alone,
  changed as one of the claims of the message allows (\<open>taken_rel\<close>: an owned block goes to
  a node whose identifier is not lower than the own one, an equal one included, and only if
  the message names it), or changed as one of its inquiries allows (\<open>inquired_rel\<close>: an owned block is never given up). The list
  of blocks being claimed is untouched.
\<close>

theorem block_messages_safe:
  assumes "wf_state w" "16 \<le> length buffer" "0 \<le> len" "len \<le> int (length buffer)" "length sender = 16"
  shows "ok (ddhcp_block_process buffer len sender w) (\<lambda>w'.
    evolves (block_msg_rel buffer len sender w) w w' \<and> same_claims w w')"
  using assms by (rule ddhcp_block_process_ok)

theorem block_messages_safe_witness:
  "ok (ddhcp_block_process (replicate 1500 0) 44 peer_address demo) (\<lambda>w'.
    evolves (block_msg_rel (replicate 1500 0) 44 peer_address demo) demo w' \<and> same_claims demo w')"
  by (rule block_messages_safe [OF demo_wf]) simp_all



text \<open>
  C5: House keeping does its duties in order: leases and claims that have run out go, blocks
  are claimed when free leases are short and given back when a whole block is to spare, and
  the claims on owned blocks are announced again (\<open>housekept\<close>). In the state \<open>x\<close> this leads
  to the packet cache is as it was, and the requests that are overdue leave it. The whole pass
  is undefined exactly when one of these overdue requests has lost its options, because
  its copy ran out of memory when it was stored: they are read when it is released.
\<close>

theorem house_keeping_contract:
  assumes "wf_state w" "countable_leases w"
  shows "\<exists>x. keeps w x \<and> housekept w x \<and> c_dhcp_packet_cache x = c_dhcp_packet_cache w \<and>
    house_keeping w =
      (if \<forall>p \<in> set (c_dhcp_packet_cache w). d_timeout p < shd (w_times x) \<longrightarrow> unat (d_options_len p) \<le> length (d_options p)
       then Some (x\<lparr>w_times := stl (w_times x),
         c_dhcp_packet_cache := filter (\<lambda>p. \<not> d_timeout p < shd (w_times x)) (c_dhcp_packet_cache w)\<rparr>)
       else None)"
proof -
  obtain x where x: "keeps w x" "housekept w x" "c_dhcp_packet_cache x = c_dhcp_packet_cache w"
    "house_keeping w = (if overdue_whole x then Some (cache_swept x) else None)"
    using house_keeping_eq [OF assms] by blast
  show ?thesis
    by (intro exI [of _ x] conjI x(1-3)) (simp add: x(3,4) overdue_whole_def cache_swept_def whole_def)
qed

theorem house_keeping_contract_witness: "\<exists>x. housekept demo x \<and> house_keeping demo = Some (x\<lparr>w_times := stl (w_times x)\<rparr>)"
proof -
  obtain x where "housekept demo x" "c_dhcp_packet_cache x = []"
    "house_keeping demo = Some (x\<lparr>w_times := stl (w_times x), c_dhcp_packet_cache := []\<rparr>)"
    using house_keeping_contract [OF demo_wf demo_countable] by auto
  then show ?thesis by (intro exI [of _ x]) simp
qed

text \<open>
  C6: House keeping takes no lease away that has not run out: while the block's own claim is
  alive and the lease ends after every reading of the clock, its client keeps it unchanged.
  This holds of every pass that returns, and a pass can fail to return only when a cached
  request has lost its options.
\<close>

theorem house_keeping_keeps_leases:
  assumes "wf_state w" "countable_leases w" "holds w chaddr i j" "shd (w_times w) \<le> b_timeout (c_blocks w ! i)"
    and "\<forall>t \<in> sset (w_times w). t \<le> l_lease_end (block_leases (c_blocks w ! i) ! j)"
  shows "case house_keeping w of
      None \<Rightarrow> \<exists>p \<in> set (c_dhcp_packet_cache w). \<not> whole p
    | Some w' \<Rightarrow> holds w' chaddr i j \<and> block_leases (c_blocks w' ! i) ! j = block_leases (c_blocks w ! i) ! j"
proof (cases "house_keeping w")
  case None
  then have "\<not> whole_cache w" using house_keeping_ok [OF assms(1,2)] by auto
  then show ?thesis using None by (simp add: whole_cache_def)
next
  case (Some w')
  then show ?thesis using house_keeping_lease [OF assms Some] by simp
qed

theorem house_keeping_keeps_leases_witness:
  "ok (house_keeping demo) (\<lambda>w'. holds w' client 0 0 \<and> block_leases (c_blocks w' ! 0) ! 0 = held_lease)"
  using house_keeping_keeps_leases [OF demo_wf demo_countable demo_holds]
  by (cases "house_keeping demo") (simp_all add: demo_block_def block_leases_def held_lease_def)

section \<open>Serving clients\<close>

text \<open>
  C7: The handler of requests implements the policy \<open>decides\<close>: it grants the lease that is
  free, offered to this transaction or already the client's, forwards a request for a block
  of another node, refuses, or stays silent, and does what the decision says (\<open>performs\<close>).
  The policy allows exactly one decision.
\<close>

theorem request_refines_policy:
  assumes "wf_state w" "wf_dhcp_packet request" "requested_address request \<noteq> None" "\<not> out_of_memory request w"
  shows "(\<exists>!d. decides request w d) \<and>
    ok (dhcp_hdl_request request w) (\<lambda>(r, w'). \<exists>d. decides request w d \<and> performs request d w r w')"
proof -
  note handled = dhcp_hdl_request_defined [OF assms]
  then have "\<exists>d. decides request w d" by (auto simp: ok_iff)
  then show ?thesis using handled decides_unique [OF assms(1)] by blast
qed

lemma demo_has_memory: "\<not> out_of_memory request demo"
  by (simp add: out_of_memory_def no_memory_def)

theorem request_refines_policy_witness:
  "ok (dhcp_hdl_request (request_for other_client [10, 0, 0, 2]) demo) (\<lambda>(r, w').
    performs (request_for other_client [10, 0, 0, 2]) (Forward (Suc 0) 0) demo r w')"
proof -
  let ?q = "request_for other_client [10, 0, 0, 2]"
  have "wants ?q demo (Suc 0) 0"
    using request_for_ok [of other_client "[10, 0, 0, 2]"] by (simp add: wants_def) (simp add: demo_def node_addresses)
  then have d: "decides ?q demo (Forward (Suc 0) 0)"
    by (rule decides.foreign) (simp add: demo_block_def)
  have "wf_dhcp_packet ?q" "requested_address ?q \<noteq> None" by (simp_all add: request_for_ok)
  note policy = request_refines_policy [OF demo_wf this demo_has_memory]
  then have "d' = Forward (Suc 0) 0" if "decides ?q demo d'" for d' using d that by blast
  with conjunct2 [OF policy] show ?thesis by (elim ok_mono) blast
qed

text \<open>
  C8: The handler of requests has undefined behaviour in two cases and no other: fewer than
  four bytes can be read behind the requested address option, or the lease array of a
  block of another node is missing and cannot be allocated, after which a refusal is sent
  and the lease is written through the null pointer all the same.
\<close>

theorem request_undefined_exactly:
  assumes "wf_state w" "wf_dhcp_packet request"
  shows "dhcp_hdl_request request w = None \<longleftrightarrow> requested_address request = None \<or> out_of_memory request w"
  using assms by (rule dhcp_hdl_request_None)

theorem request_undefined_exactly_witness:
  "dhcp_hdl_request (request_for client [10, 0, 0, 2]) (demo\<lparr>w_allocs := sconst False\<rparr>) = None"
proof -
  let ?w = "demo\<lparr>w_allocs := sconst False\<rparr>"
  note r = request_for_ok [of client "[10, 0, 0, 2]"]
  have "wf_state ?w" using demo_wf by simp
  moreover have "lease_address ?w (Suc 0) 0 = lease_address demo (Suc 0) 0"
    by (simp add: lease_address_def block_subnet_def)
  then have "wants (request_for client [10, 0, 0, 2]) ?w (Suc 0) 0"
    using r by (simp add: wants_def) (simp add: demo_def node_addresses)
  then have "out_of_memory (request_for client [10, 0, 0, 2]) ?w"
    unfolding out_of_memory_def
    by (intro exI [of _ "Suc 0"] exI [of _ 0]) (simp add: no_memory_def demo_block_def)
  ultimately show ?thesis using request_undefined_exactly r(1) by simp
qed

text \<open>
  C9: A datagram of a client is rejected, or it is a packet that may be read whole and is
  served as its message type asks, with enough memory and four bytes of buffer behind it;
  whatever it asks for, the leases other clients hold stay as they are. House keeping is
  called for only when an offer could not be made. There is one kind of datagram that is
  neither: with padding between fewer than 256 other options, a message type among them,
  the reader writes behind its array (\<open>padded\<close>).
\<close>

theorem client_message_served:
  assumes "wf_state w" "len + 4 \<le> int (length buffer)" "reliable w"
  shows "case ntoh_dhcp_packet buffer len w of
      None \<Rightarrow> dhcp_process buffer len w = None \<and> padded buffer len
    | Some (ret, v) \<Rightarrow> ok (dhcp_process buffer len w) (\<lambda>(r, w'). case ret of
        Inl _ \<Rightarrow> r = 0 \<and> w' = v
      | Inr p \<Rightarrow> spares (d_chaddr p) w w' \<and> (\<exists>t. dhcp_packet_message_type p = Some t \<and> served t p v r w'))"
proof (cases "ntoh_dhcp_packet buffer len w")
  case None
  then show ?thesis using ntoh_dhcp_packet_None [OF _ None] assms(2) by (simp add: dhcp_process_def)
next
  case (Some q)
  then show ?thesis using dhcp_process_ok [OF assms(1) _ assms(2,3)] by (cases q) simp
qed

theorem client_message_served_witness:
  "ok (dhcp_process (dhcp_packet_bytes (request_for other_client [10, 0, 0, 0]) @ [0, 0, 0, 0])
      (int (length (dhcp_packet_bytes (request_for other_client [10, 0, 0, 0])))) demo)
    (\<lambda>(r, w'). spares other_client demo w')"
proof -
  let ?q = "request_for other_client [10, 0, 0, 0]" and ?r = "[0, 0, 0, 0] :: u8 list"
  note r = request_for_ok [of other_client "[10, 0, 0, 0]"]
  have so: "sent_options ?q = [message_type_option DHCPREQUEST, address_option [10, 0, 0, 0]]"
    by (simp add: request_for_def client_packet_options)
  have "unat (d_options_len ?q) \<le> 254" by (simp add: request_for_def client_packet_def)
  then obtain qs where "ntoh_dhcp_packet (dhcp_packet_bytes ?q @ ?r) (int (length (dhcp_packet_bytes ?q))) demo =
      Some (Inr (?q\<lparr>d_timeout := 0, d_options_len := d_options_len ?q + 1, d_options := qs\<rparr>),
        demo\<lparr>w_allocs := stl (w_allocs demo)\<rparr>)"
    using dhcp_round_trip [OF r(1) _ r(7), of demo ?r]
    by (auto simp: so plain_code_def message_type_option_def address_option_def dhcp_codes)
  with client_message_served [OF demo_wf, of "int (length (dhcp_packet_bytes ?q))" "dhcp_packet_bytes ?q @ ?r"]
  show ?thesis by (auto elim!: ok_mono simp: r)
qed

text \<open>
  C10: No request takes a lease from the client that holds it: a request with another
  hardware address leaves the lease and the ownership of its block untouched.
\<close>

theorem request_never_steals:
  assumes "wf_state w" "wf_dhcp_packet request" "addressable request" "shd (w_allocs w)"
    and "holds w chaddr i j" "chaddr \<noteq> d_chaddr request"
  shows "ok (dhcp_hdl_request request w) (\<lambda>(r, w').
    block_leases (c_blocks w' ! i) ! j = block_leases (c_blocks w ! i) ! j \<and>
    b_state (c_blocks w' ! i) = DDHCP_OURS)"
  using assms by (rule request_keeps_leases)

theorem request_never_steals_witness:
  "ok (dhcp_hdl_request (request_for other_client [10, 0, 0, 0]) demo) (\<lambda>(r, w').
    block_leases (c_blocks w' ! 0) ! 0 = held_lease)"
  using request_never_steals [OF demo_wf _ _ _ demo_holds, of "request_for other_client [10, 0, 0, 0]"]
  by (auto elim!: ok_mono simp: request_for_ok client_def other_client_def demo_block_def block_leases_def)

text \<open>
  C11: A discover is answered with the first free lease of the owned block that was claimed
  first, which is reserved for the client for twelve seconds; without a free lease it is
  ignored with code 3, and only a lack of memory gives code 1.
\<close>

theorem discover_offers:
  assumes "wf_state w" "wf_dhcp_packet discover"
  shows "ok (dhcp_hdl_discover discover w) (\<lambda>(r, w').
    c_dhcp_packet_cache w' = c_dhcp_packet_cache w \<and> same_claims w w' \<and>
    (r = 3 \<and> quiet w w' \<and> w_out w' = w_out w \<and> (\<forall>i < num_blocks w. \<not> has_lease w i) \<or>
     r = 1 \<and> \<not> reliable w \<and> quiet w w' \<and> w_out w' = w_out w \<or>
     (\<exists>i j. offers discover w i j r w')))"
  using assms by (rule dhcp_hdl_discover_ok)

theorem discover_offers_witness:
  "ok (dhcp_hdl_discover (client_packet other_client [message_type_option DHCPDISCOVER]) demo)
    (\<lambda>(r, w'). c_dhcp_packet_cache w' = [])"
proof -
  have "wf_dhcp_packet (client_packet other_client [message_type_option DHCPDISCOVER])"
    by (rule wf_client_packet) (simp_all add: readable_def message_type_option_def)
  from discover_offers [OF demo_wf this] show ?thesis by (auto elim!: ok_mono)
qed

text \<open>
  C12: A release frees a lease of an owned block only when it comes from the hardware
  address the lease is recorded for, and touches nothing else.
\<close>

theorem release_needs_holder:
  assumes "wf_state w" "wf_dhcp_header p"
  shows "ok (dhcp_hdl_release p w) (\<lambda>w'.
    c_dhcp_packet_cache w' = c_dhcp_packet_cache w \<and> same_claims w w' \<and>
    (w' = w \<or> (\<exists>i j. i < num_blocks w \<and> j < unat (c_block_size w) \<and>
       b_state (c_blocks w ! i) = DDHCP_OURS \<and> d_ciaddr p = lease_address w i j \<and>
       evolves (lease_rel i j (released (d_chaddr p))) w w')))"
  using assms by (rule dhcp_hdl_release_ok)

theorem release_needs_holder_witness:
  "ok (dhcp_hdl_release ((client_packet client [])\<lparr>d_ciaddr := [10, 0, 0, 0]\<rparr>) demo) (\<lambda>w'. c_dhcp_packet_cache w' = [])"
proof -
  have "wf_dhcp_header ((client_packet client [])\<lparr>d_ciaddr := [10, 0, 0, 0]\<rparr>)"
    using client_packet_header [of client "[]"] by (simp add: wf_dhcp_header_def)
  from release_needs_holder [OF demo_wf this] show ?thesis by (auto elim!: ok_mono)
qed

text \<open>
  C13: An inform changes no lease, and is acknowledged without an address unless memory is
  short. The code adds no lease time to the acknowledgement: as long as at most 252 of the
  options the client asks for are in the store, there is a lease time in it exactly when the
  client names that option in its parameter request list and the store has it.
\<close>

theorem inform_grants_nothing:
  assumes "wf_state w" "wf_dhcp_packet request"
  shows "ok (dhcp_hdl_inform request w) (\<lambda>w'. quiet w w' \<and>
    (answer_sent DHCPACK False request zero_addr [] w w' \<or> \<not> reliable w \<and> w_out w' = w_out w)) \<and>
    (\<forall>p. answer_for DHCPACK False request (c_options w) p \<longrightarrow> length (asked_options request (c_options w)) \<le> 252 \<longrightarrow>
      ((\<exists>x \<in> set (sent_options p). o_code x = DHCP_CODE_ADDRESS_LEASE_TIME) \<longleftrightarrow>
       asks_for request DHCP_CODE_ADDRESS_LEASE_TIME \<and>
       find_in_option_store (c_options w) DHCP_CODE_ADDRESS_LEASE_TIME \<noteq> None))"
  using dhcp_hdl_inform_ok [OF assms] no_lease_time_added [of DHCPACK request "c_options w"]
  by (simp add: answer_for_def)

theorem inform_grants_nothing_witness:
  "ok (dhcp_hdl_inform (client_packet client [message_type_option DHCPINFORM]) demo) (\<lambda>w'. quiet demo w')"
proof -
  have "wf_dhcp_packet (client_packet client [message_type_option DHCPINFORM])"
    by (rule wf_client_packet) (simp_all add: readable_def message_type_option_def)
  from inform_grants_nothing [OF demo_wf this] show ?thesis by (auto elim!: ok_mono)
qed

section \<open>Sharing the network\<close>

text \<open>
  C14: Two nodes that believe they own the same block and announce it to each other settle
  the conflict: after both have read the other's claim exactly the node with the higher
  identifier owns the block, and the other one knows it.
\<close>

theorem claim_conflict_settled:
  assumes "wf_state w" "wf_state v" "same_network w v" "c_node_id w \<noteq> c_node_id v"
    and "length ks \<le> UPDATE_CLAIM_MAX_BLOCKS" "\<forall>k \<in> set ks. k < num_blocks v"
    and "length js \<le> UPDATE_CLAIM_MAX_BLOCKS" "\<forall>k \<in> set js. k < num_blocks w"
    and "hton_packet (update_packet v ks) = Some bs" "hton_packet (update_packet w js) = Some cs"
    and "shd (w_allocs w)" "shd (w_allocs v)" "length a = 16" "length b = 16"
    and "k \<in> set ks" "k \<in> set js" "ours w k" "ours v k"
  shows "ok (ddhcp_block_process bs (int (length bs)) b w) (\<lambda>w'.
    ok (ddhcp_block_process cs (int (length cs)) a v) (\<lambda>v'.
      if memcmp (c_node_id w) (c_node_id v) < 0 then \<not> ours w' k \<and> ours v' k \<and> b_node_id (c_blocks w' ! k) = c_node_id v
      else ours w' k \<and> \<not> ours v' k \<and> b_node_id (c_blocks v' ! k) = c_node_id w))"
  using assms by (rule claim_conflict_ok)

theorem claim_conflict_settled_witness:
  "\<exists>bs cs. ok (ddhcp_block_process bs (int (length bs)) peer_address demo) (\<lambda>w'.
    ok (ddhcp_block_process cs (int (length cs)) peer_address rival) (\<lambda>v'. \<not> ours w' 0 \<and> ours v' 0))"
proof -
  obtain bs cs where m: "hton_packet (update_packet rival [0]) = Some bs" "hton_packet (update_packet demo [0]) = Some cs"
    using ntoh_hton_lemma [of "update_packet rival [0]" rival] ntoh_hton_lemma [of "update_packet demo [0]" demo]
      wf_update_packet [OF rival_wf] wf_update_packet [OF demo_wf]
    by (force simp: rival_def demo_def UPDATE_CLAIM_MAX_BLOCKS_def)
  have "memcmp own_id peer_id < 0" by code_simp
  with claim_conflict_settled [OF demo_wf rival_wf _ _ _ _ _ _ m, of peer_address peer_address 0] show ?thesis
    by (intro exI [of _ bs] exI [of _ cs])
      (auto simp: same_network_def demo_def rival_def UPDATE_CLAIM_MAX_BLOCKS_def ours_def demo_block_def own_id_def peer_id_def
        elim!: ok_mono)
qed

text \<open>
  C15: An inquiry for owned blocks is answered with the node's claims of them: whatever is sent
  on it is a multicast of at most thirty-two claims of owned blocks, and when memory, network
  and clock work every inquired block the node owns is in one of them (\<open>notifies\<close>). The
  ownership never changes; a block the node is claiming itself is left to a node with a higher
  identifier, any other becomes tentative.
\<close>

theorem inquiries_answered:
  assumes "wf_state w" "unat (m_count p) = length (payload_list p)"
  shows "ok (ddhcp_block_process_inquire p w) (\<lambda>w'.
    evolves (inquired_rel (set (payload_list p)) p (shd (w_times w)) w) w w' \<and> same_claims w w' \<and>
    notifies w (\<lambda>k. names (set (payload_list p)) k \<and> ours w k) w')"
  using assms by (rule process_inquires_ok)

definition inquiry_for_first :: "world \<Rightarrow> ddhcp_mcast_packet" where
  "inquiry_for_first w = (inquire_packet w)\<lparr>m_count := 1, m_body := Payload [claim_payload w 0]\<rparr>"

theorem inquiries_answered_witness:
  "ok (ddhcp_block_process_inquire (inquiry_for_first peer) demo) (\<lambda>w'. wf_state w' \<and>
    (\<exists>ks bs. 0 \<in> set ks \<and> hton_packet (update_packet demo ks) = Some bs \<and> Mcast_send bs \<in> set (w_out w')))"
proof -
  let ?p = "inquiry_for_first peer"
  have p: "unat (m_count ?p) = length (payload_list ?p)" "names (set (payload_list ?p)) 0"
    by (simp_all add: inquiry_for_first_def inquire_packet_def payload_list_def names_def claim_payload_def)
      (simp add: peer_def demo_block_def node_world_def)
  have d: "ours demo 0" "working demo" "w_out demo = []" "0 < num_blocks demo"
    by (simp_all add: ours_def demo_block_def working_def)
  from inquiries_answered [OF demo_wf p(1)] show ?thesis
    using p(2) d
    by (elim ok_mono) (fastforce simp: notifies_def owned_datagram_def claim_datagram_def dest: evolvesD(1))
qed

text \<open>
  C16: Claiming makes progress. With memory and network at hand every block announced three
  times is owned, the list of claims is filled up to the number asked for or all free
  blocks are on it, and one inquiry names them; the counters tell how often they have been
  announced. Without, the code is \<open>-ENOMEM\<close> or success and the state is well formed.
\<close>

theorem claiming_progresses:
  assumes "wf_state w" "num \<le> 255"
  shows "ok (block_claim num w) (\<lambda>(r, w'). claimed_post num w r w')"
  using assms by (rule block_claim_post)

theorem claiming_progresses_witness:
  "ok (block_claim 2 demo) (\<lambda>(r, w'). claimed_post 2 demo r w' \<and> claim_progress 2 demo w')"
  using claiming_progresses [OF demo_wf, of 2] by (auto elim!: ok_mono simp: claimed_post_def)

text \<open>
  C17: Refreshing announces owned blocks in datagrams of at most thirty-two claims, a timeout
  moves only with a datagram that names the block, and with memory and network at hand no
  owned block is left with a claim that is due.
\<close>

theorem claims_refreshed:
  assumes "wf_state w"
  shows "ok (block_update_claims w) (refreshed_post w)"
  using assms by (rule block_update_claims_ok)

theorem claims_refreshed_witness:
  "ok (block_update_claims demo) (\<lambda>w'. refresh_due demo \<le> b_timeout (c_blocks w' ! 0))"
  using claims_refreshed [OF demo_wf]
  by (rule ok_mono) (auto simp: refreshed_post_def ours_def demo_block_def)

text \<open>
  C18: The timeout pass frees every block whose claim has run out, expires the leases of the
  others at a reading of the clock, and frees a block of another node with its last lease.
\<close>

theorem timeouts_checked:
  assumes "wf_state w"
  shows "ok (block_check_timeouts w) (\<lambda>w'. same_claims w w' \<and> calm w w' \<and>
    evolves (check_rel (w_times w) (shd (w_times w))) w w')"
  using assms by (rule block_check_timeouts_ok)

theorem timeouts_checked_witness:
  "ok (block_check_timeouts demo) (\<lambda>w'. b_addresses (c_blocks w' ! 0) = Some [held_lease, zero_lease])"
  using timeouts_checked [OF demo_wf]
proof (rule ok_mono)
  fix w' assume "same_claims demo w' \<and> calm demo w' \<and> evolves (check_rel (w_times demo) (shd (w_times demo))) demo w'"
  then have "check_rel (sconst 1000) 1000 0 (c_blocks demo ! 0) (c_blocks w' ! 0)"
    using evolvesD(5) [of "check_rel (sconst 1000) 1000" demo w' 0] by simp
  then show "b_addresses (c_blocks w' ! 0) = Some [held_lease, zero_lease]"
    by (auto simp: check_rel_def checked_def demo_block_def with_leases_def expire_def held_lease_def zero_lease_def)
qed

text \<open>
  C19: Only an owned block without leases is given back: the one owned for the shortest time,
  which is marked first and freed when the mark is \<open>block_needless_timeout\<close> seconds old.
\<close>

theorem unused_block_dropped:
  assumes "wf_state w"
  shows "ok (block_drop_unused w) (\<lambda>w'. \<exists>r. same_claims w w' \<and> calm w w' \<and>
    best (idle w) (\<lambda>i. - b_first_claimed (c_blocks w ! i)) (num_blocks w) r \<and>
    evolves (drop_rel w (shd (w_times w)) r) w w')"
  using assms by (rule block_drop_unused_ok)

theorem unused_block_dropped_witness: "ok (block_drop_unused peer) (\<lambda>w'. wf_state w' \<and> w_out w' = [])"
  using unused_block_dropped [OF peer_wf]
  by (rule ok_mono) (auto simp: calm_def peer_def dest: evolvesD(1))

text \<open>
  C20: The number of blocks to claim is exactly what brings the free leases back to the
  required number, is negative exactly when a whole block is to spare, and fits the
  counter of claims.
\<close>

theorem blocks_needed_exact:
  fixes spare block_size :: u8
  assumes "block_size \<noteq> 0" "free < 2 ^ 31"
  shows "\<exists>n. blocks_needed spare block_size (of_nat free) = Some n \<and> n \<le> 255 \<and>
    (n > 0 \<longleftrightarrow> uint spare > int free) \<and> (n < 0 \<longleftrightarrow> int free - uint spare \<ge> uint block_size) \<and>
    (n > 0 \<longrightarrow> uint spare \<le> int free + n * uint block_size \<and> int free + (n - 1) * uint block_size < uint spare)"
proof -
  obtain n where n: "blocks_needed spare block_size (of_nat free) = Some n"
    "n > 0 \<longleftrightarrow> uint spare - int free > 0"
    "uint spare - int free > 0 \<Longrightarrow>
      (n - 1) * uint block_size < uint spare - int free \<and> uint spare - int free \<le> n * uint block_size"
    "n < 0 \<longleftrightarrow> - (uint spare - int free) \<ge> uint block_size" "n \<le> 255"
    using blocks_needed_eq [OF assms, of spare] by blast
  show ?thesis by (intro exI [of _ n]) (use n in auto)
qed

theorem blocks_needed_exact_witness: "blocks_needed 7 4 2 = Some 2"
proof -
  obtain n where n: "blocks_needed 7 4 (of_nat 2) = Some n" "n > 0" "7 \<le> 2 + n * 4" "2 + (n - 1) * 4 < 7"
    using blocks_needed_exact [of 4 2 7] by auto
  then have "n = 2" by simp
  with n(1) show ?thesis by simp
qed

text \<open>
  \<open>block_num_owned\<close> does not count the owned blocks: its pointer stays on the first
  block, and the result is the number of all blocks or zero.
\<close>

theorem num_owned_counts_first_block:
  assumes "wf_state w"
  shows "block_num_owned w =
    Some (if 0 < num_blocks w \<and> b_state (c_blocks w ! 0) = DDHCP_OURS then c_number_of_blocks w else 0)"
  using assms by (rule block_num_owned_eq)

theorem num_owned_counts_first_block_witness:
  "block_num_owned demo = Some 4 \<and> length (filter (\<lambda>b. b_state b = DDHCP_OURS) (c_blocks demo)) = 1"
  using num_owned_counts_first_block [OF demo_wf] by (simp add: demo_block_def) (simp add: demo_def demo_block_def)

section \<open>Messages between nodes\<close>

text \<open>
  C21: A direct datagram is rejected without effect, or it is a renewal, acknowledgement or
  refusal of this network that is served, as long as the cached requests name an address
  and the blocks they wait for have their leases.
\<close>

theorem direct_messages_served:
  assumes "wf_state w" "16 \<le> length buffer" "0 \<le> len" "len \<le> int (length buffer)" "cache_ok w" "ack_ready w"
  shows "ok (ddhcp_dhcp_process buffer len sender w) (\<lambda>w'. \<exists>r v. ntoh_mcast_packet buffer len w = Some (r, v) \<and>
    (case r of Inl _ \<Rightarrow> w' = v
     | Inr p \<Rightarrow> if ddhcp_check_packet p w = 0 then direct_served p sender v w' else w' = v))"
  using assms by (rule ddhcp_dhcp_process_ok)

theorem direct_messages_served_witness:
  "ok (ddhcp_dhcp_process (replicate 1500 0) 44 peer_address demo) (\<lambda>w'.
    \<exists>r v. ntoh_mcast_packet (replicate 1500 0) 44 demo = Some (r, v))"
proof -
  have "cache_ok demo" "ack_ready demo" by (simp_all add: cache_ok_def ack_ready_def)
  from direct_messages_served [OF demo_wf _ _ _ this, of "replicate 1500 0" 44 peer_address] show ?thesis
    by (auto elim!: ok_mono)
qed

text \<open>
  C22: An acknowledgement for a waiting request, which is as \<open>daemon_invariant\<close> describes it
  (\<open>cached\<close>), has undefined behaviour in two cases and no other: the address the request
  names cannot be read, because its option has fewer than four bytes or the options of the
  request have been lost, or there is memory for an answer and the address belongs to a block
  of another node whose leases are gone, for example because the claim on it has timed out
  since. The code then writes through the null pointer.
\<close>

theorem stale_acknowledgement:
  assumes "wf_state w" "cached p"
  shows "dhcp_rhdl_ack p w = None \<longleftrightarrow> requested_address p = None \<or>
    shd (w_allocs w) \<and> (\<exists>i j. ack_at p w i j \<and> b_addresses (c_blocks w ! i) = None)"
  using assms rhdl_ack_None [of w p] by (auto simp: cached_def dhcp_rhdl_ack_def)

theorem stale_acknowledgement_witness: "dhcp_rhdl_ack (request_for other_client [10, 0, 0, 2]) demo = None"
proof -
  let ?q = "request_for other_client [10, 0, 0, 2]"
  have "ack_address ?q = [10, 0, 0, 2]" by (simp add: ack_address_def request_for_ok)
  then have "ack_at ?q demo (Suc 0) 0"
    by (simp add: ack_at_def demo_block_def) (simp add: demo_def node_addresses)
  moreover have "b_addresses (c_blocks demo ! Suc 0) = None" by (simp add: demo_block_def)
  moreover have "wf_dhcp_packet ?q" by (simp add: request_for_ok)
  then have "cached ?q" by (simp add: cached_def wf_dhcp_packet_def)
  ultimately show ?thesis using stale_acknowledgement [OF demo_wf, of ?q] by auto
qed

text \<open>
  C23: A message the program writes is read back as it was, whatever follows it in the
  receive buffer, and has the size its command and count announce.
\<close>

theorem message_written_is_read:
  assumes "wf_mcast p" "shd (w_allocs w)"
  shows "\<exists>bs. hton_packet p = Some bs \<and> int (length bs) = packet_size (m_command p) (uint (m_count p)) \<and>
    ntoh_mcast_packet (bs @ r) (int (length bs)) w = Some (Inr p, w\<lparr>w_allocs := stl (w_allocs w)\<rparr>)"
  using assms by (rule ntoh_hton_lemma)

theorem message_written_is_read_witness:
  "\<exists>bs. hton_packet (update_packet demo [0]) = Some bs \<and> length bs = 23 \<and>
    ntoh_mcast_packet (bs @ [1, 2, 3]) 23 demo = Some (Inr (update_packet demo [0]), demo\<lparr>w_allocs := sconst True\<rparr>)"
proof -
  have "wf_mcast (update_packet demo [0])"
    by (rule wf_update_packet [OF demo_wf]) (simp_all add: UPDATE_CLAIM_MAX_BLOCKS_def)
  moreover have "packet_size (m_command (update_packet demo [0])) (uint (m_count (update_packet demo [0]))) = 23"
    by (simp add: update_packet_def packet_size_def ddhcp_msgs)
  ultimately show ?thesis using message_written_is_read [of "update_packet demo [0]" demo "[1, 2, 3]"] by auto
qed

text \<open>
  C24: The reader accepts exactly what the writer can have written: an accepted message is
  well formed, its bytes are the ones the writer produces for it, and it fills the datagram.
  A message to release a lease is never accepted: its command has no size.
\<close>

theorem message_read_is_written:
  assumes "ntoh_mcast_packet buffer len w = Some (Inr p, w')" "0 \<le> len"
  shows "wf_mcast p \<and> m_command p \<noteq> DDHCP_MSG_RELEASE \<and>
    (\<exists>bs r. hton_packet p = Some bs \<and> buffer = bs @ r \<and> len = int (length bs))"
  using hton_ntoh_lemma [OF assms] ntoh_release_lemma [OF assms] by blast

theorem message_read_is_written_witness:
  "\<exists>bs. ntoh_mcast_packet bs (int (length bs)) demo = Some (Inr (update_packet demo [0]), demo\<lparr>w_allocs := sconst True\<rparr>) \<and>
    hton_packet (update_packet demo [0]) = Some bs \<and> wf_mcast (update_packet demo [0])"
proof -
  have wf: "wf_mcast (update_packet demo [0])"
    by (rule wf_update_packet [OF demo_wf]) (simp_all add: UPDATE_CLAIM_MAX_BLOCKS_def)
  obtain bs where "ntoh_mcast_packet bs (int (length bs)) demo = Some (Inr (update_packet demo [0]), demo\<lparr>w_allocs := sconst True\<rparr>)"
    using ntoh_hton_lemma [OF wf, of demo "[]"] by auto
  with message_read_is_written [OF this] show ?thesis by auto
qed

section \<open>DHCP messages\<close>

text \<open>
  C25: A DHCP packet that is sent, with up to 254 options and without padding, is read back
  by the same reader with the same header and options, and the end mark as one more option.
\<close>

theorem dhcp_written_is_read:
  assumes "wf_dhcp_packet p" "\<forall>x \<in> set (sent_options p). plain_code (o_code x)"
    and "has_message_type (sent_options p)" "unat (d_options_len p) \<le> 254" "shd (w_allocs w)"
  shows "\<exists>qs. ntoh_dhcp_packet (dhcp_packet_bytes p @ r) (int (length (dhcp_packet_bytes p))) w =
      Some (Inr (p\<lparr>d_timeout := 0, d_options_len := d_options_len p + 1, d_options := qs\<rparr>),
        w\<lparr>w_allocs := stl (w_allocs w)\<rparr>) \<and>
    map option_value qs = map option_value (sent_options p) @ [(DHCP_CODE_END, 0, [])]"
  using assms by (rule dhcp_round_trip)

theorem dhcp_written_is_read_witness:
  "\<exists>qs. ntoh_dhcp_packet (dhcp_packet_bytes (request_for client [10, 0, 0, 1]))
      (int (length (dhcp_packet_bytes (request_for client [10, 0, 0, 1])))) demo =
    Some (Inr ((request_for client [10, 0, 0, 1])\<lparr>d_timeout := 0, d_options_len := 3, d_options := qs\<rparr>),
      demo\<lparr>w_allocs := sconst True\<rparr>)"
proof -
  let ?q = "request_for client [10, 0, 0, 1]"
  have "sent_options ?q = [message_type_option DHCPREQUEST, address_option [10, 0, 0, 1]]"
    by (simp add: request_for_def client_packet_options)
  then have "\<forall>x \<in> set (sent_options ?q). plain_code (o_code x)"
    by (simp add: plain_code_def message_type_option_def address_option_def dhcp_codes)
  moreover have "unat (d_options_len ?q) \<le> 254" "d_options_len ?q + 1 = 3"
    by (simp_all add: request_for_def client_packet_def)
  ultimately show ?thesis
    using dhcp_written_is_read [OF request_for_ok(1) _ request_for_ok(7), of client "[10, 0, 0, 1]" demo "[]"]
    by auto
qed

text \<open>
  C26: On a message whose options stay inside it (\<open>walk\<close>) and name a message type, and with
  memory for them, the reader returns exactly these options if none is padding and there are at most 255. It has
  undefined behaviour exactly when there is padding among fewer than 256 other options: padding
  is not counted by its first pass but stored by the second, behind the end of the array.
  With 256 or more other options it returns, with their number cut to eight bits: the
  counter of the second pass wraps and the first places are written again.
\<close>

theorem dhcp_reader_exact:
  assumes "240 \<le> len" "ntoh_dhcp_header buffer = Some h" "slice buffer 236 4 = Some magic_cookie"
    and "walk buffer (nat len) 240 os" "has_message_type os" "shd (w_allocs w)"
  shows "ntoh_dhcp_packet buffer len w =
    (if unpadded os \<noteq> os \<and> length (unpadded os) < 256 then None
     else Some (Inr (h\<lparr>d_options_len := of_nat (length (unpadded os)), d_options := option_array os\<rparr>),
            w\<lparr>w_allocs := stl (w_allocs w)\<rparr>)) \<and>
    (unpadded os = os \<and> length os \<le> 255 \<longrightarrow> option_array os = os)"
  using ntoh_dhcp_packet_eq [OF assms] option_array_id by blast

theorem dhcp_reader_exact_witness:
  "ntoh_dhcp_packet (replicate 236 0 @ magic_cookie @ [53, 1, 1, 0, 255]) 245 demo = None"
proof -
  let ?b = "replicate 236 0 @ magic_cookie @ [53, 1, 1, 0, 255] :: u8 list"
  let ?os = "[\<lparr>o_code = 53, o_len = 1, o_payload = [1, 0, 255]\<rparr>, \<lparr>o_code = DHCP_CODE_PAD, o_len = 0, o_payload = []\<rparr>,
    \<lparr>o_code = DHCP_CODE_END, o_len = 0, o_payload = []\<rparr>]"
  have at: "nth_opt ?b 240 = Some 53" "nth_opt ?b 241 = Some 1" "nth_opt ?b 243 = Some DHCP_CODE_PAD"
    "nth_opt ?b 244 = Some DHCP_CODE_END" "drop 242 ?b = [1, 0, 255]"
    by (simp_all add: nth_opt_def magic_cookie_def nth_append dhcp_codes)
  have "walk ?b 245 244 [\<lparr>o_code = DHCP_CODE_END, o_len = 0, o_payload = []\<rparr>]"
    by (rule walk.end_mark [OF _ at(4)]) simp
  then have "walk ?b 245 243 (tl ?os)" using walk.pad [of 243 245 ?b] at by simp
  then have "walk ?b 245 240 ?os"
    using walk.plain [of ?b 240 53 1 245 "tl ?os"] at by (simp add: plain_code_def dhcp_codes)
  moreover have "has_message_type ?os" "unpadded ?os \<noteq> ?os" by (simp_all add: has_message_type_def unpadded_def dhcp_codes)
  moreover obtain h where "ntoh_dhcp_header ?b = Some h" using header_ok [of ?b] by (auto simp: magic_cookie_def)
  moreover have "slice ?b 236 4 = Some magic_cookie" by (simp add: slice_ok magic_cookie_def)
  ultimately show ?thesis using dhcp_reader_exact [of 245 ?b h ?os demo] by simp
qed

text \<open>
  C27: Sending a DHCP packet prints its length, emits its header, the cookie, its options and
  the end mark, as one datagram to \<open>ciaddr\<close> unless that is zero or a broadcast is asked for,
  and writes inside the buffer it allocates; without memory nothing is printed or sent.
\<close>

theorem dhcp_writer_exact:
  assumes "wf_dhcp_packet p"
  shows "dhcp_packet_send p w =
    Some (if shd (w_allocs w)
      then sendto (Dhcp_send (dhcp_destination p) (dhcp_packet_bytes p))
        (w\<lparr>w_allocs := stl (w_allocs w), w_out := w_out w @ [length_text (length (dhcp_packet_bytes p))]\<rparr>)
      else (- ENOMEM, w\<lparr>w_allocs := stl (w_allocs w)\<rparr>))"
  using assms by (rule dhcp_packet_send_eq)

theorem dhcp_writer_exact_witness:
  "\<exists>n w'. dhcp_packet_send (request_for client [10, 0, 0, 1]) demo = Some (n, w') \<and>
    w_out w' = [length_text (length (dhcp_packet_bytes (request_for client [10, 0, 0, 1]))),
      Dhcp_send None (dhcp_packet_bytes (request_for client [10, 0, 0, 1]))]"
proof -
  have "dhcp_destination (request_for client [10, 0, 0, 1]) = None"
    by (simp add: dhcp_destination_def request_for_def client_packet_def zero_addr_def)
  then show ?thesis
    using dhcp_writer_exact [OF request_for_ok(1), of client "[10, 0, 0, 1]" demo]
    by (simp add: sendto_def)
qed

section \<open>Options and addresses\<close>

text \<open>
  C28: The options of an answer are those entries of the store that the client asks for, in
  its order, then the server identifier, the lease time unless it answers an inform, and
  the message type, as long as at most 252 of the options asked for are in the store: with
  more, the number of options no longer fits its eight bits. Slots whose option the store
  does not have stay empty.
\<close>

theorem answer_options:
  assumes "wf_dhcp_packet request" "wf_store (c_options w)" "shd (w_allocs w)"
    and "length (asked_options request (c_options w)) \<le> 252"
  shows "\<exists>z. dhcp_default_options msg packet request lease_time w =
    (let found = asked_options request (c_options w);
         os = found @ answer_tail
           (if lease_time then find_in_option_store (c_options w) DHCP_CODE_ADDRESS_LEASE_TIME else None)
           (find_in_option_store (c_options w) DHCP_CODE_SERVER_IDENTIFIER) msg
     in Some ((0, packet\<lparr>d_options_len := of_nat (length os), d_options := os @ replicate z zero_option\<rparr>),
          w\<lparr>w_allocs := stl (w_allocs w)\<rparr>))"
  using assms by (rule dhcp_default_options_eq)

theorem answer_options_witness:
  "\<exists>packet'. dhcp_default_options DHCPACK (client_packet client []) (request_for client [10, 0, 0, 0]) True demo =
      Some ((0, packet'), demo\<lparr>w_allocs := sconst True\<rparr>) \<and>
    sent_options packet' = [server_option, lease_time_option, message_option DHCPACK]"
proof -
  let ?q = "request_for client [10, 0, 0, 0]"
  have "sent_options ?q = [message_type_option DHCPREQUEST, address_option [10, 0, 0, 0]]"
    by (simp add: request_for_def client_packet_options)
  then have a: "asked_options ?q (c_options demo) = []"
    by (simp add: asked_options_def message_type_option_def address_option_def dhcp_codes)
  have st: "wf_store (c_options demo)" using demo_wf by (simp add: wf_state_def)
  have f: "find_in_option_store (c_options demo) DHCP_CODE_ADDRESS_LEASE_TIME = Some lease_time_option"
    "find_in_option_store (c_options demo) DHCP_CODE_SERVER_IDENTIFIER = Some server_option"
    by (simp_all add: lease_time_option_def server_option_def dhcp_codes)
  have "wf_dhcp_packet ?q" by (simp add: request_for_ok)
  from answer_options [OF this st, of DHCPACK "client_packet client []" True] obtain z where
    "dhcp_default_options DHCPACK (client_packet client []) ?q True demo = Some ((0, (client_packet client [])
        \<lparr>d_options_len := 3, d_options := [server_option, lease_time_option, message_option DHCPACK] @
          replicate z zero_option\<rparr>), demo\<lparr>w_allocs := sconst True\<rparr>)"
    by (auto simp: a f simp del: demo_simps(5))
  then show ?thesis by (intro exI conjI) (assumption, simp add: sent_options_def)
qed

text \<open>
  C29: The option store is a finite map from codes to options: storing replaces or adds the
  entry of its code, removing takes it away, and both keep one entry per code.
\<close>

theorem option_store_is_map:
  assumes "valid_codes s"
  shows "find_in_option_store (set_option_in_store s x) = (find_in_option_store s)(o_code x \<mapsto> x) \<and>
    find_in_option_store (remove_option_in_store s c) = (find_in_option_store s)(c := None) \<and>
    valid_codes (set_option_in_store s x) \<and> valid_codes (remove_option_in_store s c)"
  using assms st.valid_store st.valid_delete by (auto simp: fun_eq_iff st.lookup_store st.lookup_delete)

theorem option_store_is_map_witness:
  "find_in_option_store (remove_option_in_store [lease_time_option, server_option] DHCP_CODE_SERVER_IDENTIFIER)
      DHCP_CODE_SERVER_IDENTIFIER = None"
proof -
  have "valid_codes [lease_time_option, server_option]"
    by (simp add: valid_codes_def lease_time_option_def server_option_def dhcp_codes)
  from option_store_is_map [OF this, of server_option DHCP_CODE_SERVER_IDENTIFIER] show ?thesis by simp
qed

text \<open>
  C30: After a successful start every default option is in the store, the user's own options
  unchanged; the subnet mask has the first \<open>prefix_len\<close> bits set and the host part of the
  broadcast address is all ones.
\<close>

theorem defaults_stored:
  assumes "dhcp_options_init w = Some (0, w')" "length (c_prefix w) = 4" "unat (c_prefix_len w) \<le> 32"
  shows "(\<forall>(c, p) \<in> set (default_options (c_prefix_len w) (c_prefix w)).
      find_in_option_store (c_options w') c = (case find_in_option_store (c_options w) c of
        Some x \<Rightarrow> Some x | None \<Rightarrow> Some \<lparr>o_code = c, o_len = 4, o_payload = p\<rparr>)) \<and>
    (\<forall>c x. find_in_option_store (c_options w) c = Some x \<longrightarrow> find_in_option_store (c_options w') c = Some x) \<and>
    be32 (map (mask_octet (c_prefix_len w)) [0, 8, 16, 24]) = not (mask (32 - unat (c_prefix_len w))) \<and>
    be32 (map (\<lambda>k. broadcast_octet (c_prefix_len w) k 0) [8, 16, 24, 32]) = mask (32 - unat (c_prefix_len w))"
proof -
  let ?ds = "default_options (c_prefix_len w) (c_prefix w)"
  have f: "fold init_step ?ds (0, w) = (0, w')" using assms(1,2) by (auto simp: dhcp_options_init_def)
  have l: "\<forall>(c, p) \<in> set ?ds. length p = 4" using assms(2) by (rule default_options_lengths)
  have "\<forall>(c, p) \<in> set ?ds. find_in_option_store (c_options w') c = (case find_in_option_store (c_options w) c of
        Some x \<Rightarrow> Some x | None \<Rightarrow> Some \<lparr>o_code = c, o_len = 4, o_payload = p\<rparr>)"
    using fold_init_step_done [OF f l default_options_distinct] by blast
  then show ?thesis
    using fold_init_step [OF f l] mask_octets [OF assms(3)] host_octets [OF assms(3)] by blast
qed

theorem defaults_stored_witness:
  "\<exists>w'. dhcp_options_init demo = Some (0, w') \<and>
    find_in_option_store (c_options w') DHCP_CODE_SUBNET_MASK =
      Some \<lparr>o_code = DHCP_CODE_SUBNET_MASK, o_len = 4, o_payload = [255, 255, 255, 248]\<rparr>"
proof -
  have "take_opt 4 (c_prefix demo) = Some [10, 0, 0, 0]" by simp
  then obtain r w' where rw: "dhcp_options_init demo = Some (r, w')"
    by (cases "fold init_step (default_options (c_prefix_len demo) [10, 0, 0, 0]) (0, demo)")
      (simp add: dhcp_options_init_def)
  moreover have "r = 0"
    using rw
    by (simp add: dhcp_options_init_def default_options_def init_step_def init_option_def calloc_def Let_def
        split: if_split_asm)
  ultimately have i: "dhcp_options_init demo = Some (0, w')" by simp
  have "c_prefix_len demo = 29" by (simp add: demo_def)
  moreover have "map (mask_octet 29) [0, 8, 16, 24] = [255, 255, 255, 248]" by code_simp
  moreover have "find_in_option_store (c_options demo) DHCP_CODE_SUBNET_MASK = None"
    by (simp add: lease_time_option_def server_option_def dhcp_codes)
  ultimately show ?thesis
    using defaults_stored [OF i] i by (auto simp: default_options_def)
qed

text \<open>
  C31: The leases of the blocks number the addresses of the network: looking an address up
  never leaves the blocks, finds the one block and lease it belongs to and whether the node
  owns that block, and reports an address outside the network as such.
\<close>

theorem address_lookup:
  assumes "wf_state w" "length a = 4"
  shows "case find_lease_from_address a w of
      None \<Rightarrow> False
    | Some (found, None, n) \<Rightarrow> found = 2 \<and> (\<forall>i j. i < num_blocks w \<longrightarrow> j < unat (c_block_size w) \<longrightarrow> a \<noteq> lease_address w i j)
    | Some (found, Some i, n) \<Rightarrow> i < num_blocks w \<and> unat n < unat (c_block_size w) \<and> a = lease_address w i (unat n) \<and>
        found = (if b_state (c_blocks w ! i) = DDHCP_OURS then 0 else 1) \<and>
        (\<forall>i' j'. i' < num_blocks w \<longrightarrow> j' < unat (c_block_size w) \<longrightarrow> a = lease_address w i' j' \<longrightarrow> i' = i \<and> j' = unat n)"
  using assms
proof (cases rule: find_lease_cases)
  case (inside i j)
  have n: "unat (of_nat j :: u32) = j"
    using inside(2) unat_u8_less [of "c_block_size w"] by (intro of_nat_inverse) simp_all
  have "i' = i \<and> j' = j"
    if "i' < num_blocks w" "j' < unat (c_block_size w)" "a = lease_address w i' j'" for i' j'
    using lease_address_inj [OF assms(1), of i j i' j'] inside(1-3) that by simp
  then show ?thesis unfolding inside(4) prod.case option.case n using inside(1-3) by blast
qed simp

theorem address_lookup_witness:
  "\<exists>n. find_lease_from_address [10, 0, 0, 1] demo = Some (0, Some 0, n) \<and> unat n = 1"
proof -
  have "length [10, 0, 0, 1 :: u8] = 4" by simp
  note l = address_lookup [OF demo_wf this]
  have at: "[10, 0, 0, 1] = lease_address demo 0 (Suc 0)" by (simp add: demo_def node_addresses)
  have size: "0 < num_blocks demo" "Suc 0 < unat (c_block_size demo)" by simp_all
  obtain f b n where f: "find_lease_from_address [10, 0, 0, 1] demo = Some (f, b, n)"
    using l by (cases "find_lease_from_address [10, 0, 0, 1] demo") auto
  show ?thesis
  proof (cases b)
    case None
    then show ?thesis using l at size unfolding f None prod.case option.case by blast
  next
    case (Some i)
    note u = l [unfolded f Some prod.case option.case]
    have "0 = i \<and> Suc 0 = unat n" using u at size by blast
    moreover have "f = (if b_state (c_blocks demo ! i) = DDHCP_OURS then 0 else 1)" using u by blast
    ultimately show ?thesis using f Some by (auto simp: demo_block_def)
  qed
qed

text \<open>
  C32: A command on the control socket is refused without effect when it is empty, when one
  that shows blocks or options has more than its one byte, or when one that sets or removes an
  option or sets the log level is too short for what it carries. It is answered with an error
  when its code is unknown. Every other one, the commands on the statistics at any length and
  those that set or remove something with whatever bytes follow, has exactly the
  effect and the output \<open>command_effect\<close> describes.
\<close>

theorem command_handled:
  assumes "wf_state w" "num_blocks w < 2 ^ 31" "buffer \<noteq> []" "msglen \<le> int (length buffer)" "two_allocs buffer w"
  shows "handle_command buffer msglen w = Some
    (if malformed buffer msglen then (-2, w)
     else if known_command (buffer ! 0) then (0, command_effect buffer w) else (-1, w))"
  using handle_command_refused [OF assms(3,4), of w] handle_command_unknown [OF assms(3), of msglen w]
    handle_command_eq [OF assms(1-4) _ _ assms(5)]
  by (cases "malformed buffer msglen"; cases "known_command (buffer ! 0)"; cases "msglen = 0") (simp_all add: malformed_def)

theorem command_handled_witness:
  "handle_command [3, 42, 2, 9, 9] 5 demo = Some (0, command_effect [3, 42, 2, 9, 9] demo) \<and>
    handle_command [3, 42, 2, 9, 9] 4 demo = Some (-2, demo) \<and> handle_command [8] 1 demo = Some (-1, demo)"
proof -
  have "num_blocks demo < 2 ^ 31" by simp
  note h = command_handled [OF demo_wf this]
  have "two_allocs b demo" for b by (simp add: two_allocs_def)
  with h [of "[3, 42, 2, 9, 9]" 5] h [of "[3, 42, 2, 9, 9]" 4] h [of "[8]" 1] show ?thesis
    by (simp add: malformed_def known_command_def ddhcpctl_codes)
qed

section \<open>Start, loop and control\<close>

text \<open>
  C33: The start opens the sockets of the daemon: the multicast, the server, the control and
  the netlink socket, and the one for clients unless DHCP is disabled, each with all its
  settings in the order of the code, registered in this order and with a number of their own; or a
  call has failed and the process ends with exit code 1 or 2 or is aborted. Nothing is left open
  but what is registered.
\<close>

theorem start_opens_sockets:
  assumes "started k" "nl_fresh k"
  shows "ok (open_sockets interface interface_client control_path disable_dhcp k)
    (sockets_opened (all_sockets interface interface_client control_path disable_dhcp) k)"
  using assms by (rule open_sockets_ok)

theorem start_opens_sockets_witness:
  "\<exists>so. open_sockets ''server0'' ''client0'' ''/tmp/ddhcpd_ctl'' 1 demo_kernel = Some (Inr so) \<and>
    map e_epollin (k_polled (so_kernel so)) = [Hdl_ddhcp_block, Hdl_ddhcp_dhcp, Hdl_ctrl_new, Netlink_in_hdl]"
proof -
  obtain r where r: "open_sockets ''server0'' ''client0'' ''/tmp/ddhcpd_ctl'' 1 demo_kernel = Some r"
    "sockets_opened (all_sockets ''server0'' ''client0'' ''/tmp/ddhcpd_ctl'' 1) demo_kernel r"
    using start_opens_sockets [OF demo_kernel_ok(1,2), of "''server0''" "''client0''" "''/tmp/ddhcpd_ctl''" 1]
    unfolding ok_iff by blast
  then obtain so where so: "r = Inr so" using demo_kernel_ok(3) by (cases r) (simp_all add: sockets_opened_def)
  then have "map e_epollin (k_polled (so_kernel so)) = [Hdl_ddhcp_block, Hdl_ddhcp_dhcp, Hdl_ctrl_new, Netlink_in_hdl]"
    using r(2) prepared_epollin epollin_sockets [of _ _ _ 1] by (fastforce simp: sockets_opened_def)
  then show ?thesis using r(1) so by simp
qed

text \<open>
  The daemon gets from its command line to a well-formed state: whatever options it
  accepts, if the blocks can be allocated then every state reached from the start is well
  formed, keeps the configured parameters and has no descriptors open but those it was started
  with, its sockets and its connections.
\<close>

theorem command_line_to_daemon:
  assumes "configure errno opts w = Some (Inr g)" "length (c_node_id w) = 8" "fst (ddhcp_block_init (g_config g)) = 0"
    and "length memory = BUFSIZE" "startup memory k g = Some (Inr s0)" "reachable s0 s" "started k" "nl_fresh k"
  shows "wf_state (s_config s) \<and> same_params (g_config g) (s_config s) \<and> sockets_ok (set (k_open k)) (s_sockets s)"
  using reachable_ok [OF assms(6) startup_ok [OF configure_ok [OF assms(1)] assms(2,4,3,5,7,8)]]
  by (simp add: loop_ok_def daemon_ok_def)

theorem command_line_to_daemon_witness:
  "\<exists>g s0. configure False [] demo = Some (Inr g) \<and> startup (replicate BUFSIZE 0) demo_kernel g = Some (Inr s0) \<and>
    wf_state (s_config (s0\<lparr>s_dhcp := s_dhcp s0 @ [[1, 2, 3]]\<rparr>))"
proof -
  obtain g where g: "configure False [] demo = Some (Inr g)" "fst (ddhcp_block_init (g_config g)) = 0"
    "g_config g = (g_config (initial_settings demo))\<lparr>c_number_of_blocks := 8\<rparr>" by (rule demo_configured)
  have "g_config g = (g_config (initial_settings demo))\<lparr>c_number_of_blocks := 8, w_out := []\<rparr>"
    using g(3) by (simp add: initial_settings_def demo_def node_world_def)
  from demo_started [OF this] obtain s0 where s0: "startup (replicate BUFSIZE 0) demo_kernel g = Some (Inr s0)" by blast
  have "reachable s0 (s0\<lparr>s_dhcp := s_dhcp s0 @ [[1, 2, 3]]\<rparr>)"
    by (rule reachable.step [OF reachable.start dhcp_arrives])
  from command_line_to_daemon [OF g(1) _ g(2) _ s0 this demo_kernel_ok(1,2)] show ?thesis using g(1) s0 by auto
qed

text \<open>
  C34: A command line that is accepted gives a consistent configuration: a prefix of 8 to 32
  bits, a power of two of addresses per block and as many blocks as fill the network, or
  none when a block is larger than the network, a tentative timeout of at least two, one
  option per code, and no spare leases without DHCP. The node identifier is not set.
\<close>

theorem command_line_sound:
  assumes "configure errno opts w = Some (Inr g)"
  shows "configured (c_node_id w) g"
  using assms by (rule configure_ok)

theorem command_line_sound_witness: "\<exists>g. configure False [] demo = Some (Inr g) \<and> configured own_id g"
proof -
  obtain g where g: "configure False [] demo = Some (Inr g)" by (rule demo_configured)
  from command_line_sound [OF this] g show ?thesis by auto
qed

text \<open>
  C35: An iteration of the event loop completes on every datagram of another node on the
  multicast socket, every new connection, command and hang-up and every netlink message, in
  every state the daemon reaches in which no cached request has lost its options. It ends the
  process only on an error of \<open>epoll\<close> or when a call for a connection fails. When the time for
  house keeping has come it is done and the next one set, and the learning phase is over.
  In every state the daemon reaches the shutdown is done in full when no cached request has lost
  its options, and is undefined otherwise.
\<close>

theorem iteration_completes:
  assumes "wf_state w" "countable_leases w" "c_dhcp_packet_cache w = []" "length buffer = BUFSIZE"
    and "sockets_ok base so" "reachable (loop_start learning buffer so w) s" "\<forall>e \<in> set es. harmless e"
  shows "(whole_cache (s_config s) \<longrightarrow> ok (loop_iteration es s) (turned base w es s)) \<and>
    (case shutdown s of
       None \<Rightarrow> \<not> whole_cache (s_config s)
     | Some s' \<Rightarrow> whole_cache (s_config s) \<and> shut_down s s')"
proof -
  note ok = reachable_ok [OF assms(6) loop_start_ok [OF assms(1-5)]]
  show ?thesis using loop_iteration_defined [OF ok _ assms(7)] shutdown_ok [OF ok] by blast
qed

theorem iteration_completes_witness:
  "ok (loop_iteration [Multicast_in, Control_new, Control_in 9 (Some [1]), Netlink_in (-1)]
      (loop_start True (replicate BUFSIZE 0) demo_sockets demo))
    (\<lambda>r. case r of Inl code \<Rightarrow> False | Inr s' \<Rightarrow> s_learning_phase s')"
proof -
  let ?s = "loop_start True (replicate BUFSIZE 0) demo_sockets demo"
  let ?es = "[Multicast_in, Control_new, Control_in 9 (Some [1]), Netlink_in (-1)]"
  have "\<not> due ?s" "s_learning_phase ?s"
    by (simp_all add: due_def loop_start_def time_null_def Let_def) (simp add: demo_def node_world_def)
  moreover have "s_sockets ?s = demo_sockets" by (simp add: loop_start_def time_null_def Let_def)
  then have "obliged ?s" using demo_sockets_kernel by simp
  moreover have "whole_cache (s_config ?s)" by (simp add: loop_start_def time_null_def Let_def whole_cache_def)
  ultimately show ?thesis
    using iteration_completes [OF demo_wf demo_countable _ _ demo_sockets_ok reachable.start,
        of "replicate BUFSIZE 0" ?es True]
    by (auto elim!: ok_mono simp: turned_def may_end_def split: sum.splits)
qed

text \<open>
  C36: A signal to terminate ends the daemon: in every state it reaches in which no cached
  request has lost its options, a turn of the loop in which SIGINT or SIGTERM comes, and no
  datagram of a client and no direct one, is the last one, whatever would follow. The
  shutdown is then done on a state the daemon has reached, and it completes; only an error of \<open>epoll\<close> or a failed call for a connection can end the process
  before that.
\<close>

theorem signal_stops_daemon:
  assumes "wf_state w" "countable_leases w" "c_dhcp_packet_cache w = []" "length buffer = BUFSIZE"
    and "sockets_ok base so" "reachable (loop_start learning buffer so w) s" "whole_cache (s_config s)"
    and "harmless_turn t" "SIGINT \<in> set (t_signals t) \<or> SIGTERM \<in> set (t_signals t)"
  shows "ok (run (t # turns) (daemon_running, s)) (stopped base w t s)"
  using run_stops [OF reachable_ok [OF assms(6) loop_start_ok [OF assms(1-5)]] assms(7-9)] .

theorem signal_stops_daemon_witness:
  "\<exists>s'. run [last_turn\<lparr>t_events := [Control_new]\<rparr>, last_turn] (2, loop_start True (replicate BUFSIZE 0) demo_sockets demo) =
    Some (Stopped s') \<and> c_options (s_config s') = []"
proof -
  let ?s = "loop_start True (replicate BUFSIZE 0) demo_sockets demo"
  let ?t = "last_turn\<lparr>t_events := [Control_new]\<rparr>"
  have "harmless_turn ?t" "SIGTERM \<in> set (t_signals ?t)" by (simp_all add: harmless_turn_def turn_ok_def last_turn_def)
  then obtain r where r: "run [?t, last_turn] (2, ?s) = Some r" "stopped {0, 1, 2} demo ?t ?s r"
    using signal_stops_daemon [OF demo_wf demo_countable _ _ demo_sockets_ok reachable.start,
        of "replicate BUFSIZE 0" True ?t "[last_turn]" 2]
    unfolding ok_iff by (auto simp: loop_start_def Let_def time_null_def whole_cache_def)
  have "s_sockets ?s = demo_sockets" by (simp add: loop_start_def Let_def)
  then have "obliged ?s" using demo_sockets_kernel by simp
  then obtain s' where "r = Stopped s'" "c_options (s_config s') = []"
    using r(2) by (cases r) (auto simp: stopped_def may_end_def shut_down_def last_turn_def)
  then show ?thesis using r(1) by blast
qed

text \<open>
  What the control client sends, the daemon carries out: every command line of the
  client that leads to a message leads to one the daemon accepts.
\<close>

theorem client_commands_accepted:
  assumes "ctl_main no_arguments opts v = Some (Inr msg)" "msg \<noteq> []"
    and "wf_state w" "num_blocks w < 2 ^ 31" "two_allocs msg w"
  shows "handle_command (msg @ r) (int (length msg)) w = Some (0, command_effect (msg @ r) w)"
  using ctl_main_acceptable [OF assms(1)] assms(2-5) by (intro acceptable_handled) auto

theorem client_commands_accepted_witness:
  "handle_command ([4, 42] @ replicate 1498 0) 2 demo = Some (0, command_effect ([4, 42] @ replicate 1498 0) demo)"
proof -
  have "atoi ''42'' = Some 42" by code_simp
  then have "ctl_main False [(CHR ''r'', ''42'')] demo = Some (Inr [4, 42])"
    by (simp add: ctl_main_defs calloc_def ctl_option_def put_message_def DDHCPCTL_DHCP_OPTION_REMOVE_def BUFSIZE_MAX_def)
  from client_commands_accepted [OF this _ demo_wf, of "replicate 1498 0"] show ?thesis by (simp add: two_allocs_def)
qed

text \<open>
  C37: A session of the client with the daemon: from every command line of the client that asks
  for something, and in every state the daemon reaches, the daemon accepts the connection, reads
  the message, carries the command out and closes the connection again; and a client whose
  calls succeed sends that message, prints exactly the text the daemon has written, in
  whatever pieces it arrives, returns 0 and leaves no descriptor open.
\<close>

theorem control_session:
  assumes "wf_state w" "countable_leases w" "c_dhcp_packet_cache w = []" "length buffer = BUFSIZE"
    and "sockets_ok base so" "reachable (loop_start learning buffer so w) s" "obliged s"
    and "ctl_parse no_arguments opts v = Some (Inr c)" "ctl_message c \<noteq> []" "two_allocs (ctl_message c) (s_config s)"
  shows "\<exists>s'. session_served (ctl_message c) s s' \<and> (\<forall>replies k. obliging k \<longrightarrow> well_polled k \<longrightarrow>
    delivers replies (answer_text (s_config s) (s_config s')) \<longrightarrow>
    (\<exists>ps k'. ctl_program no_arguments opts (int (length (ctl_message c))) replies v k = Some (0, ps, k') \<and>
      concat ps = answer_text (s_config s) (s_config s') \<and> k_open k' = k_open k))"
  using session_ok [OF reachable_ok [OF assms(6) loop_start_ok [OF assms(1-5)]] assms(7-10)] .

theorem control_session_witness:
  "\<exists>s' ps k'. session_served [DDHCPCTL_DHCP_OPTIONS_SHOW] (loop_start True (replicate BUFSIZE 0) demo_sockets demo) s' \<and>
    ctl_program False [(CHR ''d'', '''')] 1 [Some demo_text, Some []] demo demo_kernel = Some (0, ps, k') \<and>
    take 20 (concat ps) = ''DHCP Lease Time: 300'' \<and> k_open k' = [2, 1, 0]"
proof -
  let ?s = "loop_start True (replicate BUFSIZE 0) demo_sockets demo"
  let ?m = "[DDHCPCTL_DHCP_OPTIONS_SHOW]"
  obtain c where c: "ctl_parse False [(CHR ''d'', '''')] demo = Some (Inr c)" "ctl_message c = ?m" by (rule demo_parse)
  have s: "s_config ?s = demo" "s_sockets ?s = demo_sockets" by (simp_all add: loop_start_def Let_def)
  have "obliged ?s" "two_allocs ?m demo" using s demo_sockets_kernel by (simp_all add: two_allocs_def ddhcpctl_codes)
  then obtain s' where s': "session_served ?m ?s s'" and client: "\<forall>replies k. obliging k \<longrightarrow> well_polled k \<longrightarrow>
      delivers replies (answer_text demo (s_config s')) \<longrightarrow>
      (\<exists>ps k'. ctl_program False [(CHR ''d'', '''')] 1 replies demo k = Some (0, ps, k') \<and>
        concat ps = answer_text demo (s_config s') \<and> k_open k' = k_open k)"
    using control_session [OF demo_wf demo_countable _ _ demo_sockets_ok reachable.start _ c(1), of "replicate BUFSIZE 0" True] s c(2)
    by auto
  have "answer_text demo (s_config s') = demo_text" using s' s demo_answer by (auto simp: session_served_def)
  moreover have "delivers [Some demo_text, Some []] demo_text"
    using demo_text_eq by (auto simp: delivers_def intro: exI [of _ "[demo_text]"])
  moreover have "well_polled demo_kernel" by (simp add: well_polled_def demo_kernel_def)
  ultimately obtain ps k' where "ctl_program False [(CHR ''d'', '''')] 1 [Some demo_text, Some []] demo demo_kernel = Some (0, ps, k')"
    "concat ps = demo_text" "k_open k' = [2, 1, 0]"
    using client demo_kernel_ok by fastforce
  then show ?thesis using s' demo_text_eq(1) by auto
qed

text \<open>
  C38: A DHCP option goes from the command line of the client to the option store of the
  daemon unchanged: written as \<open>CODE:LEN:P1.P2\<close> in decimal it is parsed, sent and stored.
\<close>

theorem option_from_client_to_store:
  assumes "wf_option x" "shd (w_allocs v)" "shd (stl (w_allocs v))" "shd (stl (stl (w_allocs v)))"
    and "wf_state w" "num_blocks w < 2 ^ 31" "shd (w_allocs w)" "shd (stl (w_allocs w))"
  shows "\<exists>msg w'. ctl_main False [(CHR ''o'', option_argument x)] v = Some (Inr msg) \<and>
    handle_command (msg @ r) (int (length msg)) w = Some (0, w') \<and>
    c_options w' = set_option_in_store (c_options w) x"
proof (intro exI conjI)
  let ?m = "option_message x"
  show "ctl_main False [(CHR ''o'', option_argument x)] v = Some (Inr ?m)" using assms(1-4) by (rule ctl_option_text)
  show "handle_command (?m @ r) (int (length ?m)) w = Some (0, command_effect (?m @ r) w)"
    using acceptable_handled [OF acceptable_option [OF assms(1)] assms(5,6)] assms(7,8) by (simp add: two_allocs_def)
  have "(?m @ r) ! 0 = DDHCPCTL_DHCP_OPTION_SET" by (simp add: option_message_def)
  then show "c_options (command_effect (?m @ r) w) = set_option_in_store (c_options w) x"
    using option_in_message [OF assms(1), of r] by (simp add: command_effect_def Let_def ddhcpctl_codes)
qed

theorem option_from_client_to_store_witness:
  "\<exists>msg w'. ctl_main False [(CHR ''o'', ''6:4:9.9.9.9'')] demo = Some (Inr msg) \<and>
    handle_command msg (int (length msg)) demo = Some (0, w') \<and>
    c_options w' = [lease_time_option, server_option, \<lparr>o_code = 6, o_len = 4, o_payload = [9, 9, 9, 9]\<rparr>]"
proof -
  let ?x = "\<lparr>o_code = 6, o_len = 4, o_payload = [9, 9, 9, 9]\<rparr>"
  have "option_argument ?x = ''6:4:9.9.9.9''" by code_simp
  moreover have "wf_option ?x" by (simp add: wf_option_def)
  moreover have "set_option_in_store (c_options demo) ?x = [lease_time_option, server_option, ?x]"
    by (simp add: lease_time_option_def server_option_def dhcp_codes)
  ultimately show ?thesis using option_from_client_to_store [of ?x demo demo "[]"] demo_wf by auto
qed

section \<open>Linked lists\<close>

text \<open>
  C39: The rings of list.h are lists: appending entries in turn makes the list of them in
  that order, an entry is taken out by its address, a loop visits the entries in order, or in
  reverse order, and ends, and the safe loops may delete what they visit, which filters the list.
\<close>

theorem rings_are_lists:
  assumes "is_list h head xs"
  shows "(\<forall>ps. distinct (xs @ ps) \<longrightarrow> (\<forall>p \<in> set ps. p \<noteq> head \<and> allocated p h) \<longrightarrow>
      (\<exists>h'. foldM (\<lambda>p. list_add_tail p head) ps h = Some h' \<and> is_list h' head (xs @ ps))) \<and>
    (\<forall>p \<in> set xs. \<exists>h'. list_del p h = Some h' \<and> is_list h' head (remove1 p xs)) \<and>
    (\<exists>p. h_next h head = Some p \<and>
      (\<forall>f s. list_for_each (pure_body f) p head s h = do { s \<leftarrow> foldM f xs s; Some (s, h) }) \<and>
      (\<exists>n. h_next h p = Some n \<and> (\<forall>P. \<exists>h'. list_for_each_safe (delete_if P) p n head [] h = Some (filter P xs, h') \<and>
        is_list h' head (filter (\<lambda>p. \<not> P p) xs)))) \<and>
    (\<exists>p. h_prev h head = Some p \<and>
      (\<forall>f s. list_for_each_prev (pure_body f) p head s h = do { s \<leftarrow> foldM f (rev xs) s; Some (s, h) }) \<and>
      (\<exists>n. h_prev h p = Some n \<and> (\<forall>P. \<exists>h'. list_for_each_prev_safe (delete_if P) p n head [] h = Some (filter P (rev xs), h') \<and>
        is_list h' head (filter (\<lambda>p. \<not> P p) xs))))"
  using ring.enter_all [OF assms] ring.leave_one [OF assms] forward_loops [OF assms] backward_loops [OF assms] by blast

definition small_ring :: heap where
  "small_ring = \<lparr>h_next = [1 \<mapsto> 2, 2 \<mapsto> 3, 3 \<mapsto> 1], h_prev = [1 \<mapsto> 3, 2 \<mapsto> 1, 3 \<mapsto> 2]\<rparr>"

theorem rings_are_lists_witness:
  "\<exists>p n h'. h_prev small_ring 1 = Some p \<and> h_prev small_ring p = Some n \<and>
    list_for_each_prev_safe (delete_if (\<lambda>p. p = 3)) p n 1 [] small_ring = Some ([3], h') \<and> is_list h' 1 [2]"
proof -
  have "is_list small_ring 1 [2, 3]" by (simp add: is_list_def small_ring_def)
  from conjunct2 [OF conjunct2 [OF conjunct2 [OF rings_are_lists [OF this]]]] obtain p n where
    p: "h_prev small_ring 1 = Some p" "h_prev small_ring p = Some n" and
    P: "\<forall>P. \<exists>h'. list_for_each_prev_safe (delete_if P) p n 1 [] small_ring = Some (filter P (rev [2, 3]), h') \<and>
      is_list h' 1 (filter (\<lambda>p. \<not> P p) [2, 3])"
    by blast
  from spec [OF P, of "\<lambda>p. p = 3"] p show ?thesis by auto
qed

text \<open>
  C40: The claim list of the model stands for the ring through the blocks: taking a block
  off it, appending one and visiting all of them are what list.h does to the ring.
\<close>

theorem claim_list_refined:
  assumes "claims_at node head h w"
  shows "(\<forall>i \<in> set (c_claiming_blocks w).
      \<exists>h'. list_del (node i) h = Some h' \<and> claims_at node head h' (claim_list_del i w)) \<and>
    (\<forall>i. i \<notin> set (c_claiming_blocks w) \<longrightarrow> (\<exists>h'. list_add_tail (node i) head h = Some h' \<and>
      claims_at node head h' (w\<lparr>c_claiming_blocks := c_claiming_blocks w @ [i]\<rparr>))) \<and>
    (\<forall>f s. \<exists>p. h_next h head = Some p \<and> list_for_each (pure_body (\<lambda>p. f (inv node p))) p head s h =
      do { s \<leftarrow> foldM f (c_claiming_blocks w) s; Some (s, h) })"
  using claims_del [OF assms] claims_add [OF assms] claims_each [OF assms] by blast

definition demo_ring :: heap where
  "demo_ring = \<lparr>h_next = (\<lambda>p. Some (if p = 1 then 4 else if p = 4 then 1 else p)),
     h_prev = (\<lambda>p. Some (if p = 1 then 4 else if p = 4 then 1 else p))\<rparr>"

theorem claim_list_refined_witness:
  "\<exists>h'. list_del 4 demo_ring = Some h' \<and> is_list h' 1 []"
proof -
  have "claims_at (\<lambda>i. i + 2) 1 demo_ring demo"
    by (auto simp: claims_at_def demo_ring_def allocated_def is_list_def inj_def)
  from conjunct1 [OF claim_list_refined [OF this]] show ?thesis
    by (auto simp: claims_at_def claim_list_del_def)
qed

end
